(* ===== verification/Prelude.thy ===== *)
theory Prelude
  imports Main "HOL-Library.Word"
begin

text \<open>
  Shared vocabulary of the development: the machine integer types of the C++ sources, the
  errors their library calls raise, the ordered association list that stands for
  \<^verbatim>\<open>std::map\<close>, and the two interfaces every component is stated against
  (codecs and invariants of transition systems). The collection \<open>cpp_defs\<close> gathers the
  equations that unfold thin wrappers over the C++ library.
\<close>

section \<open>Collections\<close>

named_theorems cpp_defs \<open>definitions of thin wrappers over the C++ library\<close>
named_theorems machine_simps \<open>simplification rules of the step relations\<close>

section \<open>Machine integers and errors\<close>

text \<open>\<open>size_t\<close> is 64 bits wide on the deployment platform; protobuf \<open>int32\<close> fields are
  32-bit two's complement values; C++ \<open>int\<close> variables are mathematical integers whose
  narrowing conversions are written out with \<open>to_int32\<close>.\<close>

type_synonym size_t = "64 word"
type_synonym int32 = "32 word"

datatype cpp_error =
    OutOfRange
  | InvalidArgument
  | UndefinedConversion
  | DivisionByZero
  | UndefinedBehaviour
  | StorageException
  | Terminate

type_synonym 'a result = "cpp_error + 'a"

definition to_int32 :: "int \<Rightarrow> int" where
  "to_int32 x = (x + 2 ^ 31) mod 2 ^ 32 - 2 ^ 31"

definition to_long :: "int \<Rightarrow> int" where
  "to_long x = (x + 2 ^ 63) mod 2 ^ 64 - 2 ^ 63"

text \<open>Assigning a \<open>size_t\<close> to an \<open>int32\<close> field keeps the low 32 bits; reading the field back
  into a \<open>size_t\<close> sign-extends it.\<close>

definition int32_of_size :: "size_t \<Rightarrow> int32" where
  "int32_of_size x = ucast x"

definition size_of_int32 :: "int32 \<Rightarrow> size_t" where
  "size_of_int32 x = scast x"

lemma to_int32_id: "- (2 ^ 31) \<le> x \<Longrightarrow> x < 2 ^ 31 \<Longrightarrow> to_int32 x = x"
  by (simp add: to_int32_def)

lemma to_int32_range: "- (2 ^ 31) \<le> to_int32 x" "to_int32 x < 2 ^ 31"
  by (simp_all add: to_int32_def)

section \<open>Binding of results\<close>

definition rbind :: "'a result \<Rightarrow> ('a \<Rightarrow> 'b result) \<Rightarrow> 'b result" where
  "rbind r f = (case r of Inl e \<Rightarrow> Inl e | Inr x \<Rightarrow> f x)"

lemma rbind_simps [simp]:
  "rbind (Inl e) f = Inl e"
  "rbind (Inr x) f = f x"
  by (simp_all add: rbind_def)

lemma rbind_Inr_iff: "rbind r f = Inr y \<longleftrightarrow> (\<exists>x. r = Inr x \<and> f x = Inr y)"
  by (cases r) auto

section \<open>Ordered maps\<close>

text \<open>
  \<^verbatim>\<open>std::map\<close> iterates in key order, so it is an association list sorted by key.
  \<open>emplace\<close> keeps an existing entry, \<open>operator[] =\<close> overwrites it.
\<close>

type_synonym ('k, 'v) std_map = "('k \<times> 'v) list"

fun map_emplace :: "'k::linorder \<Rightarrow> 'v \<Rightarrow> ('k, 'v) std_map \<Rightarrow> ('k, 'v) std_map" where
  "map_emplace k v [] = [(k, v)]"
| "map_emplace k v ((k', v') # m) =
     (if k < k' then (k, v) # (k', v') # m
      else if k = k' then (k', v') # m
      else (k', v') # map_emplace k v m)"

fun map_set :: "'k::linorder \<Rightarrow> 'v \<Rightarrow> ('k, 'v) std_map \<Rightarrow> ('k, 'v) std_map" where
  "map_set k v [] = [(k, v)]"
| "map_set k v ((k', v') # m) =
     (if k < k' then (k, v) # (k', v') # m
      else if k = k' then (k, v) # m
      else (k', v') # map_set k v m)"

definition map_erase :: "'k \<Rightarrow> ('k, 'v) std_map \<Rightarrow> ('k, 'v) std_map" where
  "map_erase k m = filter (\<lambda>p. fst p \<noteq> k) m"

definition map_wf :: "('k::linorder, 'v) std_map \<Rightarrow> bool" where
  "map_wf m \<longleftrightarrow> sorted (map fst m) \<and> distinct (map fst m)"

abbreviation map_find :: "('k, 'v) std_map \<Rightarrow> 'k \<Rightarrow> 'v option" where
  "map_find m k \<equiv> map_of m k"

definition map_at :: "('k, 'v) std_map \<Rightarrow> 'k \<Rightarrow> 'v result" where
  "map_at m k = (case map_find m k of None \<Rightarrow> Inl OutOfRange | Some v \<Rightarrow> Inr v)"

lemma keys_map_emplace: "fst ` set (map_emplace k v m) = insert k (fst ` set m)"
  by (induction k v m rule: map_emplace.induct) auto

lemma keys_map_set: "fst ` set (map_set k v m) = insert k (fst ` set m)"
  by (induction k v m rule: map_set.induct) auto

lemma map_wf_Nil [simp]: "map_wf []"
  by (simp add: map_wf_def)

lemma map_wf_Cons:
  "map_wf ((k, v) # m) \<longleftrightarrow> (\<forall>k' \<in> fst ` set m. k < k') \<and> map_wf m"
  by (auto simp: map_wf_def less_le)

lemma map_find_below:
  "\<forall>x \<in> set m. (k'::'k::linorder) < fst x \<Longrightarrow> k \<le> k' \<Longrightarrow> map_find m k = None"
  by (force simp: map_of_eq_None_iff)

lemma map_wf_emplace: "map_wf m \<Longrightarrow> map_wf (map_emplace k v m)"
  by (induction k v m rule: map_emplace.induct)
     (auto simp: map_wf_Cons keys_map_emplace)

lemma map_wf_set: "map_wf m \<Longrightarrow> map_wf (map_set k v m)"
  by (induction k v m rule: map_set.induct) (auto simp: map_wf_Cons keys_map_set)

lemma map_wf_erase: "map_wf m \<Longrightarrow> map_wf (map_erase k m)"
  by (induction m) (auto simp: map_wf_Cons map_erase_def)

lemma map_find_emplace:
  "map_wf m \<Longrightarrow> map_find (map_emplace k v m) k' =
     (if k' = k then (case map_find m k of None \<Rightarrow> Some v | Some w \<Rightarrow> Some w)
      else map_find m k')"
  by (induction k v m rule: map_emplace.induct)
     (auto simp: map_wf_Cons map_find_below split: option.splits)

lemma map_find_set:
  "map_wf m \<Longrightarrow> map_find (map_set k v m) = (map_find m)(k \<mapsto> v)"
  by (induction k v m rule: map_set.induct) (auto simp: map_wf_Cons fun_eq_iff)

lemma map_find_erase: "map_find (map_erase k m) = (map_find m)(k := None)"
  by (induction m) (auto simp: map_erase_def fun_eq_iff)

lemma length_map_emplace:
  "map_wf m \<Longrightarrow> length (map_emplace k v m) =
     (if map_find m k = None then Suc (length m) else length m)"
  by (induction k v m rule: map_emplace.induct)
     (auto simp: map_wf_Cons map_find_below)

lemma length_eq_card_dom: "map_wf m \<Longrightarrow> length m = card (dom (map_find m))"
  by (simp add: map_wf_def dom_map_of_conv_image_fst card_set flip: set_map)
     (metis distinct_card length_map)

text \<open>The contract its clients rely on: what a lookup returns after each update, and that
  every update keeps the representation well formed.\<close>

locale ordered_map =
  fixes emplace :: "'k \<Rightarrow> 'v \<Rightarrow> 'm \<Rightarrow> 'm"
    and assign :: "'k \<Rightarrow> 'v \<Rightarrow> 'm \<Rightarrow> 'm"
    and erase :: "'k \<Rightarrow> 'm \<Rightarrow> 'm"
    and lookup :: "'m \<Rightarrow> 'k \<Rightarrow> 'v option"
    and count :: "'m \<Rightarrow> nat"
    and wf :: "'m \<Rightarrow> bool"
  assumes lookup_emplace: "wf m \<Longrightarrow> lookup (emplace k v m) =
      (if lookup m k = None then (lookup m)(k \<mapsto> v) else lookup m)"
    and lookup_assign: "wf m \<Longrightarrow> lookup (assign k v m) = (lookup m)(k \<mapsto> v)"
    and lookup_erase: "wf m \<Longrightarrow> lookup (erase k m) = (lookup m)(k := None)"
    and count_card: "wf m \<Longrightarrow> count m = card (dom (lookup m))"
    and wf_emplace: "wf m \<Longrightarrow> wf (emplace k v m)"
    and wf_assign: "wf m \<Longrightarrow> wf (assign k v m)"
    and wf_erase: "wf m \<Longrightarrow> wf (erase k m)"
begin

lemma emplace_first_wins:
  "wf m \<Longrightarrow> lookup m k = Some w \<Longrightarrow> lookup (emplace k v m) = lookup m"
  by (simp add: lookup_emplace)

lemma dom_emplace: "wf m \<Longrightarrow> dom (lookup (emplace k v m)) = insert k (dom (lookup m))"
  by (auto simp: lookup_emplace split: if_splits)

lemma emplace_all_wf: "wf m \<Longrightarrow> wf (fold (\<lambda>(k, v). emplace k v) kvs m)"
  by (induction kvs arbitrary: m) (auto simp: wf_emplace)

lemma emplace_all_lookup:
  "wf m \<Longrightarrow> lookup (fold (\<lambda>(k, v). emplace k v) kvs m) = map_of kvs ++ lookup m"
proof (induction kvs arbitrary: m)
  case Nil
  then show ?case by simp
next
  case (Cons kv kvs)
  obtain k v where kv: "kv = (k, v)" by (cases kv)
  have "lookup (fold (\<lambda>(k, v). emplace k v) kvs (emplace k v m)) =
      map_of kvs ++ lookup (emplace k v m)"
    using Cons by (simp add: wf_emplace)
  then show ?case
    using Cons.prems by (auto simp: kv lookup_emplace fun_eq_iff map_add_def split: option.splits)
qed

end

interpretation smap: ordered_map map_emplace map_set map_erase map_of length map_wf
  by unfold_locales
     (auto simp: map_find_emplace map_find_set map_find_erase length_eq_card_dom
       map_wf_emplace map_wf_set map_wf_erase fun_eq_iff split: option.splits)

section \<open>Codecs\<close>

text \<open>
  A codec is an encoder and a decoder with a domain on which decoding undoes encoding. The
  replication messages, the wire offsets and the names of intermediate blobs are codecs.
\<close>

locale codec =
  fixes enc :: "'a \<Rightarrow> 'b" and dec :: "'b \<Rightarrow> 'a" and valid :: "'a \<Rightarrow> bool"
  assumes dec_enc: "valid x \<Longrightarrow> dec (enc x) = x"
begin

lemma enc_inj: "valid x \<Longrightarrow> valid y \<Longrightarrow> enc x = enc y \<longleftrightarrow> x = y"
  by (metis dec_enc)

lemma dec_enc_list: "\<forall>x \<in> set xs. valid x \<Longrightarrow> map dec (map enc xs) = xs"
  by (simp add: dec_enc map_idI)

lemma distinct_enc: "\<forall>x \<in> set xs. valid x \<Longrightarrow> distinct (map enc xs) \<longleftrightarrow> distinct xs"
  by (auto simp: distinct_map inj_on_def enc_inj)

end

section \<open>Transition systems\<close>

inductive reachable :: "('s \<Rightarrow> bool) \<Rightarrow> ('s \<Rightarrow> 's \<Rightarrow> bool) \<Rightarrow> 's \<Rightarrow> bool"
  for init :: "'s \<Rightarrow> bool" and step :: "'s \<Rightarrow> 's \<Rightarrow> bool" where
  start: "init s \<Longrightarrow> reachable init step s"
| next_step: "reachable init step s \<Longrightarrow> step s t \<Longrightarrow> reachable init step t"

text \<open>An inductive invariant of a transition system holds in every reachable state.\<close>

locale invariant_system =
  fixes init :: "'s \<Rightarrow> bool" and step :: "'s \<Rightarrow> 's \<Rightarrow> bool" and inv :: "'s \<Rightarrow> bool"
  assumes inv_init: "init s \<Longrightarrow> inv s"
    and inv_step: "inv s \<Longrightarrow> step s t \<Longrightarrow> inv t"
begin

lemma reachable_inv: "reachable init step s \<Longrightarrow> inv s"
  by (induction rule: reachable.induct) (auto intro: inv_init inv_step)

lemma steps_inv: "step\<^sup>*\<^sup>* s t \<Longrightarrow> inv s \<Longrightarrow> inv t"
  by (induction rule: rtranclp_induct) (auto intro: inv_step)

end

lemma reachable_mono: "reachable init step s \<Longrightarrow> (\<And>s. init s \<Longrightarrow> init' s) \<Longrightarrow> reachable init' step s"
  by (induction rule: reachable.induct) (auto intro: reachable.intros)

lemma reachable_rtranclp: "step\<^sup>*\<^sup>* s t \<Longrightarrow> reachable init step s \<Longrightarrow> reachable init step t"
  by (induction rule: rtranclp_induct) (auto intro: reachable.next_step)

section \<open>Countdown to a simulated failure\<close>

text \<open>Master and worker share a test feature: after a given number of assigned tasks the process
  enters a fail state. The contract of the countdown and what it implies for runs of tasks.\<close>

locale fail_counter =
  fixes check :: "'s \<Rightarrow> 's" and will :: "'s \<Rightarrow> bool" and until :: "'s \<Rightarrow> int"
    and failed :: "'s \<Rightarrow> bool"
  assumes check_off: "\<not> will s \<Longrightarrow> check s = s"
    and check_will: "will (check s) = will s"
    and check_until: "will s \<Longrightarrow> until (check s) = until s - 1"
    and check_failed: "will s \<Longrightarrow> failed (check s) \<longleftrightarrow> failed s \<or> until s \<le> 1"
begin

lemma never_fails: "\<not> will s \<Longrightarrow> (check ^^ n) s = s"
  by (induction n) (simp_all add: check_off)

lemma runs_will: "will ((check ^^ n) s) = will s"
  by (induction n) (simp_all add: check_will)

lemma runs_until: "will s \<Longrightarrow> until ((check ^^ n) s) = until s - int n"
  by (induction n) (simp_all add: check_until runs_will)

lemma fails_on_time:
  "will s \<Longrightarrow> \<not> failed s \<Longrightarrow> 0 < until s \<Longrightarrow> failed ((check ^^ n) s) \<longleftrightarrow> until s \<le> int n"
  by (induction n) (auto simp: check_failed runs_will runs_until)

end

end
