(* ===== verification/CppString.thy ===== *)
theory CppString
  imports Prelude "HOL-Library.List_Lexorder" "HOL-Library.Char_ord"
begin

text \<open>
  The part of \<^verbatim>\<open>std::string\<close> the sources use: searching, slicing, and the
  conversions between integers and decimal text (\<^verbatim>\<open>std::to_string\<close>,
  \<^verbatim>\<open>strtol\<close>, \<^verbatim>\<open>std::stol\<close>). A position is a \<open>nat option\<close>,
  \<open>None\<close> for \<^verbatim>\<open>std::string::npos\<close>. Strings are compared lexicographically by
  \<open>List_Lexorder\<close> and \<open>Char_ord\<close>, as \<^verbatim>\<open>std::sort\<close> on strings does.
\<close>

section \<open>Searching and slicing\<close>

fun find_char :: "char \<Rightarrow> string \<Rightarrow> nat option" where
  "find_char c [] = None"
| "find_char c (x # xs) = (if x = c then Some 0 else map_option Suc (find_char c xs))"

text \<open>\<^verbatim>\<open>rfind\<close> of a character and \<^verbatim>\<open>find_last_of\<close> of a one-character set.\<close>

fun rfind_char :: "char \<Rightarrow> string \<Rightarrow> nat option" where
  "rfind_char c [] = None"
| "rfind_char c (x # xs) =
     (case rfind_char c xs of Some i \<Rightarrow> Some (Suc i)
      | None \<Rightarrow> if x = c then Some 0 else None)"

fun starts_with :: "string \<Rightarrow> string \<Rightarrow> bool" where
  "starts_with [] s = True"
| "starts_with (p # ps) [] = False"
| "starts_with (p # ps) (x # xs) = (p = x \<and> starts_with ps xs)"

fun find_str :: "string \<Rightarrow> string \<Rightarrow> nat option" where
  "find_str p [] = (if p = [] then Some 0 else None)"
| "find_str p (x # xs) =
     (if starts_with p (x # xs) then Some 0 else map_option Suc (find_str p xs))"

text \<open>An \<^verbatim>\<open>int\<close> that receives a position holds \<open>-1\<close> for \<open>npos\<close>.\<close>

definition int_of_pos :: "nat option \<Rightarrow> int" where
  "int_of_pos p = (case p of None \<Rightarrow> - 1 | Some i \<Rightarrow> int i)"

text \<open>\<open>s.substr(pos)\<close> throws when the position is past the end.\<close>

definition substr_from :: "string \<Rightarrow> nat \<Rightarrow> string result" where
  "substr_from s pos = (if pos \<le> length s then Inr (drop pos s) else Inl OutOfRange)"

text \<open>\<open>s.substr(0, n)\<close> with an \<open>int\<close> count: a negative count converts to a huge
  \<open>size_t\<close> and keeps the whole string.\<close>

definition substr_upto :: "string \<Rightarrow> int \<Rightarrow> string" where
  "substr_upto s n = (if n < 0 then s else take (nat n) s)"

text \<open>The two idioms of the sources: everything after the last \<open>c\<close> (the whole string when
  there is none), and everything before the first \<open>c\<close> (the whole string when there is none).\<close>

definition after_last :: "char \<Rightarrow> string \<Rightarrow> string result" where
  "after_last c s = substr_from s (nat (int_of_pos (rfind_char c s) + 1))"

definition before_first :: "char \<Rightarrow> string \<Rightarrow> string" where
  "before_first c s = substr_upto s (int_of_pos (find_char c s))"

section \<open>Integers and decimal text\<close>

definition digit_char :: "nat \<Rightarrow> char" where
  "digit_char d = char_of (48 + d)"

definition is_digit :: "char \<Rightarrow> bool" where
  "is_digit c \<longleftrightarrow> 48 \<le> (of_char c :: nat) \<and> (of_char c :: nat) \<le> 57"

definition digit_val :: "char \<Rightarrow> nat" where
  "digit_val c = of_char c - 48"

fun nat_to_string :: "nat \<Rightarrow> string" where
  "nat_to_string n =
     (if n < 10 then [digit_char n] else nat_to_string (n div 10) @ [digit_char (n mod 10)])"

declare nat_to_string.simps [simp del]

definition to_string :: "int \<Rightarrow> string" where
  "to_string i = (if i < 0 then CHR ''-'' # nat_to_string (nat (- i)) else nat_to_string (nat i))"

definition digits_val :: "string \<Rightarrow> nat" where
  "digits_val ds = foldl (\<lambda>acc c. acc * 10 + digit_val c) 0 ds"

definition is_space :: "char \<Rightarrow> bool" where
  "is_space c \<longleftrightarrow> c = CHR '' '' \<or> (9 \<le> (of_char c :: nat) \<and> (of_char c :: nat) \<le> 13)"

text \<open>Base-10 conversion: leading white space, an optional sign, the longest run of digits.
  \<open>None\<close> when there is no digit.\<close>

definition parse_long :: "string \<Rightarrow> int option" where
  "parse_long s =
     (let t = dropWhile is_space s;
          neg = (case t of [] \<Rightarrow> False | c # _ \<Rightarrow> c = CHR ''-'');
          u = (case t of [] \<Rightarrow> [] | c # cs \<Rightarrow> if c = CHR ''-'' \<or> c = CHR ''+'' then cs else t);
          ds = takeWhile is_digit u
      in if ds = [] then None
         else Some (if neg then - int (digits_val ds) else int (digits_val ds)))"

definition strtol :: "string \<Rightarrow> int" where
  "strtol s =
     (case parse_long s of None \<Rightarrow> 0
      | Some v \<Rightarrow> max (- (2 ^ 63)) (min (2 ^ 63 - 1) v))"

definition stol :: "string \<Rightarrow> int result" where
  "stol s =
     (case parse_long s of None \<Rightarrow> Inl InvalidArgument
      | Some v \<Rightarrow> if - (2 ^ 63) \<le> v \<and> v < 2 ^ 63 then Inr v else Inl OutOfRange)"

definition stoi :: "string \<Rightarrow> int result" where
  "stoi s = rbind (stol s) (\<lambda>v. if - (2 ^ 31) \<le> v \<and> v < 2 ^ 31 then Inr v else Inl OutOfRange)"

section \<open>Lemmas\<close>

lemma find_char_None: "find_char c s = None \<longleftrightarrow> c \<notin> set s"
  by (induction s) auto

lemma find_char_append: "c \<notin> set s \<Longrightarrow> find_char c (s @ c # t) = Some (length s)"
  by (induction s) auto

lemma rfind_char_None: "rfind_char c s = None \<longleftrightarrow> c \<notin> set s"
  by (induction s) (auto split: option.splits)

lemma rfind_char_append: "c \<notin> set t \<Longrightarrow> rfind_char c (s @ c # t) = Some (length s)"
proof (induction s)
  case Nil
  then have "rfind_char c t = None" by (simp add: rfind_char_None)
  then show ?case by simp
qed simp

lemma rfind_char_bound: "rfind_char c s = Some i \<Longrightarrow> i < length s"
  by (induction s arbitrary: i) (auto split: option.splits if_splits)

lemma after_last_append: "c \<notin> set t \<Longrightarrow> after_last c (s @ c # t) = Inr t"
  by (simp add: after_last_def rfind_char_append int_of_pos_def substr_from_def nat_add_distrib)

lemma after_last_total: "\<exists>t. after_last c s = Inr t"
  using rfind_char_bound [of c s]
  by (auto simp: after_last_def int_of_pos_def substr_from_def nat_add_distrib Suc_le_eq
      split: option.splits)

lemma after_last_none: "c \<notin> set s \<Longrightarrow> after_last c s = Inr s"
  by (simp add: after_last_def int_of_pos_def substr_from_def flip: rfind_char_None)

lemma before_first_append: "c \<notin> set s \<Longrightarrow> before_first c (s @ c # t) = s"
  by (simp add: before_first_def find_char_append int_of_pos_def substr_upto_def)

lemma before_first_none: "c \<notin> set s \<Longrightarrow> before_first c s = s"
  by (simp add: before_first_def int_of_pos_def substr_upto_def flip: find_char_None)

lemma starts_with_iff: "starts_with p s \<longleftrightarrow> take (length p) s = p"
  by (induction p s rule: starts_with.induct) auto

lemma find_str_prefix: "find_str p (p @ s) = Some 0"
proof (cases "p @ s")
  case Nil
  then show ?thesis by simp
next
  case (Cons x xs)
  moreover have "take (length p) (p @ s) = p" by simp
  ultimately show ?thesis by (simp add: starts_with_iff)
qed

lemma is_digit_digit_char: "d < 10 \<Longrightarrow> is_digit (digit_char d)"
  by (simp add: is_digit_def digit_char_def)

lemma digit_val_digit_char: "d < 10 \<Longrightarrow> digit_val (digit_char d) = d"
  by (simp add: digit_val_def digit_char_def)

lemma digits_val_snoc: "digits_val (ds @ [c]) = digits_val ds * 10 + digit_val c"
  by (simp add: digits_val_def)

lemma nat_to_string_digits: "\<forall>c \<in> set (nat_to_string n). is_digit c"
proof (induction n rule: nat_to_string.induct)
  case (1 n)
  then show ?case
    by (subst nat_to_string.simps) (auto simp: is_digit_digit_char)
qed

lemma nat_to_string_nonempty: "nat_to_string n \<noteq> []"
  by (subst nat_to_string.simps) simp

lemma digits_val_nat_to_string: "digits_val (nat_to_string n) = n"
proof (induction n rule: nat_to_string.induct)
  case (1 n)
  show ?case
  proof (cases "n < 10")
    case True
    then show ?thesis
      by (subst nat_to_string.simps) (simp add: digits_val_def digit_val_digit_char)
  next
    case False
    with "1.IH" have "digits_val (nat_to_string (n div 10)) = n div 10" by simp
    with False show ?thesis
      by (subst nat_to_string.simps) (simp add: digits_val_snoc digit_val_digit_char)
  qed
qed

lemma digit_not_special:
  "is_digit c \<Longrightarrow> \<not> is_space c \<and> c \<noteq> CHR ''-'' \<and> c \<noteq> CHR ''+'' \<and> c \<noteq> CHR ''_'' \<and> c \<noteq> CHR '':''"
  by (auto simp: is_digit_def is_space_def)

lemma takeWhile_nat_to_string [simp]: "takeWhile is_digit (nat_to_string n) = nat_to_string n"
  using nat_to_string_digits by (intro takeWhile_eq_all_conv [THEN iffD2])

lemma nat_to_string_head:
  obtains c cs where "nat_to_string n = c # cs" "is_digit c"
  using nat_to_string_nonempty [of n] nat_to_string_digits [of n]
  by (cases "nat_to_string n") auto

lemma parse_long_nat: "parse_long (nat_to_string n) = Some (int n)"
proof -
  obtain c cs where s: "nat_to_string n = c # cs" and d: "is_digit c"
    by (rule nat_to_string_head)
  have "takeWhile is_digit (c # cs) = c # cs" "digits_val (c # cs) = n"
    using takeWhile_nat_to_string [of n] digits_val_nat_to_string [of n] by (simp_all add: s)
  then show ?thesis
    using digit_not_special [OF d] by (simp add: parse_long_def s Let_def)
qed

lemma parse_long_to_string: "parse_long (to_string i) = Some i"
proof (cases "i < 0")
  case True
  moreover have "\<not> is_space (CHR ''-'')" by (simp add: is_space_def)
  ultimately show ?thesis
    by (simp add: to_string_def parse_long_def Let_def nat_to_string_nonempty
        digits_val_nat_to_string)
next
  case False
  then show ?thesis by (simp add: to_string_def parse_long_nat)
qed

lemma stol_to_string: "- (2 ^ 63) \<le> i \<Longrightarrow> i < 2 ^ 63 \<Longrightarrow> stol (to_string i) = Inr i"
  by (simp add: stol_def parse_long_to_string)

lemma stoi_to_string: "- (2 ^ 31) \<le> i \<Longrightarrow> i < 2 ^ 31 \<Longrightarrow> stoi (to_string i) = Inr i"
  by (simp add: stoi_def stol_to_string)

lemma strtol_to_string: "- (2 ^ 63) \<le> i \<Longrightarrow> i < 2 ^ 63 \<Longrightarrow> strtol (to_string i) = i"
  by (simp add: strtol_def parse_long_to_string)

lemma strtol_empty: "strtol [] = 0"
  by (simp add: strtol_def parse_long_def)

lemma strtol_range: "- (2 ^ 63) \<le> strtol s" "strtol s < 2 ^ 63"
  by (auto simp: strtol_def split: option.splits)

interpretation decimal: codec to_string strtol "\<lambda>i. - (2 ^ 63) \<le> i \<and> i < 2 ^ 63"
  by unfold_locales (simp add: strtol_to_string)

lemma nat_to_string_no_special:
  "CHR ''_'' \<notin> set (nat_to_string n)" "CHR '':'' \<notin> set (nat_to_string n)"
  using nat_to_string_digits [of n] digit_not_special by blast+

lemma to_string_no_special [simp]:
  "CHR ''_'' \<notin> set (to_string i)" "CHR '':'' \<notin> set (to_string i)"
  by (simp_all add: to_string_def nat_to_string_no_special)

lemma to_string_inj: "to_string i = to_string j \<longleftrightarrow> i = j"
  by (metis parse_long_to_string option.inject)

end
