(* ===== verification/Helpers.thy ===== *)
theory Helpers
  imports CppString
begin

text \<open>
  The data of \<^verbatim>\<open>w7/src/master/helpers.h\<close>: the status enumerations, the results the
  completion threads queue, the pieces and shards of the input, and the shard counter. Record
  fields carry a prefix so that no two records share a selector; a constructor function per
  class keeps the argument order of the C++ constructor.
\<close>

datatype ClientStatus =
    IDLE | MAP_RUNNING | REDUCE_RUNNING | MAP_DONE | REDUCE_DONE | BROKEN | DEADLINE_EXCEED

datatype PingStatus = PING_CHECK | PING_SUCCESS | PING_FAIL

datatype ReturnStatus = FAILED | SUCCESS | TIMEDOUT

record MapperResult =
  mr_status :: ReturnStatus
  mr_shardId :: int
  mr_cname :: string
  mr_blobList :: "string list"
  mr_isrequeued :: bool

definition new_MapperResult ::
    "ReturnStatus \<Rightarrow> int \<Rightarrow> string \<Rightarrow> bool \<Rightarrow> string list \<Rightarrow> MapperResult" where
  "new_MapperResult s sid c x v =
     \<lparr>mr_status = s, mr_shardId = sid, mr_cname = c,
      mr_blobList = (if length v > 0 then v else []), mr_isrequeued = x\<rparr>"

record ReduceResult =
  rr_status :: ReturnStatus
  rr_cname :: string
  rr_blobname :: string
  rr_jobid :: int
  rr_isrequeued :: bool

text \<open>The constructor takes the blob before the container.\<close>

definition new_ReduceResult ::
    "ReturnStatus \<Rightarrow> string \<Rightarrow> string \<Rightarrow> int \<Rightarrow> bool \<Rightarrow> ReduceResult" where
  "new_ReduceResult s b c j x =
     \<lparr>rr_status = s, rr_cname = c, rr_blobname = b, rr_jobid = j, rr_isrequeued = x\<rparr>"

record shard_info =
  si_blob_name :: string
  si_begin_offset :: size_t
  si_end_offset :: size_t
  si_is_partial :: bool

definition new_shard_info :: "string \<Rightarrow> size_t \<Rightarrow> size_t \<Rightarrow> bool \<Rightarrow> shard_info" where
  "new_shard_info s b e x =
     \<lparr>si_blob_name = s, si_begin_offset = b, si_end_offset = e, si_is_partial = x\<rparr>"

record ClientInfo =
  ci_address :: string
  ci_nodeid :: string

definition new_ClientInfo :: "string \<Rightarrow> string \<Rightarrow> ClientInfo" where
  "new_ClientInfo addr nid = \<lparr>ci_address = addr, ci_nodeid = nid\<rparr>"

record ShardData =
  sd_blobName :: string
  sd_begin :: size_t
  sd_end :: size_t

definition new_ShardData :: "string \<Rightarrow> size_t \<Rightarrow> size_t \<Rightarrow> ShardData" where
  "new_ShardData s b e = \<lparr>sd_blobName = s, sd_begin = b, sd_end = e\<rparr>"

record FileShard =
  fs_shardId :: int
  fs_sets :: "ShardData list"

definition new_FileShard :: "int \<Rightarrow> ShardData list \<Rightarrow> FileShard" where
  "new_FileShard i ss = \<lparr>fs_shardId = i, fs_sets = ss\<rparr>"

text \<open>\<^verbatim>\<open>getShardId(reset)\<close>: the value of its static counter before the call is the
  second argument; the result is the returned id and the counter afterwards.\<close>

definition getShardId :: "bool \<Rightarrow> int \<Rightarrow> int \<times> int" where
  "getShardId reset sid = (if reset then (- 1, - 1) else (sid + 1, sid + 1))"

lemmas constructor_defs [cpp_defs] =
  new_MapperResult_def new_ReduceResult_def new_shard_info_def new_ClientInfo_def
  new_ShardData_def new_FileShard_def getShardId_def

lemma new_MapperResult_simps [simp]:
  "mr_status (new_MapperResult s sid c x v) = s"
  "mr_shardId (new_MapperResult s sid c x v) = sid"
  "mr_cname (new_MapperResult s sid c x v) = c"
  "mr_blobList (new_MapperResult s sid c x v) = v"
  by (simp_all add: new_MapperResult_def)

text \<open>Client objects live on the heap; a pointer is an address, ordered by its number, the
  order in which \<^verbatim>\<open>std::map<MapReduceClient *, ClientInfo>\<close> keeps its entries.\<close>

datatype client_ptr = ClientPtr (ptr_addr: nat)

instantiation client_ptr :: linorder
begin

definition less_eq_client_ptr :: "client_ptr \<Rightarrow> client_ptr \<Rightarrow> bool" where
  "less_eq_client_ptr p q \<longleftrightarrow> ptr_addr p \<le> ptr_addr q"

definition less_client_ptr :: "client_ptr \<Rightarrow> client_ptr \<Rightarrow> bool" where
  "less_client_ptr p q \<longleftrightarrow> ptr_addr p < ptr_addr q"

instance
  by standard (auto simp: less_eq_client_ptr_def less_client_ptr_def intro: client_ptr.expand)

end

end
