(* ===== verification/Client.thy ===== *)
theory Client
  imports Helpers
begin

text \<open>
  \<^verbatim>\<open>MapReduceClient\<close> of \<^verbatim>\<open>w7/src/master/mrclient.h\<close>, the master's handle on one
  worker: its counters and states, the requests it sends, and the completion loops of
  \<^verbatim>\<open>masterimpl.cc\<close> that handle the answers to pings and address exchanges. Client
  objects live in a heap indexed by pointer. The messages are those of
  \<^verbatim>\<open>protos/mr.proto\<close>; offsets are 32-bit fields on the wire.
\<close>

section \<open>Messages\<close>

record ShardTuple =
  st_blobname :: string
  st_startoffset :: int32
  st_endoffset :: int32

record MapperInput =
  mi_npartition :: int
  mi_shard_id :: int
  mi_stuples :: "ShardTuple list"
  mi_req_id :: string

record IntermediateResult =
  ir_containername :: string
  ir_blobs :: "string list"

record ReducerInput =
  ri_req_id :: string
  ri_containername :: string
  ri_reducer_id :: int
  ri_blobs :: "string list"

record FinalResult =
  fr_blobname :: string
  fr_containername :: string

text \<open>The status of a finished call is a gRPC code: 0 is OK, 4 is DEADLINE_EXCEEDED.\<close>

abbreviation status_ok :: "int \<Rightarrow> bool" where "status_ok code \<equiv> code = 0"
abbreviation deadline_exceeded :: "int \<Rightarrow> bool" where "deadline_exceeded code \<equiv> code = 4"

section \<open>The client object\<close>

record MapReduceClient =
  client_stub :: string
  client_address :: string
  clientStatus :: ClientStatus
  pingStatus :: PingStatus
  nMapRequests :: int
  nReduceRequests :: int

text \<open>The constructor leaves \<open>pingStatus_\<close> uninitialised: \<open>garbage\<close> is what the memory held.\<close>

definition new_MapReduceClient :: "string \<Rightarrow> PingStatus \<Rightarrow> MapReduceClient" where
  "new_MapReduceClient channel garbage =
     \<lparr>client_stub = channel, client_address = [], clientStatus = IDLE, pingStatus = garbage,
      nMapRequests = 0, nReduceRequests = 0\<rparr>"

type_synonym client_heap = "client_ptr \<Rightarrow> MapReduceClient"

definition setStatus :: "client_ptr \<Rightarrow> ClientStatus \<Rightarrow> client_heap \<Rightarrow> client_heap" where
  "setStatus p status h = h(p := (h p)\<lparr>clientStatus := status\<rparr>)"

definition setPingStatus :: "client_ptr \<Rightarrow> PingStatus \<Rightarrow> client_heap \<Rightarrow> client_heap" where
  "setPingStatus p status h = h(p := (h p)\<lparr>pingStatus := status\<rparr>)"

definition set_address :: "client_ptr \<Rightarrow> string \<Rightarrow> client_heap \<Rightarrow> client_heap" where
  "set_address p addr h = h(p := (h p)\<lparr>client_address := addr\<rparr>)"

record AsyncClientMapCall =
  mc_query :: MapperInput
  mc_shardId :: int
  mc_address :: string
  mc_client :: client_ptr

record AsyncClientReduceCall =
  rc_query :: ReducerInput
  rc_jobid :: int
  rc_address :: string
  rc_client :: client_ptr

text \<open>Filling a \<open>ShardTuple\<close> from a piece narrows the offsets to 32 bits, reading it back
  widens them again.\<close>

definition tuple_of_data :: "ShardData \<Rightarrow> ShardTuple" where
  "tuple_of_data d = \<lparr>st_blobname = sd_blobName d, st_startoffset = int32_of_size (sd_begin d),
     st_endoffset = int32_of_size (sd_end d)\<rparr>"

definition data_of_tuple :: "ShardTuple \<Rightarrow> ShardData" where
  "data_of_tuple t = new_ShardData (st_blobname t) (size_of_int32 (st_startoffset t))
     (size_of_int32 (st_endoffset t))"

text \<open>The asynchronous calls: the counter of the client goes up and a call object waits in the
  completion queue, the second component of the result.\<close>

definition invokeMapTaskAsync ::
    "client_ptr \<Rightarrow> FileShard \<Rightarrow> int \<Rightarrow> int \<Rightarrow> client_heap \<times> AsyncClientMapCall list \<Rightarrow>
     client_heap \<times> AsyncClientMapCall list" where
  "invokeMapTaskAsync p fileShard nPartitions req_id hc =
     (let h = fst hc; cq = snd hc;
          query = \<lparr>mi_npartition = nPartitions, mi_shard_id = fs_shardId fileShard,
                   mi_stuples = map tuple_of_data (fs_sets fileShard),
                   mi_req_id = to_string req_id\<rparr>;
          call = \<lparr>mc_query = query, mc_shardId = fs_shardId fileShard,
                  mc_address = client_address (h p), mc_client = p\<rparr>
      in (h(p := (h p)\<lparr>nMapRequests := nMapRequests (h p) + 1\<rparr>), cq @ [call]))"

definition invokeReduceTaskAsync ::
    "client_ptr \<Rightarrow> string list \<Rightarrow> string \<Rightarrow> int \<Rightarrow> int \<Rightarrow>
     client_heap \<times> AsyncClientReduceCall list \<Rightarrow> client_heap \<times> AsyncClientReduceCall list" where
  "invokeReduceTaskAsync p blobs containername req_id reducer_id hc =
     (let h = fst hc; cq = snd hc;
          query = \<lparr>ri_req_id = to_string req_id, ri_containername = containername,
                   ri_reducer_id = reducer_id, ri_blobs = blobs\<rparr>;
          call = \<lparr>rc_query = query, rc_jobid = reducer_id, rc_address = client_address (h p), rc_client = p\<rparr>
      in (h(p := (h p)\<lparr>nReduceRequests := nReduceRequests (h p) + 1\<rparr>), cq @ [call]))"

section \<open>Completion of pings and exchanges\<close>

text \<open>What \<^verbatim>\<open>cq.Next\<close> can deliver: a finished call, or \<open>false\<close>. A ping carries its
  client and status; an exchange also the worker's answer.\<close>

datatype 'c next_event = NextFalse | NextCall 'c

definition fail_client :: "client_ptr \<Rightarrow> int \<Rightarrow> client_heap \<Rightarrow> client_heap" where
  "fail_client p code h =
     (if deadline_exceeded code then setStatus p DEADLINE_EXCEED h else setStatus p BROKEN h)"

definition complete_ping :: "client_ptr \<times> int \<Rightarrow> client_heap \<Rightarrow> client_heap" where
  "complete_ping call h =
     (let p = fst call; code = snd call in
      if status_ok code then setPingStatus p PING_SUCCESS h
      else fail_client p code (setPingStatus p PING_FAIL h))"

definition complete_exchange :: "client_ptr \<times> int \<times> string \<Rightarrow> client_heap \<Rightarrow> client_heap" where
  "complete_exchange call h =
     (case call of (p, code, message) \<Rightarrow>
        if status_ok code then setPingStatus p PING_SUCCESS (set_address p message h)
        else fail_client p code (setPingStatus p PING_FAIL h))"

text \<open>\<^verbatim>\<open>while (nrcvd < nrpcs)\<close> over the events the queue delivers. \<open>None\<close>: the loop
  still waits for an event.\<close>

fun completion_loop ::
    "('c \<Rightarrow> client_heap \<Rightarrow> client_heap) \<Rightarrow> nat \<Rightarrow> 'c next_event list \<Rightarrow> client_heap \<Rightarrow> client_heap option" where
  "completion_loop complete 0 evs h = Some h"
| "completion_loop complete (Suc n) [] h = None"
| "completion_loop complete (Suc n) (NextFalse # evs) h = Some h"
| "completion_loop complete (Suc n) (NextCall c # evs) h = completion_loop complete n evs (complete c h)"

definition AsyncCompletePingRpc ::
    "(client_ptr \<times> int) next_event list \<Rightarrow> nat \<Rightarrow> client_heap \<Rightarrow> client_heap option" where
  "AsyncCompletePingRpc cq nrpcs h = completion_loop complete_ping nrpcs cq h"

definition AsyncCompleteExchangeRpc ::
    "(client_ptr \<times> int \<times> string) next_event list \<Rightarrow> nat \<Rightarrow> client_heap \<Rightarrow> client_heap option" where
  "AsyncCompleteExchangeRpc cq nrpcs h = completion_loop complete_exchange nrpcs cq h"

lemmas client_defs [cpp_defs] =
  setStatus_def setPingStatus_def set_address_def fail_client_def
  invokeMapTaskAsync_def invokeReduceTaskAsync_def Let_def

section \<open>What a completion loop does to the heap\<close>

text \<open>A handler works on the client of its call only, and what it does there depends on that
  client only. Then the order in which the answers arrive does not matter.\<close>

locale completion_handler =
  fixes complete :: "'c \<Rightarrow> client_heap \<Rightarrow> client_heap" and client :: "'c \<Rightarrow> client_ptr"
  assumes frame: "q \<noteq> client c \<Longrightarrow> complete c h q = h q"
    and local: "h (client c) = h' (client c) \<Longrightarrow> complete c h (client c) = complete c h' (client c)"
begin

lemma loop_untouched:
  "completion_loop complete n (map NextCall cs) h = Some h' \<Longrightarrow> q \<notin> client ` set cs \<Longrightarrow> h' q = h q"
proof (induction n arbitrary: cs h)
  case (Suc n)
  then show ?case by (cases cs) (auto simp: frame)
qed simp

lemma loop_returns:
  "n \<le> length cs \<Longrightarrow> \<exists>h'. completion_loop complete n (map NextCall cs) h = Some h'"
proof (induction n arbitrary: cs h)
  case (Suc n)
  then show ?case by (cases cs) auto
qed simp

lemma loop_each:
  "completion_loop complete (length cs) (map NextCall cs) h = Some h' \<Longrightarrow>
     distinct (map client cs) \<Longrightarrow> c \<in> set cs \<Longrightarrow> h' (client c) = complete c h (client c)"
proof (induction cs arbitrary: h)
  case (Cons c' cs)
  show ?case
  proof (cases "c = c'")
    case True
    with Cons.prems have "client c \<notin> client ` set cs" by auto
    with True Cons.prems(1) show ?thesis
      using loop_untouched [of "length cs" cs "complete c' h" h' "client c"] by simp
  next
    case False
    with Cons.prems have "client c' \<noteq> client c" by auto
    with Cons False show ?thesis using local [of "complete c' h" c h] frame [of "client c" c' h] by simp
  qed
qed simp

lemma loop_order_irrelevant:
  assumes "completion_loop complete (length cs) (map NextCall cs) h = Some h1"
    and "completion_loop complete (length cs) (map NextCall ds) h = Some h2"
    and "set cs = set ds" "length cs = length ds" "distinct (map client cs)"
  shows "h1 = h2"
proof
  fix q
  have "card (client ` set ds) = length ds"
    using assms(3-5) distinct_card [of "map client cs"] by simp
  then have ds: "distinct (map client ds)" by (simp add: card_distinct)
  show "h1 q = h2 q"
  proof (cases "q \<in> client ` set cs")
    case True
    then obtain c where "c \<in> set cs" "q = client c" by auto
    with loop_each [OF assms(1,5)] loop_each [OF assms(2) [unfolded assms(4)] ds] assms(3)
    show ?thesis by simp
  next
    case False
    then show ?thesis using loop_untouched [OF assms(1)] loop_untouched [OF assms(2)] assms(3) by simp
  qed
qed

end

interpretation ping: completion_handler complete_ping fst
  by unfold_locales (auto simp: complete_ping_def cpp_defs)

interpretation exchange: completion_handler complete_exchange fst
  by unfold_locales (auto simp: complete_exchange_def cpp_defs split: prod.splits)

section \<open>The wire format of a piece\<close>

text \<open>Offsets below \<open>2 ^ 31\<close> survive the 32-bit fields.\<close>

definition wire_safe :: "ShardData \<Rightarrow> bool" where
  "wire_safe d \<longleftrightarrow> unat (sd_begin d) < 2 ^ 31 \<and> unat (sd_end d) < 2 ^ 31"

lemma size_int32_id:
  assumes "unat (x :: size_t) < 2 ^ 31"
  shows "size_of_int32 (int32_of_size x) = x"
proof -
  have "int (unat x) < int (2 ^ 31)" using assms by (simp only: of_nat_less_iff)
  then have u: "uint x < 2 ^ 31" by simp
  have "0 \<le> uint x" by simp
  then have l: "- (2 ^ 31) \<le> uint x" by (rule order_trans [rotated]) simp
  have "sint (int32_of_size x) = signed_take_bit 31 (uint x)"
    by (simp add: int32_of_size_def signed_ucast_eq)
  also have "\<dots> = uint x" using u l by (intro signed_take_bit_int_eq_self) simp_all
  finally have "sint (int32_of_size x) = uint x" .
  then have "word_of_int (sint (int32_of_size x)) = x" by simp
  then show ?thesis by (simp add: size_of_int32_def)
qed

interpretation wire: codec tuple_of_data data_of_tuple wire_safe
  by unfold_locales (simp add: tuple_of_data_def data_of_tuple_def wire_safe_def size_int32_id
      new_ShardData_def)

end
