(* ===== verification/MasterState.thy ===== *)
theory MasterState
  imports Client
begin

text \<open>
  The state of \<^verbatim>\<open>Master\<close> (\<^verbatim>\<open>w7/src/master/master.h\<close>) and its operations on
  workers: registration and removal of clients, pings, the address exchange, the choice of the
  client for the next task, and the simulated failure. ZooKeeper is reached through the
  Conservator framework, whose operations are parameters.
\<close>

section \<open>State\<close>

text \<open>The operations of the Conservator framework on the state of the ZooKeeper service. The two
  flags of \<open>cf_create\<close> are \<^verbatim>\<open>ZOO_SEQUENCE\<close> and \<^verbatim>\<open>ZOO_EPHEMERAL\<close>; it
  returns the path of the node.\<close>

record 'z Conservator =
  cf_create :: "bool \<Rightarrow> bool \<Rightarrow> string \<Rightarrow> string \<Rightarrow> 'z \<Rightarrow> string \<times> 'z"
  cf_getChildren :: "string \<Rightarrow> 'z \<Rightarrow> string list result"
  cf_getData :: "string \<Rightarrow> 'z \<Rightarrow> string"
  cf_setData :: "string \<Rightarrow> string \<Rightarrow> 'z \<Rightarrow> 'z"
  cf_checkExists :: "string \<Rightarrow> 'z \<Rightarrow> int"

text \<open>The members of the class, then the globals of \<^verbatim>\<open>masterimpl.cc\<close> and the heap of
  clients. \<open>m_server\<close> is \<open>None\<close> for a null pointer and otherwise says whether it runs;
  \<open>repl_clt_thd\<close> says whether the thread is
  joinable; \<open>m_framework_open\<close> and \<open>leader_config\<close> stand for the ZooKeeper session and the file
  \<^verbatim>\<open>leader_config.txt\<close>.\<close>

record Master =
  m_address :: string
  m_framework_open :: bool
  m_nodepath :: string
  m_has_failed :: bool
  m_will_fail :: bool
  m_until_fail :: int
  m_connection :: string
  m_dbConnection :: "string option"
  m_Clients :: "client_ptr list"
  m_ClientMap :: "(client_ptr, ClientInfo) std_map"
  m_stop_repl_as_leader :: bool
  m_stop_repl_as_follower :: bool
  m_map_done :: bool
  m_hbcheck :: bool
  m_bReplicated :: bool
  m_server :: "bool option"
  m_rid :: int
  m_nmappers :: int
  m_nreducers :: int
  m_containername :: string
  m_shardsz :: size_t
  m_shards :: "FileShard list"
  m_ShardClientMapper :: "(int, client_ptr) std_map"
  m_IntermediateResultMap :: "(int, MapperResult) std_map"
  m_IntblobList :: "string list"
  m_intcontainer :: string
  m_OutputResultMap :: "(int, string) std_map"
  repl_clt_thd :: bool
  g_ready :: bool
  g_repl_data :: bool
  g_repl_list :: "MapperResult list"
  leader_config :: bool
  heap :: client_heap
  heap_next :: nat

definition new_Master :: "int \<Rightarrow> client_heap \<Rightarrow> Master" where
  "new_Master fail_after h =
     \<lparr>m_address = [], m_framework_open = False, m_nodepath = [], m_has_failed = False,
      m_will_fail = (\<not> fail_after \<le> 0), m_until_fail = (if fail_after \<le> 0 then 0 else fail_after),
      m_connection = [], m_dbConnection = None, m_Clients = [], m_ClientMap = [],
      m_stop_repl_as_leader = True, m_stop_repl_as_follower = True, m_map_done = True,
      m_hbcheck = False, m_bReplicated = False, m_server = None, m_rid = 0, m_nmappers = 0,
      m_nreducers = 0, m_containername = [], m_shardsz = 0, m_shards = [],
      m_ShardClientMapper = [], m_IntermediateResultMap = [], m_IntblobList = [],
      m_intcontainer = [], m_OutputResultMap = [], repl_clt_thd = False, g_ready = True, g_repl_data = True,
      g_repl_list = [], leader_config = False, heap = h, heap_next = 0\<rparr>"

section \<open>Setters\<close>

text \<open>The results of \<^verbatim>\<open>strtol\<close> are narrowed to \<open>int\<close>.\<close>

definition set_num_mappers :: "string \<Rightarrow> Master \<Rightarrow> Master" where
  "set_num_mappers smappers m = m\<lparr>m_nmappers := to_int32 (strtol smappers)\<rparr>"

definition set_num_reducers :: "string \<Rightarrow> Master \<Rightarrow> Master" where
  "set_num_reducers sreducers m = m\<lparr>m_nreducers := to_int32 (strtol sreducers)\<rparr>"

definition create_connection :: "string \<Rightarrow> Master \<Rightarrow> Master" where
  "create_connection conn_string m = m\<lparr>m_connection := conn_string, m_dbConnection := Some conn_string\<rparr>"

definition stop_ping :: "Master \<Rightarrow> Master" where
  "stop_ping m = m\<lparr>m_hbcheck := False\<rparr>"

section \<open>The registered workers\<close>

definition worker_client_already_added :: "string \<Rightarrow> Master \<Rightarrow> bool result" where
  "worker_client_already_added wrkPath m =
     foldr (\<lambda>client rest.
         rbind (map_at (m_ClientMap m) client) (\<lambda>info.
           if ci_nodeid info = wrkPath then Inr True else rest))
       (m_Clients m) (Inr False)"

definition add_client :: "client_ptr \<Rightarrow> string \<Rightarrow> string \<Rightarrow> Master \<Rightarrow> Master" where
  "add_client client addr wrkrPath m =
     m\<lparr>m_ClientMap := map_emplace client (new_ClientInfo addr wrkrPath) (m_ClientMap m),
       m_Clients := m_Clients m @ [client]\<rparr>"

text \<open>\<^verbatim>\<open>new MapReduceClient\<close>: the object is put at the next free address.\<close>

definition alloc_client :: "(client_ptr \<Rightarrow> PingStatus) \<Rightarrow> string \<Rightarrow> Master \<Rightarrow> client_ptr \<times> Master" where
  "alloc_client garbage target m =
     (let p = ClientPtr (heap_next m) in
      (p, m\<lparr>heap := (heap m)(p := new_MapReduceClient target (garbage p)),
            heap_next := Suc (heap_next m)\<rparr>))"

text \<open>The path of a worker's node.\<close>

definition node_path :: "string \<Rightarrow> string" where
  "node_path w = ''/workers/'' @ w"

fun add_missing ::
    "(string \<Rightarrow> string) \<Rightarrow> (client_ptr \<Rightarrow> PingStatus) \<Rightarrow> string list \<Rightarrow> Master \<Rightarrow> Master result" where
  "add_missing getData garbage [] m = Inr m"
| "add_missing getData garbage (w # wrkrs) m =
     (let wrkPath = node_path w in
      rbind (worker_client_already_added wrkPath m) (\<lambda>added.
        if added then add_missing getData garbage wrkrs m
        else (let target_str = getData wrkPath;
                  (client, m') = alloc_client garbage target_str m
              in add_missing getData garbage wrkrs (add_client client target_str wrkPath m'))))"

text \<open>The removal loop: \<open>i\<close> stays where it is after an erasure.\<close>

function remove_missing :: "string list \<Rightarrow> nat \<Rightarrow> Master \<Rightarrow> Master result" where
  "remove_missing wrkrs i m =
     (if i < length (m_Clients m) then
        (let client = m_Clients m ! i in
         rbind (map_at (m_ClientMap m) client) (\<lambda>info.
         rbind (after_last (CHR ''/'') (ci_nodeid info)) (\<lambda>stored_node_suffix.
           if stored_node_suffix \<in> set wrkrs then remove_missing wrkrs (Suc i) m
           else remove_missing wrkrs i
             (m\<lparr>m_ClientMap := map_erase client (m_ClientMap m),
                m_Clients := take i (m_Clients m) @ drop (Suc i) (m_Clients m)\<rparr>))))
      else Inr m)"
  by pat_completeness auto
termination
  by (relation "measure (\<lambda>(wrkrs, i, m). length (m_Clients m) - i)") auto

declare remove_missing.simps [simp del]

text \<open>The node \<^verbatim>\<open>/workers\<close> is created if needed; when the children cannot be read
  no worker is assumed. An exception of the loops leaves the function.\<close>

definition update_workers ::
    "'z Conservator \<Rightarrow> (client_ptr \<Rightarrow> PingStatus) \<Rightarrow> 'z \<Rightarrow> Master \<Rightarrow> 'z \<times> Master result" where
  "update_workers fw garbage z m =
     (if m_has_failed m then (z, Inr m)
      else
        (let z' = snd (cf_create fw False False ''/workers'' [] z);
             wrkrs = (case cf_getChildren fw ''/workers'' z' of Inl e \<Rightarrow> [] | Inr ws \<Rightarrow> ws)
         in (z', rbind (add_missing (\<lambda>p. cf_getData fw p z') garbage wrkrs m)
                   (remove_missing wrkrs 0))))"

definition set_requestid ::
    "'z Conservator \<Rightarrow> (client_ptr \<Rightarrow> PingStatus) \<Rightarrow> int \<Rightarrow> 'z \<Rightarrow> Master \<Rightarrow> 'z \<times> Master result" where
  "set_requestid fw garbage rid z m =
     (let (z', r) = update_workers fw garbage z m
      in (z', rbind r (\<lambda>m'. Inr (m'\<lparr>m_rid := rid\<rparr>))))"

section \<open>Pings and the address exchange\<close>

text \<open>\<^verbatim>\<open>ping_workers\<close> and \<^verbatim>\<open>get_worker_addresses\<close> send one call per client and
  wait for the answers, \<open>cq\<close>. \<open>None\<close>: the loop still waits.\<close>

definition ping_workers :: "(client_ptr \<times> int) next_event list \<Rightarrow> Master \<Rightarrow> Master option" where
  "ping_workers cq m =
     (let h = fold (\<lambda>p. setPingStatus p PING_CHECK) (m_Clients m) (heap m) in
      case AsyncCompletePingRpc cq (length (m_Clients m)) h of
        None \<Rightarrow> None
      | Some h' \<Rightarrow> Some (m\<lparr>heap := h', g_ready := True\<rparr>))"

definition get_worker_addresses ::
    "(client_ptr \<times> int \<times> string) next_event list \<Rightarrow> Master \<Rightarrow> Master option" where
  "get_worker_addresses cq m =
     (case AsyncCompleteExchangeRpc cq (length (m_ClientMap m)) (heap m) of
        None \<Rightarrow> None
      | Some h' \<Rightarrow> Some (m\<lparr>heap := h'\<rparr>))"

section \<open>Choosing a client\<close>

text \<open>One pass of the loops over \<open>m_Clients\<close>. The waiting loop around it is in \<open>find_loop\<close>.\<close>

definition healthy :: "client_heap \<Rightarrow> client_ptr \<Rightarrow> bool" where
  "healthy h p \<longleftrightarrow> pingStatus (h p) = PING_SUCCESS"

definition num_requests :: "bool \<Rightarrow> client_heap \<Rightarrow> client_ptr \<Rightarrow> int" where
  "num_requests bReduce h p = (if \<not> bReduce then nMapRequests (h p) else nReduceRequests (h p))"

fun find_healthy_pass :: "client_heap \<Rightarrow> client_ptr list \<Rightarrow> client_ptr option" where
  "find_healthy_pass h [] = None"
| "find_healthy_pass h (p # ps) = (if healthy h p then Some p else find_healthy_pass h ps)"

fun min_req_pass ::
    "bool \<Rightarrow> client_heap \<Rightarrow> client_ptr list \<Rightarrow> client_ptr option \<Rightarrow> client_ptr option" where
  "min_req_pass bReduce h [] min_req = min_req"
| "min_req_pass bReduce h (p # ps) min_req =
     (if healthy h p then
        (case min_req of
           None \<Rightarrow> min_req_pass bReduce h ps (Some p)
         | Some q \<Rightarrow>
             if num_requests bReduce h p < num_requests bReduce h q
             then min_req_pass bReduce h ps (Some p)
             else min_req_pass bReduce h ps (Some q))
      else min_req_pass bReduce h ps min_req)"

text \<open>The waiting loop: pass \<open>n\<close> sees the heap \<open>hs n\<close> that the ping thread left; after a pass
  without a healthy client the loop waits for the next ping round.\<close>

partial_function (option) find_loop ::
    "(client_heap \<Rightarrow> client_ptr option) \<Rightarrow> (nat \<Rightarrow> client_heap) \<Rightarrow> nat \<Rightarrow> client_ptr option" where
  "find_loop pass hs n =
     (case pass (hs n) of Some p \<Rightarrow> Some p | None \<Rightarrow> find_loop pass hs (Suc n))"

definition findHealthyClient :: "client_ptr list \<Rightarrow> (nat \<Rightarrow> client_heap) \<Rightarrow> client_ptr option" where
  "findHealthyClient clients hs = find_loop (\<lambda>h. find_healthy_pass h clients) hs 0"

definition findMinReqHealthyClient ::
    "bool \<Rightarrow> client_ptr list \<Rightarrow> (nat \<Rightarrow> client_heap) \<Rightarrow> client_ptr option" where
  "findMinReqHealthyClient bReduce clients hs =
     find_loop (\<lambda>h. min_req_pass bReduce h clients None) hs 0"

section \<open>Simulated failure\<close>

text \<open>\<^verbatim>\<open>enter_fail_state\<close> ends in an endless sleep: the caller does not continue, which
  the clients of \<open>task_assigned_check_fail\<close> see from \<open>m_has_failed\<close>.\<close>

definition enter_fail_state :: "Master \<Rightarrow> Master" where
  "enter_fail_state m =
     (stop_ping (m\<lparr>m_has_failed := True\<rparr>))
       \<lparr>m_stop_repl_as_leader := True, m_stop_repl_as_follower := True, m_map_done := True,
        m_server := map_option (\<lambda>_. False) (m_server m), m_framework_open := False,
        leader_config := False\<rparr>"

definition task_assigned_check_fail :: "Master \<Rightarrow> Master" where
  "task_assigned_check_fail m =
     (if m_will_fail m then
        (let m' = m\<lparr>m_until_fail := m_until_fail m - 1\<rparr>
         in if m_until_fail m' \<le> 0 then enter_fail_state m' else m')
      else m)"

lemmas master_defs [cpp_defs] =
  stop_ping_def enter_fail_state_def task_assigned_check_fail_def add_client_def alloc_client_def

interpretation master_fail: fail_counter task_assigned_check_fail m_will_fail m_until_fail m_has_failed
  by unfold_locales (auto simp: cpp_defs)

section \<open>The registry of workers stays consistent\<close>

definition nodeid_of :: "Master \<Rightarrow> client_ptr \<Rightarrow> string" where
  "nodeid_of m p = (case map_find (m_ClientMap m) p of None \<Rightarrow> [] | Some i \<Rightarrow> ci_nodeid i)"

definition clients_wf :: "Master \<Rightarrow> bool" where
  "clients_wf m \<longleftrightarrow>
     distinct (m_Clients m) \<and> map_wf (m_ClientMap m) \<and>
     fst ` set (m_ClientMap m) = set (m_Clients m) \<and>
     (\<forall>p \<in> set (m_Clients m). ptr_addr p < heap_next m) \<and>
     distinct (map (nodeid_of m) (m_Clients m)) \<and>
     (\<forall>p \<in> set (m_Clients m). \<exists>w. CHR ''/'' \<notin> set w \<and> nodeid_of m p = node_path w)"

lemma clients_wf_find:
  assumes "clients_wf m" "p \<in> set (m_Clients m)"
  obtains info where "map_find (m_ClientMap m) p = Some info" "ci_nodeid info = nodeid_of m p"
proof -
  from assms have "p \<in> fst ` set (m_ClientMap m)" by (simp add: clients_wf_def)
  then obtain info where "map_find (m_ClientMap m) p = Some info"
    by (metis map_of_eq_None_iff not_None_eq)
  then show ?thesis using that by (simp add: nodeid_of_def)
qed

lemma clients_wf_at:
  "clients_wf m \<Longrightarrow> p \<in> set (m_Clients m) \<Longrightarrow>
     \<exists>info. map_at (m_ClientMap m) p = Inr info \<and> ci_nodeid info = nodeid_of m p"
  by (erule (1) clients_wf_find) (simp add: map_at_def)

lemma already_added_iff:
  assumes "clients_wf m"
  shows "worker_client_already_added path m = Inr (path \<in> nodeid_of m ` set (m_Clients m))"
proof -
  have "foldr (\<lambda>client rest. rbind (map_at (m_ClientMap m) client) (\<lambda>info.
        if ci_nodeid info = path then Inr True else rest)) ps (Inr False) =
      Inr (path \<in> nodeid_of m ` set ps)" if "set ps \<subseteq> set (m_Clients m)" for ps
    using that
  proof (induction ps)
    case (Cons p ps)
    then obtain info where "map_at (m_ClientMap m) p = Inr info" "ci_nodeid info = nodeid_of m p"
      using clients_wf_at [OF assms, of p] by auto
    with Cons show ?case by auto
  qed simp
  then show ?thesis by (simp add: worker_client_already_added_def)
qed

text \<open>A fresh client at the end of the list.\<close>

lemma register_client:
  assumes wf: "clients_wf m" and slash: "CHR ''/'' \<notin> set w"
    and new: "node_path w \<notin> nodeid_of m ` set (m_Clients m)"
    and p_def: "p = ClientPtr (heap_next m)"
    and m'_def: "m' = add_client p addr (node_path w) (snd (alloc_client garbage addr m))"
  shows "clients_wf m'" "m_Clients m' = m_Clients m @ [p]"
    "nodeid_of m' = (nodeid_of m)(p := node_path w)"
    "map_find (m_ClientMap m') = (map_find (m_ClientMap m))(p \<mapsto> new_ClientInfo addr (node_path w))"
    "heap m' = (heap m)(p := new_MapReduceClient addr (garbage p))"
    "p \<notin> set (m_Clients m)" "m_has_failed m' = m_has_failed m"
proof -
  show "m_has_failed m' = m_has_failed m" by (simp add: m'_def cpp_defs)
  show p: "p \<notin> set (m_Clients m)" using wf by (auto simp: clients_wf_def p_def)
  then have "p \<notin> fst ` set (m_ClientMap m)" using wf by (simp add: clients_wf_def)
  then have none: "map_find (m_ClientMap m) p = None" by (simp add: map_of_eq_None_iff)
  have mwf: "map_wf (m_ClientMap m)" using wf by (simp add: clients_wf_def)
  show find: "map_find (m_ClientMap m') =
      (map_find (m_ClientMap m))(p \<mapsto> new_ClientInfo addr (node_path w))"
    using none by (simp add: m'_def cpp_defs smap.lookup_emplace [OF mwf] fun_eq_iff)
  show cl: "m_Clients m' = m_Clients m @ [p]" by (simp add: m'_def cpp_defs)
  show nid: "nodeid_of m' = (nodeid_of m)(p := node_path w)"
    by (auto simp: nodeid_of_def find cpp_defs)
  show "heap m' = (heap m)(p := new_MapReduceClient addr (garbage p))"
    by (simp add: m'_def p_def cpp_defs)
  have keys: "fst ` set (m_ClientMap m') = insert p (fst ` set (m_ClientMap m))"
    by (simp add: m'_def cpp_defs keys_map_emplace)
  have mwf': "map_wf (m_ClientMap m')"
    using mwf by (simp add: m'_def cpp_defs map_wf_emplace)
  have "map (nodeid_of m') (m_Clients m) = map (nodeid_of m) (m_Clients m)"
    using p by (auto simp: nid)
  moreover have "heap_next m' = Suc (heap_next m)" by (simp add: m'_def cpp_defs)
  ultimately show "clients_wf m'"
    using wf p keys mwf' new slash unfolding clients_wf_def cl
    by (auto simp: nid p_def)
qed

text \<open>What the first loop leaves: the old clients untouched, and one new client for every
  worker that had none.\<close>

definition extends_registry :: "(string \<Rightarrow> string) \<Rightarrow> Master \<Rightarrow> Master \<Rightarrow> bool" where
  "extends_registry getData m m' \<longleftrightarrow>
     (\<exists>new. m_Clients m' = m_Clients m @ new) \<and>
     (\<forall>p \<in> set (m_Clients m). nodeid_of m' p = nodeid_of m p \<and> heap m' p = heap m p) \<and>
     (\<forall>p \<in> set (m_Clients m') - set (m_Clients m).
        \<exists>g. heap m' p = new_MapReduceClient (getData (nodeid_of m' p)) g) \<and>
     m_has_failed m' = m_has_failed m"

lemma extends_registry_refl: "extends_registry getData m m"
  by (simp add: extends_registry_def)

lemma extends_registry_trans:
  assumes ab: "extends_registry getData a b" and bc: "extends_registry getData b c"
  shows "extends_registry getData a c"
proof -
  have "\<exists>g. heap c p = new_MapReduceClient (getData (nodeid_of c p)) g"
    if "p \<in> set (m_Clients c) - set (m_Clients a)" for p
  proof (cases "p \<in> set (m_Clients b)")
    case True
    with that ab have "\<exists>g. heap b p = new_MapReduceClient (getData (nodeid_of b p)) g"
      by (simp add: extends_registry_def)
    with True bc show ?thesis by (simp add: extends_registry_def)
  next
    case False
    with that bc show ?thesis by (simp add: extends_registry_def)
  qed
  with ab bc show ?thesis by (auto simp: extends_registry_def)
qed

lemma add_missing_ok:
  assumes "clients_wf m" "\<forall>w \<in> set wrkrs. CHR ''/'' \<notin> set w"
  shows "\<exists>m'. add_missing getData garbage wrkrs m = Inr m' \<and> clients_wf m' \<and>
    extends_registry getData m m' \<and>
    nodeid_of m' ` set (m_Clients m') = nodeid_of m ` set (m_Clients m) \<union> node_path ` set wrkrs"
  using assms
proof (induction wrkrs arbitrary: m)
  case Nil
  then show ?case by (simp add: extends_registry_refl)
next
  case (Cons w wrkrs)
  note added = already_added_iff [OF Cons.prems(1), of "node_path w"]
  show ?case
  proof (cases "node_path w \<in> nodeid_of m ` set (m_Clients m)")
    case True
    with added have "add_missing getData garbage (w # wrkrs) m = add_missing getData garbage wrkrs m"
      by simp
    moreover have "nodeid_of m ` set (m_Clients m) \<union> node_path ` set (w # wrkrs) =
        nodeid_of m ` set (m_Clients m) \<union> node_path ` set wrkrs" using True by auto
    ultimately show ?thesis using Cons.IH [OF Cons.prems(1)] Cons.prems(2) by simp
  next
    case False
    define p where "p = ClientPtr (heap_next m)"
    define m1 where "m1 = add_client p (getData (node_path w)) (node_path w)
      (snd (alloc_client garbage (getData (node_path w)) m))"
    have slash: "CHR ''/'' \<notin> set w" using Cons.prems by simp
    note r = register_client [OF Cons.prems(1) slash False p_def m1_def]
    have step: "add_missing getData garbage (w # wrkrs) m = add_missing getData garbage wrkrs m1"
      using added False by (simp add: Let_def m1_def p_def alloc_client_def)
    from Cons.IH [OF r(1)] Cons.prems obtain m' where m': "add_missing getData garbage wrkrs m1 = Inr m'"
      "clients_wf m'" "extends_registry getData m1 m'"
      "nodeid_of m' ` set (m_Clients m') = nodeid_of m1 ` set (m_Clients m1) \<union> node_path ` set wrkrs"
      by auto
    have "nodeid_of m1 ` set (m_Clients m1) = insert (node_path w) (nodeid_of m ` set (m_Clients m))"
      using r(2,3,6) by auto
    moreover have "extends_registry getData m m1"
      using r(2,3,5,6,7) unfolding extends_registry_def by auto
    then have "extends_registry getData m m'" using m'(3) by (rule extends_registry_trans)
    ultimately show ?thesis using m' step by auto
  qed
qed

text \<open>The index loop removes exactly the clients whose node is gone.\<close>

definition restrict_clients :: "(client_ptr \<Rightarrow> bool) \<Rightarrow> Master \<Rightarrow> Master" where
  "restrict_clients keep m =
     m\<lparr>m_ClientMap := filter (\<lambda>e. keep (fst e)) (m_ClientMap m), m_Clients := filter keep (m_Clients m)\<rparr>"

lemma map_find_filter: "keep p \<Longrightarrow> map_find (filter (\<lambda>e. keep (fst e)) xs) p = map_find xs p"
  by (induction xs) auto

lemma restrict_clients_simps [simp]:
  "m_Clients (restrict_clients keep m) = filter keep (m_Clients m)"
  "m_ClientMap (restrict_clients keep m) = filter (\<lambda>e. keep (fst e)) (m_ClientMap m)"
  "heap_next (restrict_clients keep m) = heap_next m" "heap (restrict_clients keep m) = heap m"
  by (simp_all add: restrict_clients_def)

lemma restrict_clients_find:
  "keep p \<Longrightarrow> map_find (m_ClientMap (restrict_clients keep m)) p = map_find (m_ClientMap m) p"
  by (simp add: restrict_clients_def map_find_filter)

lemma restrict_clients_nodeid: "keep p \<Longrightarrow> nodeid_of (restrict_clients keep m) p = nodeid_of m p"
  by (simp add: nodeid_of_def map_find_filter)

lemma map_wf_filter: "map_wf m \<Longrightarrow> map_wf (filter P m)"
  by (induction m) (auto simp: map_wf_Cons)

lemma restrict_clients_wf: "clients_wf m \<Longrightarrow> clients_wf (restrict_clients keep m)"
proof -
  assume wf: "clients_wf m"
  have "map (nodeid_of (restrict_clients keep m)) (filter keep (m_Clients m)) =
      map (nodeid_of m) (filter keep (m_Clients m))"
    by (intro map_cong) (simp_all add: restrict_clients_nodeid)
  moreover have "distinct (map (nodeid_of m) (filter keep (m_Clients m)))"
    using wf by (simp add: clients_wf_def distinct_map_filter)
  moreover have "fst ` set (filter (\<lambda>e. keep (fst e)) (m_ClientMap m)) = set (filter keep (m_Clients m))"
  proof -
    have "fst ` set (filter (\<lambda>e. keep (fst e)) xs) = fst ` set xs \<inter> {p. keep p}" for xs :: "(client_ptr \<times> ClientInfo) list"
      by auto
    then show ?thesis using wf by (auto simp: clients_wf_def)
  qed
  ultimately show ?thesis
    using wf unfolding clients_wf_def restrict_clients_simps
    by (simp only: set_filter mem_Collect_eq) (simp add: restrict_clients_nodeid map_wf_filter)
qed

text \<open>A node is still registered when its name is among the children.\<close>

definition registered :: "string list \<Rightarrow> Master \<Rightarrow> client_ptr \<Rightarrow> bool" where
  "registered wrkrs m p \<longleftrightarrow> nodeid_of m p \<in> node_path ` set wrkrs"

lemma after_last_node_path: "CHR ''/'' \<notin> set w \<Longrightarrow> after_last (CHR ''/'') (node_path w) = Inr w"
  using after_last_append [of "CHR ''/''" w "''/workers''"] by (simp add: node_path_def)

lemma node_path_inj [simp]: "node_path v = node_path w \<longleftrightarrow> v = w"
  by (simp add: node_path_def)

lemma restrict_clients_comp:
  "restrict_clients k1 (restrict_clients k2 m) = restrict_clients (\<lambda>p. k1 p \<and> k2 p) m"
  by (simp add: restrict_clients_def) (simp add: conj_commute)

lemma restrict_clients_cong:
  assumes "clients_wf m" "\<And>p. p \<in> set (m_Clients m) \<Longrightarrow> k1 p = k2 p"
  shows "restrict_clients k1 m = restrict_clients k2 m"
proof -
  have "filter k1 (m_Clients m) = filter k2 (m_Clients m)" using assms(2) by (intro filter_cong) auto
  moreover have "filter (\<lambda>e. k1 (fst e)) (m_ClientMap m) = filter (\<lambda>e. k2 (fst e)) (m_ClientMap m)"
    using assms by (intro filter_cong) (auto simp: clients_wf_def image_iff set_eq_iff)
  ultimately show ?thesis by (simp add: restrict_clients_def)
qed

lemma filter_neq_id: "c \<notin> set xs \<Longrightarrow> filter (\<lambda>p. p \<noteq> c) xs = xs"
  by (induction xs) auto

lemma erase_is_restrict:
  assumes "clients_wf m" "i < length (m_Clients m)"
  defines "c \<equiv> m_Clients m ! i"
  shows "m\<lparr>m_ClientMap := map_erase c (m_ClientMap m),
      m_Clients := take i (m_Clients m) @ drop (Suc i) (m_Clients m)\<rparr> = restrict_clients (\<lambda>p. p \<noteq> c) m"
proof -
  let ?cl = "m_Clients m"
  have split: "?cl = take i ?cl @ c # drop (Suc i) ?cl"
    using assms(2) by (simp add: c_def id_take_nth_drop)
  have "distinct ?cl" using assms(1) by (simp add: clients_wf_def)
  then have "distinct (take i ?cl @ c # drop (Suc i) ?cl)" using split by simp
  then have "filter (\<lambda>p. p \<noteq> c) (take i ?cl @ c # drop (Suc i) ?cl) = take i ?cl @ drop (Suc i) ?cl"
    by (simp add: filter_neq_id)
  with split have "filter (\<lambda>p. p \<noteq> c) ?cl = take i ?cl @ drop (Suc i) ?cl" by simp
  then show ?thesis by (simp add: restrict_clients_def map_erase_def)
qed

lemma remove_missing_ok:
  assumes "clients_wf m" "\<forall>w \<in> set wrkrs. CHR ''/'' \<notin> set w"
  shows "remove_missing wrkrs i m =
    Inr (restrict_clients (\<lambda>p. p \<in> set (take i (m_Clients m)) \<or> registered wrkrs m p) m)"
  using assms
proof (induction wrkrs i m rule: remove_missing.induct)
  case (1 wrkrs i m)
  let ?cl = "m_Clients m"
  show ?case
  proof (cases "i < length ?cl")
    case False
    moreover have "restrict_clients (\<lambda>p. p \<in> set (take i ?cl) \<or> registered wrkrs m p) m =
        restrict_clients (\<lambda>p. True) m"
      using False "1.prems"(1) by (intro restrict_clients_cong) auto
    ultimately show ?thesis by (simp add: remove_missing.simps [of wrkrs i m]) (simp add: restrict_clients_def)
  next
    case True
    define c where "c = ?cl ! i"
    then have c: "c \<in> set ?cl" using True by simp
    obtain info where info: "map_at (m_ClientMap m) c = Inr info" "ci_nodeid info = nodeid_of m c"
      using clients_wf_at [OF "1.prems"(1) c] by auto
    from "1.prems"(1) c obtain w where w: "CHR ''/'' \<notin> set w" "nodeid_of m c = node_path w"
      by (auto simp: clients_wf_def)
    have suffix: "after_last (CHR ''/'') (ci_nodeid info) = Inr w"
      using info w by (simp add: after_last_node_path)
    have take: "set (take (Suc i) ?cl) = insert c (set (take i ?cl))"
      using True by (simp add: take_Suc_conv_app_nth c_def)
    show ?thesis
    proof (cases "w \<in> set wrkrs")
      case reg: True
      then have rc: "registered wrkrs m c" using w by (simp add: registered_def)
      have "remove_missing wrkrs i m = remove_missing wrkrs (Suc i) m"
        using True reg info suffix by (subst remove_missing.simps) (simp add: Let_def c_def [symmetric])
      also have "\<dots> = Inr (restrict_clients (\<lambda>p. p \<in> set (take (Suc i) ?cl) \<or> registered wrkrs m p) m)"
        using "1.IH"(1) [OF True c_def reg "1.prems"] by simp
      also have "\<dots> = Inr (restrict_clients (\<lambda>p. p \<in> set (take i ?cl) \<or> registered wrkrs m p) m)"
        unfolding sum.inject using rc take "1.prems"(1) by (intro restrict_clients_cong) auto
      finally show ?thesis .
    next
      case reg: False
      then have rc: "\<not> registered wrkrs m c" using w by (auto simp: registered_def)
      let ?m = "restrict_clients (\<lambda>p. p \<noteq> c) m"
      note er = erase_is_restrict [OF "1.prems"(1) True, folded c_def]
      have "distinct ?cl" using "1.prems"(1) by (simp add: clients_wf_def)
      then have ntake: "c \<notin> set (take i ?cl)"
        using True by (metis c_def distinct_take in_set_conv_nth length_take less_irrefl min_less_iff_conj nth_eq_iff_index_eq nth_take)
      have "remove_missing wrkrs i m = remove_missing wrkrs i ?m"
        using True reg info suffix er
        by (subst remove_missing.simps) (simp add: Let_def c_def [symmetric])
      also have "\<dots> = Inr (restrict_clients (\<lambda>p. p \<in> set (take i (m_Clients ?m)) \<or> registered wrkrs ?m p) ?m)"
        using "1.IH"(2) [OF True c_def reg] er "1.prems" restrict_clients_wf by metis
      also have "\<dots> = Inr (restrict_clients (\<lambda>p. p \<in> set (take i ?cl) \<or> registered wrkrs m p) m)"
      proof -
        have same: "registered wrkrs ?m p = registered wrkrs m p" if "p \<noteq> c" for p
          using that by (simp add: registered_def restrict_clients_nodeid)
        have "m_Clients ?m = take i ?cl @ drop (Suc i) ?cl"
          using arg_cong [OF er, of m_Clients] by simp
        then have "take i (m_Clients ?m) = take i ?cl" using True by simp
        then show ?thesis
          unfolding restrict_clients_comp sum.inject using rc ntake same
          by (intro restrict_clients_cong [OF "1.prems"(1)]) metis
      qed
      finally show ?thesis .
    qed
  qed
qed

text \<open>What \<open>update_workers\<close> promises: one client per registered worker.\<close>

definition synchronised :: "string list \<Rightarrow> (string \<Rightarrow> string) \<Rightarrow> Master \<Rightarrow> Master \<Rightarrow> bool" where
  "synchronised wrkrs getData m m' \<longleftrightarrow>
     clients_wf m' \<and>
     nodeid_of m' ` set (m_Clients m') = node_path ` set wrkrs \<and>
     (\<forall>p \<in> set (m_Clients m). registered wrkrs m p \<longrightarrow>
        p \<in> set (m_Clients m') \<and> nodeid_of m' p = nodeid_of m p \<and> heap m' p = heap m p) \<and>
     (\<forall>p \<in> set (m_Clients m') - set (m_Clients m).
        \<exists>g. heap m' p = new_MapReduceClient (getData (nodeid_of m' p)) g)"

text \<open>Updating the registry touches nothing else of the master.\<close>

definition other_fields :: "Master \<Rightarrow> Master" where
  "other_fields m = m\<lparr>heap := (\<lambda>_. new_MapReduceClient [] PING_FAIL), heap_next := 0, m_Clients := [], m_ClientMap := []\<rparr>"

definition registry_only :: "Master \<Rightarrow> Master \<Rightarrow> bool" where
  "registry_only m m' \<longleftrightarrow> other_fields m' = other_fields m"

lemma registry_onlyD:
  assumes "registry_only m m'"
  shows "m_dbConnection m' = m_dbConnection m" "repl_clt_thd m' = repl_clt_thd m" "m_has_failed m' = m_has_failed m"
    "m_will_fail m' = m_will_fail m" "m_shards m' = m_shards m" "m_nmappers m' = m_nmappers m"
    "m_nreducers m' = m_nreducers m" "m_rid m' = m_rid m" "m_containername m' = m_containername m"
    "m_IntermediateResultMap m' = m_IntermediateResultMap m" "m_IntblobList m' = m_IntblobList m" "m_intcontainer m' = m_intcontainer m"
    "g_repl_list m' = g_repl_list m"
proof -
  note eq = assms [unfolded registry_only_def other_fields_def]
  show "m_dbConnection m' = m_dbConnection m" "repl_clt_thd m' = repl_clt_thd m" "m_has_failed m' = m_has_failed m"
    "m_will_fail m' = m_will_fail m" "m_shards m' = m_shards m" "m_nmappers m' = m_nmappers m"
    "m_nreducers m' = m_nreducers m" "m_rid m' = m_rid m" "m_containername m' = m_containername m"
    "m_IntermediateResultMap m' = m_IntermediateResultMap m" "m_IntblobList m' = m_IntblobList m" "m_intcontainer m' = m_intcontainer m"
    "g_repl_list m' = g_repl_list m"
    using eq [THEN arg_cong, of m_dbConnection] eq [THEN arg_cong, of repl_clt_thd] eq [THEN arg_cong, of m_has_failed]
    eq [THEN arg_cong, of m_will_fail] eq [THEN arg_cong, of m_shards] eq [THEN arg_cong, of m_nmappers]
    eq [THEN arg_cong, of m_nreducers] eq [THEN arg_cong, of m_rid] eq [THEN arg_cong, of m_containername]
    eq [THEN arg_cong, of m_IntermediateResultMap] eq [THEN arg_cong, of m_IntblobList] eq [THEN arg_cong, of m_intcontainer]
    eq [THEN arg_cong, of g_repl_list]
    by simp_all
qed

lemma registry_only_refl [simp]: "registry_only m m"
  by (simp add: registry_only_def)

lemma add_missing_registry:
  "add_missing getData garbage wrkrs m = Inr m' \<Longrightarrow> registry_only m m'"
proof (induction wrkrs arbitrary: m)
  case (Cons w wrkrs)
  then show ?case
    by (fastforce simp: rbind_Inr_iff alloc_client_def add_client_def registry_only_def other_fields_def Let_def split: if_splits)
qed simp

lemma remove_missing_registry: "remove_missing wrkrs i m = Inr m' \<Longrightarrow> registry_only m m'"
proof (induction wrkrs i m rule: remove_missing.induct)
  case (1 wrkrs i m)
  show ?case
  proof (cases "i < length (m_Clients m)")
    case True
    with "1.prems" obtain info sfx where "map_at (m_ClientMap m) (m_Clients m ! i) = Inr info"
      "after_last (CHR ''/'') (ci_nodeid info) = Inr sfx"
      by (auto simp: remove_missing.simps [of wrkrs i m] Let_def rbind_Inr_iff)
    with "1.IH" "1.prems" True show ?thesis
      by (auto simp: remove_missing.simps [of wrkrs i m] registry_only_def other_fields_def Let_def split: if_splits)
  next
    case False
    with "1.prems" show ?thesis by (simp add: remove_missing.simps [of wrkrs i m])
  qed
qed

lemma update_workers_registry:
  assumes "update_workers fw garbage z m = (z', Inr m')"
  shows "registry_only m m'"
proof (cases "m_has_failed m")
  case False
  with assms obtain ws m1 get where "add_missing get garbage ws m = Inr m1" "remove_missing ws 0 m1 = Inr m'"
    by (auto simp: update_workers_def Let_def rbind_Inr_iff)
  then have "registry_only m m1" "registry_only m1 m'" by (auto intro: add_missing_registry remove_missing_registry)
  then show ?thesis by (simp add: registry_only_def)
qed (use assms in \<open>simp add: update_workers_def\<close>)

lemma update_workers_ok:
  assumes "clients_wf m" "\<not> m_has_failed m"
    and "z' = snd (cf_create fw False False ''/workers'' [] z)"
    and "cf_getChildren fw ''/workers'' z' = Inr wrkrs" "\<forall>w \<in> set wrkrs. CHR ''/'' \<notin> set w"
  shows "\<exists>m'. update_workers fw garbage z m = (z', Inr m') \<and>
    synchronised wrkrs (\<lambda>p. cf_getData fw p z') m m'"
proof -
  let ?get = "\<lambda>p. cf_getData fw p z'"
  obtain m1 where m1: "add_missing ?get garbage wrkrs m = Inr m1" "clients_wf m1"
    "extends_registry ?get m m1"
    "nodeid_of m1 ` set (m_Clients m1) = nodeid_of m ` set (m_Clients m) \<union> node_path ` set wrkrs"
    using add_missing_ok [OF assms(1,5)] by blast
  define keep where "keep = registered wrkrs m1"
  let ?m' = "restrict_clients keep m1"
  have "remove_missing wrkrs 0 m1 = Inr ?m'"
    using remove_missing_ok [OF m1(2) assms(5), of 0] by (simp add: keep_def)
  then have "update_workers fw garbage z m = (z', Inr ?m')"
    using assms(2,4) m1(1) by (simp add: update_workers_def assms(3) [symmetric] Let_def)
  moreover have "nodeid_of ?m' ` set (m_Clients ?m') = node_path ` set wrkrs"
  proof -
    have "nodeid_of ?m' ` set (m_Clients ?m') = nodeid_of m1 ` {p \<in> set (m_Clients m1). keep p}"
      by (intro image_cong) (simp_all add: restrict_clients_nodeid)
    also have "\<dots> = nodeid_of m1 ` set (m_Clients m1) \<inter> node_path ` set wrkrs"
      by (auto simp: keep_def registered_def)
    finally show ?thesis using m1(4) by auto
  qed
  moreover have "p \<in> set (m_Clients ?m') \<and> nodeid_of ?m' p = nodeid_of m p \<and> heap ?m' p = heap m p"
    if "p \<in> set (m_Clients m)" "registered wrkrs m p" for p
  proof -
    have p: "p \<in> set (m_Clients m1)" "nodeid_of m1 p = nodeid_of m p" "heap m1 p = heap m p"
      using that(1) m1(3) by (auto simp: extends_registry_def)
    with that(2) have "keep p" by (simp add: keep_def registered_def)
    with p show ?thesis by (simp add: restrict_clients_nodeid)
  qed
  moreover have "\<exists>g. heap ?m' p = new_MapReduceClient (?get (nodeid_of ?m' p)) g"
    if "p \<in> set (m_Clients ?m') - set (m_Clients m)" for p
    using that m1(3) by (auto simp: extends_registry_def restrict_clients_nodeid)
  ultimately show ?thesis
    using restrict_clients_wf [OF m1(2)] unfolding synchronised_def by blast
qed

text \<open>
  C22: After \<open>update_workers\<close> of a live master there is exactly one client per node under
  \<^verbatim>\<open>/workers\<close>: no lookup of the client map throws, the invariant between the vector and
  the map of clients is kept, clients of workers that are still registered keep their identity,
  counters and states, clients of vanished workers are gone, and new clients point at the address
  their node holds. ZooKeeper node names contain no slash.
\<close>

theorem workers_synchronised:
  assumes "clients_wf m" "\<not> m_has_failed m"
    and "z' = snd (cf_create fw False False ''/workers'' [] z)"
    and "cf_getChildren fw ''/workers'' z' = Inr wrkrs" "\<forall>w \<in> set wrkrs. CHR ''/'' \<notin> set w"
  shows "\<exists>m'. update_workers fw garbage z m = (z', Inr m') \<and>
    synchronised wrkrs (\<lambda>p. cf_getData fw p z') m m'"
  using assms by (rule update_workers_ok)

lemma new_Master_wf: "clients_wf (new_Master n h)"
  by (simp add: clients_wf_def new_Master_def)

text \<open>A ZooKeeper that holds a fixed association of paths to data, and two workers.\<close>

definition demo_zk :: "(string \<times> string) list Conservator" where
  "demo_zk =
     \<lparr>cf_create = (\<lambda>sq eph p d z. (p, if p \<in> fst ` set z then z else z @ [(p, d)])),
      cf_getChildren = (\<lambda>p z. Inr (map (\<lambda>(q, d). drop (length p + 1) q)
        (filter (\<lambda>(q, d). starts_with (p @ ''/'') q) z))),
      cf_getData = (\<lambda>p z. case map_of z p of None \<Rightarrow> [] | Some d \<Rightarrow> d),
      cf_setData = (\<lambda>p d z. map (\<lambda>(q, e). if q = p then (q, d) else (q, e)) z),
      cf_checkExists = (\<lambda>p z. if p \<in> fst ` set z then 0 else - 101)\<rparr>"

theorem workers_synchronised_witness:
  "\<exists>m'. update_workers demo_zk (\<lambda>_. PING_FAIL)
      [(''/workers/worker_1'', ''10.0.0.1:50051''), (''/workers/worker_2'', ''10.0.0.2:50051'')]
      (new_Master 0 (\<lambda>_. new_MapReduceClient [] PING_FAIL)) =
    ([(''/workers/worker_1'', ''10.0.0.1:50051''), (''/workers/worker_2'', ''10.0.0.2:50051''),
      (''/workers'', [])], Inr m') \<and>
    synchronised [''worker_1'', ''worker_2'']
      (\<lambda>p. cf_getData demo_zk p [(''/workers/worker_1'', ''10.0.0.1:50051''),
         (''/workers/worker_2'', ''10.0.0.2:50051''), (''/workers'', [])])
      (new_Master 0 (\<lambda>_. new_MapReduceClient [] PING_FAIL)) m'"
  by (rule workers_synchronised [OF new_Master_wf])
     (simp_all add: new_Master_def demo_zk_def)

section \<open>The chosen client\<close>

lemma min_req_pass_spec:
  "min_req_pass bReduce h ps q = Some p \<Longrightarrow>
     (p \<in> set ps \<and> healthy h p \<or> q = Some p) \<and>
     (\<forall>p' \<in> set ps. healthy h p' \<longrightarrow> num_requests bReduce h p \<le> num_requests bReduce h p') \<and>
     (\<forall>q'. q = Some q' \<longrightarrow> num_requests bReduce h p \<le> num_requests bReduce h q')"
proof (induction bReduce h ps q rule: min_req_pass.induct)
  case (2 bReduce h p' ps q)
  consider (skip) "\<not> healthy h p'" | (first) "healthy h p'" "q = None"
    | (less) q' where "healthy h p'" "q = Some q'" "num_requests bReduce h p' < num_requests bReduce h q'"
    | (keep) q' where "healthy h p'" "q = Some q'" "\<not> num_requests bReduce h p' < num_requests bReduce h q'"
    by (cases q) auto
  then show ?case
  proof cases
    case skip
    with 2 show ?thesis by auto
  next
    case first
    with "2.IH"(1) "2.prems" show ?thesis by auto
  next
    case less
    with "2.IH"(2) "2.prems" show ?thesis by auto
  next
    case keep
    with "2.IH"(3) "2.prems" show ?thesis by auto
  qed
qed auto

lemma min_req_pass_None: "min_req_pass bReduce h ps q = None \<longleftrightarrow> q = None \<and> (\<forall>p \<in> set ps. \<not> healthy h p)"
  by (induction bReduce h ps q rule: min_req_pass.induct) (auto split: option.splits)

lemma find_healthy_pass_spec:
  "find_healthy_pass h ps = Some p \<Longrightarrow> p \<in> set ps \<and> healthy h p"
  by (induction ps) (auto split: if_splits)

lemma find_healthy_pass_None: "find_healthy_pass h ps = None \<longleftrightarrow> (\<forall>p \<in> set ps. \<not> healthy h p)"
  by (induction ps) auto

text \<open>A pass finds a client exactly when one is healthy; the loop around it then stops at the
  first ping round that left one.\<close>

locale client_choice =
  fixes pass :: "client_heap \<Rightarrow> client_ptr option" and clients :: "client_ptr list"
    and best :: "client_heap \<Rightarrow> client_ptr \<Rightarrow> bool"
  assumes pass_none: "pass h = None \<longleftrightarrow> (\<forall>p \<in> set clients. \<not> healthy h p)"
    and pass_some: "pass h = Some p \<Longrightarrow> p \<in> set clients \<and> healthy h p \<and> best h p"
begin

lemma loop_skips:
  "\<forall>i < k. pass (hs (n + i)) = None \<Longrightarrow> find_loop pass hs n = find_loop pass hs (n + k)"
proof (induction k arbitrary: n)
  case (Suc k)
  have "find_loop pass hs n = find_loop pass hs (Suc n)"
    using Suc.prems by (subst find_loop.simps) (metis add_0_right option.simps(4) zero_less_Suc)
  with Suc.IH [of "Suc n"] Suc.prems show ?case by force
qed simp

lemma loop_finds:
  assumes "\<exists>p \<in> set clients. healthy (hs j) p"
  shows "\<exists>p k. find_loop pass hs 0 = Some p \<and> k \<le> j \<and> p \<in> set clients \<and> healthy (hs k) p \<and> best (hs k) p"
proof -
  define k where "k = (LEAST k. pass (hs k) \<noteq> None)"
  have j: "pass (hs j) \<noteq> None" using assms pass_none [of "hs j"] by auto
  then have k: "pass (hs k) \<noteq> None" "k \<le> j" unfolding k_def by (rule LeastI, rule Least_le)
  have "pass (hs (0 + i)) = None" if "i < k" for i
    using that not_less_Least [of i "\<lambda>k. pass (hs k) \<noteq> None"] by (auto simp: k_def)
  then have "find_loop pass hs 0 = find_loop pass hs (0 + k)" by (intro loop_skips) blast
  also have "\<dots> = pass (hs k)" using k by (subst find_loop.simps) auto
  finally show ?thesis using k pass_some [of "hs k"] by auto
qed

end

definition fewest_requests :: "bool \<Rightarrow> client_ptr list \<Rightarrow> client_heap \<Rightarrow> client_ptr \<Rightarrow> bool" where
  "fewest_requests bReduce clients h p \<longleftrightarrow>
     (\<forall>p' \<in> set clients. healthy h p' \<longrightarrow> num_requests bReduce h p \<le> num_requests bReduce h p')"

interpretation first_healthy: client_choice "\<lambda>h. find_healthy_pass h clients" clients "\<lambda>h p. True"
  for clients
  by unfold_locales (auto simp: find_healthy_pass_None dest: find_healthy_pass_spec)

interpretation min_req: client_choice "\<lambda>h. min_req_pass bReduce h clients None" clients
  "fewest_requests bReduce clients" for bReduce clients
  by unfold_locales (auto simp: min_req_pass_None fewest_requests_def dest: min_req_pass_spec)

text \<open>
  \<open>findMinReqHealthyClient\<close> returns as soon as some ping round leaves a healthy client, and
  returns a registered healthy client that was sent the fewest requests of the kind among the
  healthy ones of that round.
\<close>

theorem min_req_client_found:
  assumes "\<exists>p \<in> set clients. healthy (hs j) p"
  shows "\<exists>p k. findMinReqHealthyClient bReduce clients hs = Some p \<and> k \<le> j \<and> p \<in> set clients \<and>
    healthy (hs k) p \<and>
    (\<forall>p' \<in> set clients. healthy (hs k) p' \<longrightarrow> num_requests bReduce (hs k) p \<le> num_requests bReduce (hs k) p')"
  using min_req.loop_finds [of clients hs j bReduce] assms
  by (simp add: findMinReqHealthyClient_def fewest_requests_def)

definition demo_round :: "nat \<Rightarrow> client_heap" where
  "demo_round n p = (new_MapReduceClient [] (if n = 0 then PING_CHECK else PING_SUCCESS))
     \<lparr>nMapRequests := if p = ClientPtr 0 then 2 else 1\<rparr>"

theorem min_req_client_found_witness:
  "\<exists>p k. findMinReqHealthyClient False [ClientPtr 0, ClientPtr 1] demo_round = Some p \<and> k \<le> 1 \<and>
    p \<in> set [ClientPtr 0, ClientPtr 1] \<and> healthy (demo_round k) p \<and>
    (\<forall>p' \<in> set [ClientPtr 0, ClientPtr 1]. healthy (demo_round k) p' \<longrightarrow>
       num_requests False (demo_round k) p \<le> num_requests False (demo_round k) p')"
proof (rule min_req_client_found)
  show "\<exists>p \<in> set [ClientPtr 0, ClientPtr 1]. healthy (demo_round 1) p"
    by (intro bexI [of _ "ClientPtr 1"]) (simp_all add: healthy_def demo_round_def new_MapReduceClient_def)
qed

lemma fold_ping_check:
  "nMapRequests (fold (\<lambda>p. setPingStatus p PING_CHECK) ps h p) = nMapRequests (h p) \<and>
   nReduceRequests (fold (\<lambda>p. setPingStatus p PING_CHECK) ps h p) = nReduceRequests (h p)"
  by (induction ps arbitrary: h) (simp_all add: setPingStatus_def)

text \<open>
  A ping round in which every client is answered once, in any order, returns, leaves each
  client healthy exactly when its answer was OK, and marks every other client as unhealthy and
  either timed out or broken; the counters the load balancing reads are unchanged.
\<close>

theorem ping_round:
  assumes "distinct (m_Clients m)" "distinct (map fst answers)" "set (map fst answers) = set (m_Clients m)"
  shows "\<exists>m'. ping_workers (map NextCall answers) m = Some m' \<and> g_ready m' \<and>
    (\<forall>(p, code) \<in> set answers.
       (healthy (heap m') p \<longleftrightarrow> code = 0) \<and>
       (code \<noteq> 0 \<longrightarrow> clientStatus (heap m' p) = (if code = 4 then DEADLINE_EXCEED else BROKEN)) \<and>
       nMapRequests (heap m' p) = nMapRequests (heap m p) \<and>
       nReduceRequests (heap m' p) = nReduceRequests (heap m p))"
proof -
  define h where "h = fold (\<lambda>p. setPingStatus p PING_CHECK) (m_Clients m) (heap m)"
  have h: "nMapRequests (h p) = nMapRequests (heap m p) \<and> nReduceRequests (h p) = nReduceRequests (heap m p)" for p
    unfolding h_def by (rule fold_ping_check)
  have len: "length (m_Clients m) = length answers"
    using assms distinct_card by (metis length_map)
  obtain h' where loop: "completion_loop complete_ping (length answers) (map NextCall answers) h = Some h'"
    using ping.loop_returns [of "length answers" answers h] by auto
  let ?m' = "m\<lparr>heap := h', g_ready := True\<rparr>"
  have "ping_workers (map NextCall answers) m = Some ?m'"
    using loop by (simp add: ping_workers_def AsyncCompletePingRpc_def len h_def)
  moreover have "(healthy h' p \<longleftrightarrow> code = 0) \<and>
       (code \<noteq> 0 \<longrightarrow> clientStatus (h' p) = (if code = 4 then DEADLINE_EXCEED else BROKEN)) \<and>
       nMapRequests (h' p) = nMapRequests (heap m p) \<and> nReduceRequests (h' p) = nReduceRequests (heap m p)"
    if "(p, code) \<in> set answers" for p code
    using ping.loop_each [OF loop assms(2) that] h
    by (simp add: complete_ping_def healthy_def cpp_defs)
  ultimately show ?thesis by fastforce
qed

theorem ping_round_witness:
  "\<exists>m'. ping_workers [NextCall (ClientPtr 1, 4), NextCall (ClientPtr 0, 0)]
      ((new_Master 0 (\<lambda>_. new_MapReduceClient [] PING_FAIL))\<lparr>m_Clients := [ClientPtr 0, ClientPtr 1]\<rparr>) = Some m' \<and>
    healthy (heap m') (ClientPtr 0) \<and> \<not> healthy (heap m') (ClientPtr 1)"
  using ping_round [of "(new_Master 0 (\<lambda>_. new_MapReduceClient [] PING_FAIL))\<lparr>m_Clients := [ClientPtr 0, ClientPtr 1]\<rparr>"
      "[(ClientPtr 1, 4), (ClientPtr 0, 0)]"]
  by auto

end
