(* ===== verification/TaskPool.thy ===== *)
theory TaskPool
  imports Prelude "HOL-Library.Multiset"
begin

text \<open>
  The abstract specification both dispatchers implement: a pool of task identifiers, each of which
  is queued, in flight at a worker, answered, or finished. A dispatcher refines the pool when each
  of its steps is a pool step or leaves the pool as it is; then no task is ever lost or duplicated.
\<close>

record pool =
  queued :: "int multiset"
  flight :: "int multiset"
  answered :: "int multiset"
  finished :: "int multiset"

inductive pool_step :: "pool \<Rightarrow> pool \<Rightarrow> bool" where
  send: "i \<in># queued p \<Longrightarrow>
    pool_step p (p\<lparr>queued := queued p - {#i#}, flight := flight p + {#i#}\<rparr>)"
| answer: "i \<in># flight p \<Longrightarrow>
    pool_step p (p\<lparr>flight := flight p - {#i#}, answered := answered p + {#i#}\<rparr>)"
| requeue: "i \<in># answered p \<Longrightarrow>
    pool_step p (p\<lparr>answered := answered p - {#i#}, queued := queued p + {#i#}\<rparr>)"
| accept: "i \<in># answered p \<Longrightarrow>
    pool_step p (p\<lparr>answered := answered p - {#i#}, finished := finished p + {#i#}\<rparr>)"

definition pool_total :: "pool \<Rightarrow> int multiset" where
  "pool_total p = queued p + flight p + answered p + finished p"

definition outstanding :: "pool \<Rightarrow> nat" where
  "outstanding p = size (flight p) + size (answered p)"

lemma pool_step_total: "pool_step p q \<Longrightarrow> pool_total q = pool_total p"
  by (induction rule: pool_step.induct) (auto simp: pool_total_def multiset_eq_iff)

lemma pool_step_finished: "pool_step p q \<Longrightarrow> finished p \<subseteq># finished q"
  by (induction rule: pool_step.induct) auto

text \<open>A simulation: under its invariant, every concrete step is a pool step or a stutter.\<close>

locale pool_refinement =
  fixes step :: "'s \<Rightarrow> 's \<Rightarrow> bool" and abs :: "'s \<Rightarrow> pool" and inv :: "'s \<Rightarrow> bool"
  assumes inv_step: "inv s \<Longrightarrow> step s t \<Longrightarrow> inv t"
    and simulation: "inv s \<Longrightarrow> step s t \<Longrightarrow> pool_step (abs s) (abs t) \<or> abs t = abs s"
begin

lemma steps_inv: "step\<^sup>*\<^sup>* s t \<Longrightarrow> inv s \<Longrightarrow> inv t"
  by (induction rule: rtranclp_induct) (auto intro: inv_step)

lemma steps_total: "step\<^sup>*\<^sup>* s t \<Longrightarrow> inv s \<Longrightarrow> pool_total (abs t) = pool_total (abs s)"
proof (induction rule: rtranclp_induct)
  case (step t u)
  then have "inv t" using steps_inv by blast
  with step simulation [of t u] show ?case by (auto dest: pool_step_total)
qed simp

lemma steps_pool: "step\<^sup>*\<^sup>* s t \<Longrightarrow> inv s \<Longrightarrow> pool_step\<^sup>*\<^sup>* (abs s) (abs t)"
proof (induction rule: rtranclp_induct)
  case (step t u)
  then have "inv t" using steps_inv by blast
  with step simulation [of t u] show ?case by (auto intro: rtranclp.rtrancl_into_rtrancl)
qed simp

lemma steps_finished: "step\<^sup>*\<^sup>* s t \<Longrightarrow> inv s \<Longrightarrow> finished (abs s) \<subseteq># finished (abs t)"
proof (induction rule: rtranclp_induct)
  case (step t u)
  then have "inv t" using steps_inv by blast
  with step simulation [of t u] show ?case by (auto dest: pool_step_finished intro: subset_mset.order_trans)
qed simp

end

section \<open>Ordered maps as multisets of entries\<close>

lemma mset_map_emplace:
  "map_wf m \<Longrightarrow> map_find m k = None \<Longrightarrow> mset (map_emplace k v m) = add_mset (k, v) (mset m)"
  by (induction k v m rule: map_emplace.induct) (auto simp: map_wf_Cons)

lemma sum_list_emplace:
  fixes f :: "'k::linorder \<times> 'v \<Rightarrow> 'm::comm_monoid_add"
  assumes "map_wf m" "map_find m k = None"
  shows "sum_list (map f (map_emplace k v m)) = sum_list (map f m) + f (k, v)"
proof -
  have "sum_list (map f xs) = \<Sum>\<^sub># (image_mset f (mset xs))" for xs
    by (simp flip: sum_mset_sum_list)
  then show ?thesis by (simp add: mset_map_emplace [OF assms] add.commute)
qed

lemma set_map_emplace:
  "map_wf m \<Longrightarrow> map_find m k = None \<Longrightarrow> set (map_emplace k v m) = insert (k, v) (set m)"
  using arg_cong [OF mset_map_emplace, of m k set_mset v] by simp

lemma keys_mset_emplace:
  "map_wf m \<Longrightarrow> map_find m k = None \<Longrightarrow>
     mset (map fst (map_emplace k v m)) = add_mset k (mset (map fst m))"
  using arg_cong [OF mset_map_emplace, of m k "image_mset fst" v] by simp

lemma total_distinct:
  assumes "pool_total p = mset_set ids" "i \<in># answered p"
  shows "i \<notin># finished p"
proof -
  have "count (pool_total p) i \<le> 1" using assms(1) by (simp add: count_mset_set')
  moreover have "0 < count (answered p) i" using assms(2) by simp
  ultimately have "count (finished p) i = 0" unfolding pool_total_def count_union by linarith
  then show ?thesis by (simp add: not_in_iff)
qed

lemma total_member:
  assumes "finite ids" "pool_total p = mset_set ids"
    and "i \<in># queued p + flight p + answered p + finished p"
  shows "i \<in> ids"
  using assms by (simp flip: pool_total_def)

end
