(* ===== verification/MapDispatch.thy ===== *)
theory MapDispatch
  imports MasterState TaskPool
begin

text \<open>
  \<^verbatim>\<open>Master::dispatchMapTasks\<close> and its completion thread \<^verbatim>\<open>AsyncCompleteMapRpc\<close>
  (\<^verbatim>\<open>w7/src/master/masterimpl.cc\<close>) as a system of three interleaved threads: the
  dispatcher, the completion thread and the ping thread. Each step is one action of one thread
  between two accesses to shared data; the threads see a sequentially consistent memory. The
  completion queue is never shut down, so \<^verbatim>\<open>cq.Next\<close> never delivers \<open>false\<close>.
\<close>

section \<open>State\<close>

text \<open>Where the dispatcher is: in the inner sending loop, in the busy wait for a response, in the
  loop over the responses, at the test after it, behind the outer loop, after the return, or asleep
  in \<open>enter_fail_state\<close>.\<close>

datatype dispatch_pc = Sending | Waiting | Draining | Testing | Clearing | Returned | Asleep

text \<open>Where the completion thread is: at the head of its loop, blocked in \<^verbatim>\<open>cq.Next\<close>,
  with a finished call in its hands, after its response was queued, or after the return. A finished
  call is the call, its status and its reply.\<close>

type_synonym map_reply = "AsyncClientMapCall \<times> int \<times> IntermediateResult"

datatype 'r completion_pc = TestDone | InNext | GotTag 'r | Pushed 'r | Exited

record map_state =
  ms_master :: Master
  ms_job_q :: "int list"
  ms_cq :: "AsyncClientMapCall list"
  ms_responseList :: "MapperResult list"
  ms_nrpcs :: int
  ms_pc :: dispatch_pc
  ms_tpc :: "map_reply completion_pc"

text \<open>An \<open>int\<close> compared with a \<open>size_t\<close> is converted to unsigned 64 bits.\<close>

definition unsigned_of_int :: "int \<Rightarrow> nat" where
  "unsigned_of_int x = nat (x mod 2 ^ 64)"

section \<open>The dispatcher\<close>

text \<open>\<open>dispatchMapTasks\<close> up to its loop.\<close>

definition start_map_dispatch :: "int list \<Rightarrow> Master \<Rightarrow> map_state" where
  "start_map_dispatch job_q m =
     \<lparr>ms_master = m\<lparr>m_map_done := False\<rparr>, ms_job_q = job_q, ms_cq = [], ms_responseList = [],
      ms_nrpcs = 0, ms_pc = Sending, ms_tpc = TestDone\<rparr>"

text \<open>The body of the sending loop for the client that was found. An index outside \<open>m_shards\<close>
  would be undefined behaviour, so there is no step then.\<close>

definition send_map_task :: "client_ptr \<Rightarrow> map_state \<Rightarrow> map_state" where
  "send_map_task curClient s =
     (let m = ms_master s; i = hd (ms_job_q s); shard = m_shards m ! nat i;
          (h, cq) = invokeMapTaskAsync curClient shard (m_nreducers m) (m_rid m)
                      (setStatus curClient MAP_RUNNING (heap m), ms_cq s);
          m1 = m\<lparr>heap := h,
                 m_ShardClientMapper := map_set (fs_shardId shard) curClient (m_ShardClientMapper m)\<rparr>;
          m2 = task_assigned_check_fail m1
      in s\<lparr>ms_master := m2, ms_cq := cq, ms_nrpcs := ms_nrpcs s + 1, ms_job_q := tl (ms_job_q s),
           ms_pc := (if m_has_failed m2 then Asleep else Sending)\<rparr>)"

text \<open>One iteration of the loop over the responses; every branch erases the element it read, so
  the iterator is always at the front.\<close>

definition process_map_response :: "map_state \<Rightarrow> map_state" where
  "process_map_response s =
     (let m = ms_master s; res = hd (ms_responseList s) in
      if mr_status res \<noteq> SUCCESS
      then s\<lparr>ms_job_q := ms_job_q s @ [mr_shardId res],
             ms_responseList := tl (ms_responseList s), ms_nrpcs := ms_nrpcs s - 1\<rparr>
      else
        (let m' = (if map_find (m_IntermediateResultMap m) (mr_shardId res) = None
                   then m\<lparr>m_IntermediateResultMap :=
                            map_emplace (mr_shardId res) res (m_IntermediateResultMap m),
                          m_IntblobList := m_IntblobList m @ mr_blobList res,
                          m_intcontainer := mr_cname res\<rparr>
                   else m)
         in s\<lparr>ms_master := m', ms_responseList := tl (ms_responseList s),
              ms_nrpcs := ms_nrpcs s - 1\<rparr>))"

text \<open>After the loop over the responses: leave the outer loop when there are as many results as
  mappers.\<close>

definition test_map_done :: "map_state \<Rightarrow> map_state" where
  "test_map_done s =
     (let m = ms_master s in
      if length (m_IntermediateResultMap m) = unsigned_of_int (m_nmappers m)
      then s\<lparr>ms_master := m\<lparr>m_map_done := True\<rparr>, ms_pc := Clearing\<rparr>
      else s\<lparr>ms_pc := Sending\<rparr>)"

text \<open>\<^verbatim>\<open>runMapper\<close> up to the loop of \<open>dispatchMapTasks\<close>.\<close>

definition runMapper :: "Master \<Rightarrow> map_state" where
  "runMapper m =
     start_map_dispatch (map int [0..<length (m_shards m)])
       (m\<lparr>m_IntblobList := [], m_IntermediateResultMap := []\<rparr>)"

section \<open>The completion thread\<close>

definition push_map_response :: "map_reply \<Rightarrow> map_state \<Rightarrow> map_state" where
  "push_map_response r s =
     (case r of (call, code, reply) \<Rightarrow>
        if status_ok code
        then s\<lparr>ms_responseList := ms_responseList s @
                 [new_MapperResult SUCCESS (mc_shardId call) (ir_containername reply) False (ir_blobs reply)],
               ms_tpc := Pushed r\<rparr>
        else s\<lparr>ms_master := (ms_master s)\<lparr>heap := fail_client (mc_client call) code (heap (ms_master s))\<rparr>,
               ms_responseList := ms_responseList s @
                 [new_MapperResult (if deadline_exceeded code then TIMEDOUT else FAILED)
                    (mc_shardId call) [] False []],
               ms_tpc := Pushed r\<rparr>)"

text \<open>The rest of the iteration: the client's status and the copy for the replica.\<close>

definition record_map_success :: "map_reply \<Rightarrow> map_state \<Rightarrow> map_state" where
  "record_map_success r s =
     (case r of (call, code, reply) \<Rightarrow>
        (let m = ms_master s in
         if status_ok code
         then s\<lparr>ms_master := m\<lparr>heap := setStatus (mc_client call) MAP_DONE (heap m),
                  g_repl_data := True,
                  g_repl_list := g_repl_list m @
                    [new_MapperResult SUCCESS (mc_shardId call) (ir_containername reply) False (ir_blobs reply)]\<rparr>,
                ms_tpc := TestDone\<rparr>
         else s\<lparr>ms_tpc := TestDone\<rparr>))"

section \<open>The steps\<close>

text \<open>\<open>answers call code reply\<close>: what a worker may answer to a call. Every thread may move at any
  time; the ping thread may change the ping status and the status of any client.\<close>

inductive map_step ::
    "(AsyncClientMapCall \<Rightarrow> int \<Rightarrow> IntermediateResult \<Rightarrow> bool) \<Rightarrow> map_state \<Rightarrow> map_state \<Rightarrow> bool"
  for answers where
  send: "\<lbrakk>ms_pc s = Sending; ms_job_q s = i # q; \<not> ms_nrpcs s > 10;
      min_req_pass False (heap (ms_master s)) (m_Clients (ms_master s)) None = Some c;
      0 \<le> i; nat i < length (m_shards (ms_master s))\<rbrakk> \<Longrightarrow>
    map_step answers s (send_map_task c s)"
| stop_sending: "\<lbrakk>ms_pc s = Sending; ms_job_q s = [] \<or> ms_nrpcs s > 10\<rbrakk> \<Longrightarrow>
    map_step answers s (s\<lparr>ms_pc := Waiting\<rparr>)"
| response_seen: "\<lbrakk>ms_pc s = Waiting; ms_responseList s \<noteq> []\<rbrakk> \<Longrightarrow>
    map_step answers s (s\<lparr>ms_pc := Draining\<rparr>)"
| drain: "\<lbrakk>ms_pc s = Draining; ms_responseList s \<noteq> []\<rbrakk> \<Longrightarrow>
    map_step answers s (process_map_response s)"
| drained: "\<lbrakk>ms_pc s = Draining; ms_responseList s = []\<rbrakk> \<Longrightarrow>
    map_step answers s (s\<lparr>ms_pc := Testing\<rparr>)"
| test: "ms_pc s = Testing \<Longrightarrow> map_step answers s (test_map_done s)"
| clear: "ms_pc s = Clearing \<Longrightarrow>
    map_step answers s (s\<lparr>ms_responseList := [], ms_pc := Returned\<rparr>)"
| exit_thread: "\<lbrakk>ms_tpc s = TestDone; m_map_done (ms_master s)\<rbrakk> \<Longrightarrow>
    map_step answers s (s\<lparr>ms_tpc := Exited\<rparr>)"
| enter_next: "\<lbrakk>ms_tpc s = TestDone; \<not> m_map_done (ms_master s);
      unsigned_of_int (ms_nrpcs s) > length (ms_responseList s)\<rbrakk> \<Longrightarrow>
    map_step answers s (s\<lparr>ms_tpc := InNext\<rparr>)"
| next_call: "\<lbrakk>ms_tpc s = InNext; ms_cq s = cs @ call # cs'; answers call code reply\<rbrakk> \<Longrightarrow>
    map_step answers s (s\<lparr>ms_cq := cs @ cs', ms_tpc := GotTag (call, code, reply)\<rparr>)"
| push: "ms_tpc s = GotTag r \<Longrightarrow> map_step answers s (push_map_response r s)"
| finish_call: "ms_tpc s = Pushed r \<Longrightarrow> map_step answers s (record_map_success r s)"
| ping: "map_step answers s
    (s\<lparr>ms_master := (ms_master s)\<lparr>heap := setStatus p cst (setPingStatus p pst (heap (ms_master s)))\<rparr>\<rparr>)"

section \<open>Refinement of the task pool\<close>

definition got_call :: "map_state \<Rightarrow> AsyncClientMapCall list" where
  "got_call s = (case ms_tpc s of GotTag r \<Rightarrow> [fst r] | _ \<Rightarrow> [])"

abbreviation results :: "map_state \<Rightarrow> (int, MapperResult) std_map" where
  "results s \<equiv> m_IntermediateResultMap (ms_master s)"

definition map_pool :: "map_state \<Rightarrow> pool" where
  "map_pool s =
     \<lparr>queued = mset (ms_job_q s), flight = mset (map mc_shardId (ms_cq s @ got_call s)),
      answered = mset (map mr_shardId (ms_responseList s)), finished = mset (map fst (results s))\<rparr>"

text \<open>The request for a shard, and the calls the dispatcher makes.\<close>

definition map_query :: "Master \<Rightarrow> int \<Rightarrow> MapperInput" where
  "map_query m i =
     \<lparr>mi_npartition = m_nreducers m, mi_shard_id = i,
      mi_stuples = map tuple_of_data (fs_sets (m_shards m ! nat i)), mi_req_id = to_string (m_rid m)\<rparr>"

definition shard_index :: "Master \<Rightarrow> int \<Rightarrow> bool" where
  "shard_index m i \<longleftrightarrow> 0 \<le> i \<and> nat i < length (m_shards m) \<and> fs_shardId (m_shards m ! nat i) = i"

definition map_call :: "Master \<Rightarrow> AsyncClientMapCall \<Rightarrow> bool" where
  "map_call m c \<longleftrightarrow> shard_index m (mc_shardId c) \<and> mc_query c = map_query m (mc_shardId c)"

definition map_result :: "AsyncClientMapCall \<Rightarrow> IntermediateResult \<Rightarrow> MapperResult" where
  "map_result c reply = new_MapperResult SUCCESS (mc_shardId c) (ir_containername reply) False (ir_blobs reply)"

text \<open>\<open>good\<close> is any property of results that every successful answer to a call has.\<close>

definition good_answers ::
    "Master \<Rightarrow> (AsyncClientMapCall \<Rightarrow> int \<Rightarrow> IntermediateResult \<Rightarrow> bool) \<Rightarrow> (MapperResult \<Rightarrow> bool) \<Rightarrow> bool" where
  "good_answers m answers good \<longleftrightarrow>
     (\<forall>c reply. map_call m c \<and> answers c 0 reply \<longrightarrow> good (map_result c reply))"

definition same_job :: "Master \<Rightarrow> map_state \<Rightarrow> bool" where
  "same_job m0 s \<longleftrightarrow>
     m_shards (ms_master s) = m_shards m0 \<and> m_nreducers (ms_master s) = m_nreducers m0 \<and>
     m_rid (ms_master s) = m_rid m0 \<and> m_nmappers (ms_master s) = m_nmappers m0 \<and>
     m_Clients (ms_master s) = m_Clients m0"

definition counting_inv :: "int set \<Rightarrow> map_state \<Rightarrow> bool" where
  "counting_inv ids s \<longleftrightarrow>
     map_wf (results s) \<and> pool_total (map_pool s) = mset_set ids \<and>
     ms_nrpcs s = int (outstanding (map_pool s)) \<and> ms_nrpcs s \<le> 11 \<and>
     (ms_tpc s = InNext \<longrightarrow> ms_cq s \<noteq> []) \<and>
     (ms_pc s \<in> {Clearing, Returned} \<longrightarrow>
        length (results s) = unsigned_of_int (m_nmappers (ms_master s)))"

definition results_inv ::
    "Master \<Rightarrow> (AsyncClientMapCall \<Rightarrow> int \<Rightarrow> IntermediateResult \<Rightarrow> bool) \<Rightarrow> (MapperResult \<Rightarrow> bool) \<Rightarrow>
     map_state \<Rightarrow> bool" where
  "results_inv m0 answers good s \<longleftrightarrow>
     (\<forall>c \<in> set (ms_cq s). map_call m0 c) \<and>
     (\<forall>c code reply. ms_tpc s = GotTag (c, code, reply) \<longrightarrow> map_call m0 c \<and> answers c code reply) \<and>
     (\<forall>r \<in> set (ms_responseList s). mr_status r = SUCCESS \<longrightarrow> good r) \<and>
     (\<forall>(i, r) \<in> set (results s). mr_shardId r = i \<and> good r) \<and>
     mset (m_IntblobList (ms_master s)) =
       (\<Sum>(i, r) \<leftarrow> results s. mset (mr_blobList r))"

definition map_inv where
  "map_inv m0 ids answers good s \<longleftrightarrow>
     finite ids \<and> card ids \<le> unsigned_of_int (m_nmappers m0) \<and> (\<forall>i \<in> ids. shard_index m0 i) \<and>
     good_answers m0 answers good \<and> same_job m0 s \<and> counting_inv ids s \<and> results_inv m0 answers good s"

section \<open>The invariant is kept\<close>

lemma check_fail_keeps [simp]:
  "m_shards (task_assigned_check_fail m) = m_shards m"
  "m_nreducers (task_assigned_check_fail m) = m_nreducers m"
  "m_rid (task_assigned_check_fail m) = m_rid m"
  "m_nmappers (task_assigned_check_fail m) = m_nmappers m"
  "m_Clients (task_assigned_check_fail m) = m_Clients m"
  "m_IntermediateResultMap (task_assigned_check_fail m) = m_IntermediateResultMap m"
  "m_IntblobList (task_assigned_check_fail m) = m_IntblobList m"
  by (simp_all add: cpp_defs)

lemmas action_defs =
  send_map_task_def process_map_response_def test_map_done_def push_map_response_def
  record_map_success_def

lemma same_job_step: "map_step answers s t \<Longrightarrow> same_job m0 s \<Longrightarrow> same_job m0 t"
  by (induction rule: map_step.induct)
     (auto simp: same_job_def action_defs Let_def split: prod.splits)

lemma send_map_task_effect:
  assumes "ms_job_q s = i # q" "shard_index (ms_master s) i"
  shows "map_pool (send_map_task c s) =
      (map_pool s)\<lparr>queued := queued (map_pool s) - {#i#}, flight := flight (map_pool s) + {#i#}\<rparr>"
    "ms_nrpcs (send_map_task c s) = ms_nrpcs s + 1"
    "results (send_map_task c s) = results s" "ms_tpc (send_map_task c s) = ms_tpc s"
    "\<exists>call. ms_cq (send_map_task c s) = ms_cq s @ [call] \<and> mc_shardId call = i \<and>
       mc_query call = map_query (ms_master s) i"
    "ms_pc (send_map_task c s) \<in> {Sending, Asleep}"
    "ms_responseList (send_map_task c s) = ms_responseList s"
    "m_IntblobList (ms_master (send_map_task c s)) = m_IntblobList (ms_master s)"
    "m_nmappers (ms_master (send_map_task c s)) = m_nmappers (ms_master s)"
  using assms
  by (simp_all add: send_map_task_def invokeMapTaskAsync_def Let_def map_pool_def shard_index_def
      got_call_def map_query_def)

lemma process_map_response_effect:
  assumes "ms_responseList s = r # rs" "map_wf (results s)" "map_find (results s) (mr_shardId r) = None"
  defines "t \<equiv> process_map_response s"
  shows "map_pool t =
      (if mr_status r \<noteq> SUCCESS
       then (map_pool s)\<lparr>answered := answered (map_pool s) - {#mr_shardId r#},
              queued := queued (map_pool s) + {#mr_shardId r#}\<rparr>
       else (map_pool s)\<lparr>answered := answered (map_pool s) - {#mr_shardId r#},
              finished := finished (map_pool s) + {#mr_shardId r#}\<rparr>)"
    "results t = (if mr_status r \<noteq> SUCCESS then results s else map_emplace (mr_shardId r) r (results s))"
    "m_IntblobList (ms_master t) = m_IntblobList (ms_master s) @ (if mr_status r \<noteq> SUCCESS then [] else mr_blobList r)"
    "ms_nrpcs t = ms_nrpcs s - 1" "ms_tpc t = ms_tpc s" "ms_cq t = ms_cq s" "ms_pc t = ms_pc s"
    "ms_responseList t = rs"
  using assms(1-3)
  by (simp_all add: t_def process_map_response_def Let_def map_pool_def got_call_def mset_map_emplace)

lemma push_map_response_effect:
  assumes "ms_tpc s = GotTag (call, code, reply)"
  defines "t \<equiv> push_map_response (call, code, reply) s"
  shows "map_pool t = (map_pool s)\<lparr>flight := flight (map_pool s) - {#mc_shardId call#},
      answered := answered (map_pool s) + {#mc_shardId call#}\<rparr>"
    "results t = results s" "m_IntblobList (ms_master t) = m_IntblobList (ms_master s)"
    "ms_nrpcs t = ms_nrpcs s" "ms_tpc t = Pushed (call, code, reply)" "ms_cq t = ms_cq s" "ms_pc t = ms_pc s"
    "\<exists>r. ms_responseList t = ms_responseList s @ [r] \<and> mr_shardId r = mc_shardId call \<and>
      (mr_status r = SUCCESS \<longrightarrow> code = 0 \<and> r = map_result call reply)"
    "m_nmappers (ms_master t) = m_nmappers (ms_master s)"
  using assms(1)
  by (auto simp: t_def push_map_response_def map_pool_def got_call_def map_result_def)

lemma record_map_success_effect:
  assumes "ms_tpc s = Pushed r"
  defines "t \<equiv> record_map_success r s"
  shows "map_pool t = map_pool s" "results t = results s"
    "m_IntblobList (ms_master t) = m_IntblobList (ms_master s)"
    "ms_nrpcs t = ms_nrpcs s" "ms_tpc t = TestDone" "ms_cq t = ms_cq s" "ms_pc t = ms_pc s"
    "ms_responseList t = ms_responseList s" "m_nmappers (ms_master t) = m_nmappers (ms_master s)"
  using assms(1)
  by (auto simp: t_def record_map_success_def Let_def map_pool_def got_call_def split: prod.splits)

lemma next_call_pool:
  assumes "ms_tpc s = InNext" "ms_cq s = cs @ call # cs'"
  shows "map_pool (s\<lparr>ms_cq := cs @ cs', ms_tpc := GotTag (call, code, reply)\<rparr>) = map_pool s"
  using assms by (simp add: map_pool_def got_call_def)

text \<open>When the outer loop is left, nothing is outstanding.\<close>

lemma done_outstanding:
  assumes "counting_inv ids s" "finite ids" "card ids \<le> length (results s)"
  shows "ms_job_q s = []" "ms_cq s = []" "got_call s = []" "ms_responseList s = []"
    "set (map fst (results s)) = ids"
proof -
  have tot: "pool_total (map_pool s) = mset_set ids" using assms(1) by (simp add: counting_inv_def)
  from arg_cong [OF tot, of size]
  have "length (ms_job_q s) + (length (ms_cq s) + length (got_call s)) + length (ms_responseList s) = 0"
    using assms(3) by (simp add: pool_total_def map_pool_def del: length_0_conv)
  then show "ms_job_q s = []" "ms_cq s = []" "got_call s = []" "ms_responseList s = []"
    by simp_all
  then have "mset (map fst (results s)) = mset_set ids"
    using tot by (simp add: pool_total_def map_pool_def)
  from arg_cong [OF this, of set_mset] show "set (map fst (results s)) = ids"
    using assms(2) by simp
qed

lemma nrpcs_unsigned:
  "counting_inv ids s \<Longrightarrow> unsigned_of_int (ms_nrpcs s) = outstanding (map_pool s)"
  by (simp add: counting_inv_def unsigned_of_int_def)

lemma pool_quiet:
  "ms_job_q t = ms_job_q s \<Longrightarrow> ms_cq t = ms_cq s \<Longrightarrow> got_call t = got_call s \<Longrightarrow>
   ms_responseList t = ms_responseList s \<Longrightarrow> results t = results s \<Longrightarrow> map_pool t = map_pool s"
  by (simp add: map_pool_def)

text \<open>Each step moves the pool or leaves it alone, and keeps the counters right.\<close>

definition counted :: "map_state \<Rightarrow> map_state \<Rightarrow> bool" where
  "counted s t \<longleftrightarrow> (pool_step (map_pool s) (map_pool t) \<or> map_pool t = map_pool s) \<and>
     ms_nrpcs t - ms_nrpcs s = int (outstanding (map_pool t)) - int (outstanding (map_pool s))"

lemma counted_send:
  assumes "ms_job_q s = i # q" "shard_index (ms_master s) i"
  shows "counted s (send_map_task c s)"
proof -
  have "i \<in># queued (map_pool s)" using assms(1) by (simp add: map_pool_def)
  from pool_step.send [OF this] show ?thesis
    by (simp add: counted_def send_map_task_effect [OF assms] outstanding_def)
qed

lemma counted_drain:
  assumes "ms_responseList s = r # rs" "map_wf (results s)" "map_find (results s) (mr_shardId r) = None"
  shows "counted s (process_map_response s)"
proof -
  have i: "mr_shardId r \<in># answered (map_pool s)" using assms(1) by (simp add: map_pool_def)
  have "size (answered (map_pool s)) = Suc (length rs)" using assms(1) by (simp add: map_pool_def)
  with i pool_step.requeue [OF i] pool_step.accept [OF i] show ?thesis
    by (simp add: counted_def process_map_response_effect [OF assms] outstanding_def size_Diff_singleton)
qed

lemma counted_push:
  assumes "ms_tpc s = GotTag r"
  shows "counted s (push_map_response r s)"
proof -
  obtain call code reply where r: "r = (call, code, reply)" by (cases r)
  note e = push_map_response_effect [OF assms [unfolded r], folded r]
  have i: "mc_shardId call \<in># flight (map_pool s)"
    using assms by (simp add: map_pool_def got_call_def r)
  then have "size (flight (map_pool s)) > 0" by (metis nonempty_has_size empty_iff set_mset_empty)
  with i pool_step.answer [OF i] show ?thesis
    by (simp add: counted_def e outstanding_def size_Diff_singleton)
qed

text \<open>A response in the list belongs to a shard without a result.\<close>

lemma response_fresh:
  assumes "counting_inv ids s" "r \<in> set (ms_responseList s)"
  shows "map_find (results s) (mr_shardId r) = None"
proof -
  have "mr_shardId r \<notin># finished (map_pool s)"
    using assms by (intro total_distinct [of _ ids]) (auto simp: counting_inv_def map_pool_def)
  then show ?thesis by (simp add: map_pool_def map_of_eq_None_iff)
qed

lemma step_counted:
  assumes step: "map_step answers s t" and inv: "map_inv m0 ids answers good s"
  shows "counted s t"
proof -
  have ci: "counting_inv ids s" and fin: "finite ids" and sj: "same_job m0 s"
    and idx: "\<forall>i \<in> ids. shard_index m0 i" and card: "card ids \<le> unsigned_of_int (m_nmappers m0)"
    using inv by (simp_all add: map_inv_def)
  from step show ?thesis
  proof cases
    case (send i q c)
    have "i \<in> ids"
      using ci by (intro total_member [OF fin, of "map_pool s"])
        (simp_all add: counting_inv_def map_pool_def send)
    with idx have "shard_index m0 i" by blast
    with sj have "shard_index (ms_master s) i" by (simp add: shard_index_def same_job_def)
    with send counted_send show ?thesis by blast
  next
    case drain
    then obtain r rs where "ms_responseList s = r # rs" by (cases "ms_responseList s") auto
    with drain response_fresh [OF ci, of r] ci show ?thesis
      by (auto intro: counted_drain simp: counting_inv_def)
  next
    case clear
    then have "length (results s) = unsigned_of_int (m_nmappers m0)"
      using ci sj by (simp add: counting_inv_def same_job_def)
    with done_outstanding [OF ci fin] card have "ms_responseList s = []" by simp
    with clear show ?thesis by (simp add: counted_def map_pool_def got_call_def)
  next
    case (push r)
    then show ?thesis by (simp add: counted_push)
  next
    case (finish_call r)
    then show ?thesis by (simp add: counted_def record_map_success_effect)
  next
    case (next_call cs call cs' code reply)
    then show ?thesis by (simp add: counted_def next_call_pool)
  qed (auto simp: counted_def map_pool_def got_call_def test_map_done_def Let_def)
qed

lemma counting_step:
  assumes step: "map_step answers s t" and inv: "map_inv m0 ids answers good s"
  shows "counting_inv ids t"
proof -
  have c: "counted s t" using assms by (rule step_counted)
  have ci: "counting_inv ids s" and fin: "finite ids" and sj: "same_job m0 s"
    and idx: "\<forall>i \<in> ids. shard_index m0 i"
    using inv by (simp_all add: map_inv_def)
  have tot: "pool_total (map_pool t) = mset_set ids"
    using c ci by (auto simp: counted_def counting_inv_def dest: pool_step_total)
  have nr: "ms_nrpcs t = int (outstanding (map_pool t))"
    using c ci by (simp add: counted_def counting_inv_def)
  note base = ci [unfolded counting_inv_def]
  from step have rest: "map_wf (results t) \<and> ms_nrpcs t \<le> 11 \<and> (ms_tpc t = InNext \<longrightarrow> ms_cq t \<noteq> []) \<and>
      (ms_pc t \<in> {Clearing, Returned} \<longrightarrow> length (results t) = unsigned_of_int (m_nmappers (ms_master t)))"
  proof cases
    case (send i q c)
    have "i \<in> ids"
      using ci by (intro total_member [OF fin, of "map_pool s"])
        (simp_all add: counting_inv_def map_pool_def send)
    with idx sj have "shard_index (ms_master s) i" by (simp add: shard_index_def same_job_def)
    note e = send_map_task_effect [OF send(3) this, of c]
    show ?thesis using e base send by auto
  next
    case drain
    then obtain r rs where rs: "ms_responseList s = r # rs" by (cases "ms_responseList s") auto
    have fresh: "map_find (results s) (mr_shardId r) = None"
      using response_fresh [OF ci, of r] rs by simp
    note e = process_map_response_effect [OF rs _ fresh]
    show ?thesis using e base drain by (auto simp: map_wf_emplace)
  next
    case enter_next
    have "got_call s = []" using enter_next by (simp add: got_call_def)
    then have "ms_cq s \<noteq> []"
      using enter_next nrpcs_unsigned [OF ci] by (auto simp: outstanding_def map_pool_def)
    with base enter_next show ?thesis by auto
  next
    case (push r)
    obtain call code reply where r: "r = (call, code, reply)" by (cases r)
    note e = push_map_response_effect [OF push(2) [unfolded r], folded r]
    show ?thesis using e base push by auto
  next
    case (finish_call r)
    note e = record_map_success_effect [OF finish_call(2)]
    show ?thesis using e base finish_call by auto
  qed (use base in \<open>auto simp: test_map_done_def Let_def\<close>)
  with tot nr show ?thesis by (simp add: counting_inv_def)
qed

lemma results_step:
  assumes step: "map_step answers s t" and inv: "map_inv m0 ids answers good s"
  shows "results_inv m0 answers good t"
proof -
  have ci: "counting_inv ids s" and fin: "finite ids" and sj: "same_job m0 s"
    and idx: "\<forall>i \<in> ids. shard_index m0 i" and ri: "results_inv m0 answers good s"
    and ga: "good_answers m0 answers good"
    using inv by (simp_all add: map_inv_def)
  note base = ri [unfolded results_inv_def]
  from step show ?thesis
  proof cases
    case (send i q c)
    have i: "i \<in> ids"
      using ci by (intro total_member [OF fin, of "map_pool s"])
        (simp_all add: counting_inv_def map_pool_def send)
    with idx sj have "shard_index (ms_master s) i" by (simp add: shard_index_def same_job_def)
    note e = send_map_task_effect [OF send(3) this, of c]
    have "map_query (ms_master s) i = map_query m0 i" using sj by (simp add: map_query_def same_job_def)
    with e(5) i idx have "\<forall>c' \<in> set (ms_cq t). map_call m0 c'"
      using base send(1) by (auto simp: map_call_def)
    with e base send(1) show ?thesis by (simp add: results_inv_def)
  next
    case drain
    then obtain r rs where rs: "ms_responseList s = r # rs" by (cases "ms_responseList s") auto
    have wf: "map_wf (results s)" using ci by (simp add: counting_inv_def)
    have fresh: "map_find (results s) (mr_shardId r) = None"
      using response_fresh [OF ci, of r] rs by simp
    note e = process_map_response_effect [OF rs wf fresh]
    show ?thesis
      using e base drain rs
      by (auto simp: results_inv_def set_map_emplace [OF wf fresh] sum_list_emplace [OF wf fresh])
  next
    case (next_call cs call cs' code reply)
    with base show ?thesis by (auto simp: results_inv_def)
  next
    case (push r)
    obtain call code reply where r: "r = (call, code, reply)" by (cases r)
    note e = push_map_response_effect [OF push(2) [unfolded r], folded r]
    have "map_call m0 call" "answers call code reply" using base push(2) r by auto
    with e(8) ga have "\<forall>r \<in> set (ms_responseList t). mr_status r = SUCCESS \<longrightarrow> good r"
      using base push(1) by (auto simp: good_answers_def)
    with e base push(1) show ?thesis by (simp add: results_inv_def)
  next
    case (finish_call r)
    note e = record_map_success_effect [OF finish_call(2)]
    show ?thesis using e base finish_call by (simp add: results_inv_def)
  qed (use base in \<open>auto simp: results_inv_def test_map_done_def Let_def\<close>)
qed

lemma map_inv_step: "map_step answers s t \<Longrightarrow> map_inv m0 ids answers good s \<Longrightarrow> map_inv m0 ids answers good t"
  using counting_step results_step same_job_step by (metis map_inv_def)

interpretation map_refines: pool_refinement "map_step answers" map_pool "map_inv m0 ids answers good"
  for answers m0 ids good
  by unfold_locales (use map_inv_step step_counted in \<open>auto simp: counted_def\<close>)

section \<open>Jobs\<close>

text \<open>A job the dispatcher is started on: the queue holds, once each, the shards that have no result
  yet; the results so far and the list of intermediate blobs agree.\<close>

definition map_job :: "Master \<Rightarrow> int list \<Rightarrow> (MapperResult \<Rightarrow> bool) \<Rightarrow> bool" where
  "map_job m job_q good \<longleftrightarrow>
     distinct job_q \<and> (\<forall>i \<in> set job_q. shard_index m i) \<and>
     map_wf (m_IntermediateResultMap m) \<and> set job_q \<inter> fst ` set (m_IntermediateResultMap m) = {} \<and>
     (\<forall>(i, r) \<in> set (m_IntermediateResultMap m). shard_index m i \<and> mr_shardId r = i \<and> good r) \<and>
     mset (m_IntblobList m) = (\<Sum>(i, r) \<leftarrow> m_IntermediateResultMap m. mset (mr_blobList r))"

definition job_ids :: "Master \<Rightarrow> int list \<Rightarrow> int set" where
  "job_ids m job_q = set job_q \<union> fst ` set (m_IntermediateResultMap m)"

lemma map_job_inv:
  assumes job: "map_job m job_q good" and ga: "good_answers m answers good"
    and card: "card (job_ids m job_q) \<le> unsigned_of_int (m_nmappers m)"
  shows "map_inv m (job_ids m job_q) answers good (start_map_dispatch job_q m)"
proof -
  let ?irm = "m_IntermediateResultMap m"
  have wf: "map_wf ?irm" and dj: "set job_q \<inter> fst ` set ?irm = {}" and d: "distinct job_q"
    using job by (simp_all add: map_job_def)
  have "mset job_q = mset_set (set job_q)" using d by (simp add: mset_set_set)
  moreover have "mset (map fst ?irm) = mset_set (fst ` set ?irm)"
    using wf mset_set_set [of "map fst ?irm"] by (simp add: map_wf_def)
  ultimately have "mset job_q + mset (map fst ?irm) = mset_set (job_ids m job_q)"
    using dj by (simp add: job_ids_def mset_set_Union)
  then have "counting_inv (job_ids m job_q) (start_map_dispatch job_q m)"
    using wf by (simp add: counting_inv_def start_map_dispatch_def pool_total_def map_pool_def
        got_call_def outstanding_def)
  moreover have "results_inv m answers good (start_map_dispatch job_q m)"
    using job by (auto simp: results_inv_def start_map_dispatch_def map_job_def)
  moreover have "same_job m (start_map_dispatch job_q m)"
    by (simp add: same_job_def start_map_dispatch_def)
  moreover have "\<forall>i \<in> job_ids m job_q. shard_index m i"
    using job by (auto simp: job_ids_def map_job_def)
  ultimately show ?thesis using ga card by (simp add: map_inv_def job_ids_def)
qed

section \<open>A dispatch can always be completed\<close>

text \<open>Further invariants of a master that is not set to fail: the completion thread runs as long as
  the outer loop does, and a result is missing whenever the dispatcher sends or waits.\<close>

definition live_inv :: "map_state \<Rightarrow> bool" where
  "live_inv s \<longleftrightarrow>
     \<not> m_will_fail (ms_master s) \<and> \<not> m_has_failed (ms_master s) \<and> ms_pc s \<noteq> Asleep \<and>
     (m_map_done (ms_master s) \<longleftrightarrow> ms_pc s \<in> {Clearing, Returned}) \<and>
     (ms_pc s \<notin> {Clearing, Returned} \<longrightarrow> ms_tpc s \<noteq> Exited) \<and>
     (ms_pc s \<in> {Sending, Waiting} \<longrightarrow>
        length (results s) \<noteq> unsigned_of_int (m_nmappers (ms_master s))) \<and>
     (ms_pc s = Waiting \<longrightarrow> ms_job_q s = [] \<or> ms_nrpcs s > 10)"

lemma check_fail_off: "\<not> m_will_fail m \<Longrightarrow> task_assigned_check_fail m = m"
  by (simp add: task_assigned_check_fail_def)

lemma live_inv_step: "map_step answers s t \<Longrightarrow> live_inv s \<Longrightarrow> live_inv t"
  by (induction rule: map_step.induct)
     (auto simp: live_inv_def action_defs Let_def check_fail_off split: prod.splits)

text \<open>How far a task is from its end when every further call succeeds.\<close>

definition response_work :: "MapperResult \<Rightarrow> nat" where
  "response_work r = (if mr_status r = SUCCESS then 1 else 5)"

definition work :: "map_state \<Rightarrow> nat" where
  "work s = 4 * length (ms_job_q s) + 3 * length (ms_cq s) +
     (case ms_tpc s of GotTag (call, code, reply) \<Rightarrow> if status_ok code then 2 else 6 | _ \<Rightarrow> 0) +
     sum_list (map response_work (ms_responseList s))"

definition phase :: "map_state \<Rightarrow> nat" where
  "phase s =
     (case ms_pc s of Draining \<Rightarrow> 4 | Testing \<Rightarrow> 3 | Sending \<Rightarrow> 2 | Waiting \<Rightarrow> 1 | _ \<Rightarrow> 0) +
     (case ms_tpc s of Pushed r \<Rightarrow> 2 | TestDone \<Rightarrow> 1 | _ \<Rightarrow> 0)"

definition closer :: "map_state \<Rightarrow> map_state \<Rightarrow> bool" where
  "closer t s \<longleftrightarrow> (t, s) \<in> measures [work, phase]"

lemma closerI: "work t < work s \<or> work t \<le> work s \<and> phase t < phase s \<Longrightarrow> closer t s"
  by (auto simp: closer_def)

lemma send_progress:
  assumes "ms_pc s = Sending" "ms_job_q s = i # q" "\<not> ms_nrpcs s > 10" "m_Clients (ms_master s) = c # cs"
    and "shard_index (ms_master s) i"
  shows "\<exists>t. (map_step answers)\<^sup>+\<^sup>+ s t \<and> closer t s"
proof -
  define s1 where "s1 = s\<lparr>ms_master := (ms_master s)\<lparr>heap :=
    setStatus c IDLE (setPingStatus c PING_SUCCESS (heap (ms_master s)))\<rparr>\<rparr>"
  have "map_step answers s s1" unfolding s1_def by (rule map_step.ping)
  moreover have "min_req_pass False (heap (ms_master s1)) (m_Clients (ms_master s1)) None \<noteq> None"
    using assms(4) by (auto simp: s1_def min_req_pass_None healthy_def cpp_defs)
  then obtain c' where "min_req_pass False (heap (ms_master s1)) (m_Clients (ms_master s1)) None = Some c'"
    by auto
  then have "map_step answers s1 (send_map_task c' s1)"
    using assms by (intro map_step.send) (auto simp: s1_def shard_index_def)
  ultimately have "(map_step answers)\<^sup>+\<^sup>+ s (send_map_task c' s1)" by auto
  moreover have "work (send_map_task c' s1) < work s"
    using assms(2) by (simp add: work_def send_map_task_def invokeMapTaskAsync_def Let_def s1_def
        split: completion_pc.splits)
  ultimately show ?thesis by (blast intro: closerI)
qed

lemma drain_progress:
  assumes "ms_pc s = Draining" "ms_responseList s = r # rs"
  shows "\<exists>t. (map_step answers)\<^sup>+\<^sup>+ s t \<and> work t < work s"
proof (intro exI conjI)
  show "(map_step answers)\<^sup>+\<^sup>+ s (process_map_response s)"
    using assms by (intro tranclp.r_into_trancl map_step.drain) auto
  show "work (process_map_response s) < work s"
    using assms(2) by (simp add: work_def process_map_response_def Let_def response_work_def
        split: completion_pc.splits)
qed

lemma waiting_progress:
  assumes "ms_pc s = Waiting" "ms_responseList s = r # rs"
  shows "\<exists>t. (map_step answers)\<^sup>+\<^sup>+ s t \<and> closer t s"
proof -
  let ?s1 = "s\<lparr>ms_pc := Draining\<rparr>"
  have "map_step answers s ?s1" using assms by (intro map_step.response_seen) auto
  moreover obtain t where "(map_step answers)\<^sup>+\<^sup>+ ?s1 t" "work t < work ?s1"
    using drain_progress [of ?s1 r rs answers] assms(2) by auto
  moreover have "work ?s1 = work s" by (simp add: work_def)
  ultimately show ?thesis by (metis closerI tranclp_into_tranclp2)
qed

lemma thread_progress:
  assumes "ms_tpc s \<noteq> Exited" "\<not> m_map_done (ms_master s)"
    and "ms_tpc s = TestDone \<longrightarrow> unsigned_of_int (ms_nrpcs s) > length (ms_responseList s)"
    and "ms_tpc s = InNext \<longrightarrow> ms_cq s \<noteq> []"
    and ok: "\<forall>c \<in> set (ms_cq s). \<exists>reply. answers c 0 reply"
  shows "\<exists>t. (map_step answers)\<^sup>+\<^sup>+ s t \<and> closer t s"
proof (cases "ms_tpc s")
  case TestDone
  then have "map_step answers s (s\<lparr>ms_tpc := InNext\<rparr>)" using assms by (intro map_step.enter_next) auto
  moreover have "closer (s\<lparr>ms_tpc := InNext\<rparr>) s"
    using TestDone by (intro closerI) (simp add: work_def phase_def)
  ultimately show ?thesis by blast
next
  case InNext
  then obtain call cs' where cq: "ms_cq s = call # cs'" using assms(4) by (cases "ms_cq s") auto
  with ok obtain reply where "answers call 0 reply" by auto
  with InNext cq have "map_step answers s (s\<lparr>ms_cq := [] @ cs', ms_tpc := GotTag (call, 0, reply)\<rparr>)"
    by (intro map_step.next_call) auto
  moreover have "closer (s\<lparr>ms_cq := [] @ cs', ms_tpc := GotTag (call, 0, reply)\<rparr>) s"
    using InNext cq by (intro closerI) (simp add: work_def)
  ultimately show ?thesis by blast
next
  case (GotTag r)
  then have "map_step answers s (push_map_response r s)" by (rule map_step.push)
  moreover have "closer (push_map_response r s) s"
    using GotTag by (intro closerI) (auto simp: work_def push_map_response_def response_work_def split: prod.splits)
  ultimately show ?thesis by blast
next
  case (Pushed r)
  then have "map_step answers s (record_map_success r s)" by (rule map_step.finish_call)
  moreover have "closer (record_map_success r s) s"
    using Pushed by (intro closerI)
      (auto simp: work_def phase_def record_map_success_def Let_def split: prod.splits)
  ultimately show ?thesis by blast
qed (use assms in auto)

text \<open>What is needed besides the invariants: a registered client, workers that can answer, and as
  many mappers as shards.\<close>

definition answerable :: "Master \<Rightarrow> (AsyncClientMapCall \<Rightarrow> int \<Rightarrow> IntermediateResult \<Rightarrow> bool) \<Rightarrow> bool" where
  "answerable m answers \<longleftrightarrow> m_Clients m \<noteq> [] \<and> (\<forall>c. map_call m c \<longrightarrow> (\<exists>reply. answers c 0 reply))"

lemma map_progress_step:
  "map_step answers s t \<Longrightarrow> closer t s \<Longrightarrow> \<exists>t. (map_step answers)\<^sup>+\<^sup>+ s t \<and> (ms_pc t = Returned \<or> closer t s)"
  by blast

lemma map_sending_progress:
  assumes inv: "map_inv m0 ids answers good s" and clients: "m_Clients (ms_master s) \<noteq> []" and pc: "ms_pc s = Sending"
  shows "\<exists>t. (map_step answers)\<^sup>+\<^sup>+ s t \<and> (ms_pc t = Returned \<or> closer t s)"
proof (cases "ms_job_q s = [] \<or> ms_nrpcs s > 10")
  case True
  then show ?thesis
    using pc by (intro map_progress_step [OF map_step.stop_sending [OF pc True]] closerI) (simp add: work_def phase_def)
next
  case False
  then obtain i q where q: "ms_job_q s = i # q" by (cases "ms_job_q s") auto
  have "finite ids" "counting_inv ids s" using inv by (simp_all add: map_inv_def)
  then have "i \<in> ids"
    by (intro total_member [of ids "map_pool s"]) (simp_all add: counting_inv_def map_pool_def q)
  then have "shard_index (ms_master s) i" using inv by (simp add: map_inv_def shard_index_def same_job_def)
  with pc q False clients show ?thesis by (metis send_progress neq_Nil_conv)
qed

lemma map_waiting_progress:
  assumes inv: "map_inv m0 ids answers good s" and live: "live_inv s" and pc: "ms_pc s = Waiting"
    and card: "card ids = unsigned_of_int (m_nmappers m0)"
    and ok: "\<forall>c \<in> set (ms_cq s). \<exists>reply. answers c 0 reply"
  shows "\<exists>t. (map_step answers)\<^sup>+\<^sup>+ s t \<and> closer t s"
proof (cases "ms_responseList s")
  case Nil
  have ci: "counting_inv ids s" using inv by (simp add: map_inv_def)
  show ?thesis
  proof (rule thread_progress)
    show "ms_tpc s \<noteq> Exited" "\<not> m_map_done (ms_master s)" using live pc by (auto simp: live_inv_def)
    show "ms_tpc s = InNext \<longrightarrow> ms_cq s \<noteq> []" using ci by (simp add: counting_inv_def)
    have "size (pool_total (map_pool s)) = card ids" using ci by (simp add: counting_inv_def)
    moreover have "length (results s) \<noteq> card ids" "ms_job_q s = [] \<or> ms_nrpcs s > 10"
      using live pc card inv by (auto simp: live_inv_def map_inv_def same_job_def)
    moreover have "ms_nrpcs s = int (outstanding (map_pool s))" using ci by (simp add: counting_inv_def)
    ultimately have "outstanding (map_pool s) > 0"
      by (auto simp: pool_total_def outstanding_def map_pool_def)
    then show "ms_tpc s = TestDone \<longrightarrow> unsigned_of_int (ms_nrpcs s) > length (ms_responseList s)"
      using nrpcs_unsigned [OF ci] Nil by simp
  qed (rule ok)
qed (rule waiting_progress [OF pc])

lemma map_draining_progress:
  assumes pc: "ms_pc s = Draining"
  shows "\<exists>t. (map_step answers)\<^sup>+\<^sup>+ s t \<and> closer t s"
proof (cases "ms_responseList s")
  case Nil
  have "closer (s\<lparr>ms_pc := Testing\<rparr>) s" using pc by (intro closerI) (simp add: work_def phase_def)
  with map_step.drained [OF pc Nil] show ?thesis by blast
next
  case Cons
  with drain_progress [OF pc Cons] show ?thesis by (blast intro: closerI)
qed

lemma map_progress:
  assumes inv: "map_inv m0 ids answers good s" and live: "live_inv s" and ans: "answerable m0 answers"
    and card: "card ids = unsigned_of_int (m_nmappers m0)" and pc: "ms_pc s \<noteq> Returned"
  shows "\<exists>t. (map_step answers)\<^sup>+\<^sup>+ s t \<and> (ms_pc t = Returned \<or> closer t s)"
proof (cases "ms_pc s")
  case Sending
  have "m_Clients (ms_master s) \<noteq> []" using inv ans by (simp add: answerable_def map_inv_def same_job_def)
  from map_sending_progress [OF inv this Sending] show ?thesis .
next
  case Waiting
  have "\<forall>c \<in> set (ms_cq s). \<exists>reply. answers c 0 reply"
    using inv ans by (auto simp: map_inv_def results_inv_def answerable_def)
  from map_waiting_progress [OF inv live Waiting card this] show ?thesis by blast
next
  case Draining
  from map_draining_progress [OF this] show ?thesis by blast
next
  case Testing
  then show ?thesis by (intro map_progress_step [OF map_step.test [OF Testing]] closerI)
      (simp add: work_def phase_def test_map_done_def Let_def)
next
  case Clearing
  then have "map_step answers s (s\<lparr>ms_responseList := [], ms_pc := Returned\<rparr>)" by (rule map_step.clear)
  then have "(map_step answers)\<^sup>+\<^sup>+ s (s\<lparr>ms_responseList := [], ms_pc := Returned\<rparr>)" by blast
  then show ?thesis by (metis map_state.select_convs(6) map_state.surjective map_state.update_convs(6))
qed (use pc live in \<open>auto simp: live_inv_def\<close>)

lemma map_completes:
  assumes "map_inv m0 ids answers good s" "live_inv s" "answerable m0 answers"
    and "card ids = unsigned_of_int (m_nmappers m0)"
  shows "\<exists>t. (map_step answers)\<^sup>*\<^sup>* s t \<and> ms_pc t = Returned"
  using assms(1,2)
proof (induction s rule: wf_induct_rule [OF wf_measures [of "[work, phase]"]])
  case (1 s)
  show ?case
  proof (cases "ms_pc s = Returned")
    case False
    then obtain t where t: "(map_step answers)\<^sup>+\<^sup>+ s t" "ms_pc t = Returned \<or> closer t s"
      using map_progress [OF 1(2,3) assms(3,4)] by blast
    have inv: "map_inv m0 ids answers good t"
      using map_refines.steps_inv [OF tranclp_into_rtranclp [OF t(1)] 1(2)] .
    have "live_inv t" using t(1) 1(3)
      by (induction rule: tranclp_induct) (auto intro: live_inv_step)
    with inv t 1(1) [of t] show ?thesis
      by (metis closer_def rtranclp_trans tranclp_into_rtranclp)
  qed auto
qed

lemma live_start:
  assumes "\<not> m_will_fail m" "\<not> m_has_failed m" "length (m_IntermediateResultMap m) \<noteq> unsigned_of_int (m_nmappers m)"
  shows "live_inv (start_map_dispatch job_q m)"
  using assms by (simp add: live_inv_def start_map_dispatch_def)

section \<open>Correctness of the map phase\<close>

definition indexed_shards :: "Master \<Rightarrow> bool" where
  "indexed_shards m \<longleftrightarrow> (\<forall>k < length (m_shards m). fs_shardId (m_shards m ! k) = int k)"

abbreviation cleared :: "Master \<Rightarrow> Master" where
  "cleared m \<equiv> m\<lparr>m_IntblobList := [], m_IntermediateResultMap := []\<rparr>"

lemma cleared_calls [simp]:
  "map_call (cleared m) c = map_call m c" "good_answers (cleared m) answers good = good_answers m answers good"
  by (simp_all add: map_call_def good_answers_def shard_index_def map_query_def)

lemma runMapper_job:
  assumes "indexed_shards m"
  shows "map_job (cleared m) (map int [0..<length (m_shards m)]) good"
    "job_ids (cleared m) (map int [0..<length (m_shards m)]) = int ` {0..<length (m_shards m)}"
  using assms
  by (auto simp: map_job_def job_ids_def shard_index_def indexed_shards_def distinct_map)

lemma runMapper_inv:
  assumes "indexed_shards m" "good_answers m answers good"
    and "length (m_shards m) \<le> unsigned_of_int (m_nmappers m)"
  shows "map_inv (cleared m) (int ` {0..<length (m_shards m)}) answers good (runMapper m)"
proof -
  have "card (int ` {0..<length (m_shards m)}) = length (m_shards m)"
    by (simp add: card_image)
  then show ?thesis
    using map_job_inv [OF runMapper_job(1) [OF assms(1)], of answers good] assms runMapper_job(2) [OF assms(1)]
    by (simp add: runMapper_def)
qed

lemma runMapper_live:
  assumes "\<not> m_will_fail m" "\<not> m_has_failed m" "0 < unsigned_of_int (m_nmappers m)"
  shows "live_inv (runMapper m)"
  using assms live_start [of "cleared m"] by (simp add: runMapper_def)

text \<open>The invariants of every state of a job, whatever the workers answer.\<close>

lemma map_run_inv:
  assumes "indexed_shards m" "length (m_shards m) \<le> unsigned_of_int (m_nmappers m)" "(map_step answers)\<^sup>*\<^sup>* (runMapper m) s"
  shows "map_inv (cleared m) (int ` {0..<length (m_shards m)}) answers (\<lambda>_. True) s"
proof -
  have "good_answers m answers (\<lambda>_. True)" by (simp add: good_answers_def)
  then show ?thesis using map_refines.steps_inv [OF assms(3)] runMapper_inv [OF assms(1)] assms(2) by simp
qed

lemma live_steps: "(map_step answers)\<^sup>*\<^sup>* s t \<Longrightarrow> live_inv s \<Longrightarrow> live_inv t"
  by (induction rule: rtranclp_induct) (auto intro: live_inv_step)

lemma map_run_live:
  assumes "\<not> m_will_fail m" "\<not> m_has_failed m" "0 < unsigned_of_int (m_nmappers m)" "(map_step answers)\<^sup>*\<^sup>* (runMapper m) s"
  shows "live_inv s"
  using live_steps [OF assms(4)] runMapper_live [OF assms(1-3)] .

text \<open>What the invariant says of a dispatch that has returned.\<close>

lemma dispatch_result:
  assumes inv: "map_inv m0 (int ` {0..<n}) answers good s" and n: "unsigned_of_int (m_nmappers m0) = n"
    and "ms_pc s = Returned"
  shows "map fst (results s) = map int [0..<n] \<and>
    (\<forall>(i, r) \<in> set (results s). mr_shardId r = i \<and> good r) \<and>
    mset (m_IntblobList (ms_master s)) = (\<Sum>(i, r) \<leftarrow> results s. mset (mr_blobList r)) \<and>
    ms_job_q s = [] \<and> ms_cq s = [] \<and> got_call s = [] \<and> ms_responseList s = [] \<and>
    ms_nrpcs s = 0 \<and> ms_tpc s \<noteq> InNext"
proof -
  have ci: "counting_inv (int ` {0..<n}) s" and ri: "results_inv m0 answers good s"
    and nm: "m_nmappers (ms_master s) = m_nmappers m0"
    using inv by (simp_all add: map_inv_def same_job_def)
  have len: "length (results s) = n" using ci assms(2,3) nm by (simp add: counting_inv_def)
  then have "card (int ` {0..<n}) \<le> length (results s)" by (simp add: card_image)
  note d = done_outstanding [OF ci _ this]
  have "sorted (map fst (results s))" "distinct (map fst (results s))"
    using ci by (simp_all add: counting_inv_def map_wf_def)
  moreover have "sorted (map int [0..<n])" by (simp add: sorted_map sorted_upt)
  moreover have "distinct (map int [0..<n])" by (simp add: distinct_map)
  moreover have "set (map int [0..<n]) = set (map fst (results s))" using d(5) by simp
  ultimately have "map fst (results s) = map int [0..<n]"
    using sorted_distinct_set_unique by blast
  then show ?thesis
    using d ri ci by (auto simp: results_inv_def counting_inv_def outstanding_def map_pool_def)
qed

lemma map_phase_result:
  assumes "indexed_shards m" "good_answers m answers good"
    and "unsigned_of_int (m_nmappers m) = length (m_shards m)"
    and "(map_step answers)\<^sup>*\<^sup>* (runMapper m) s" "ms_pc s = Returned"
  shows "map fst (results s) = map int [0..<length (m_shards m)] \<and>
    (\<forall>(i, r) \<in> set (results s). mr_shardId r = i \<and> good r) \<and>
    mset (m_IntblobList (ms_master s)) = (\<Sum>(i, r) \<leftarrow> results s. mset (mr_blobList r)) \<and>
    ms_job_q s = [] \<and> ms_cq s = [] \<and> got_call s = [] \<and> ms_responseList s = [] \<and>
    ms_nrpcs s = 0 \<and> ms_tpc s \<noteq> InNext"
proof -
  have "map_inv (cleared m) (int ` {0..<length (m_shards m)}) answers good s"
    using map_refines.steps_inv [OF assms(4)] runMapper_inv [OF assms(1,2)] assms(3) by simp
  from dispatch_result [OF this _ assms(5)] assms(3) show ?thesis by simp
qed

text \<open>
  C6: When \<open>dispatchMapTasks\<close> returns from a job with as many shards as mappers, there is exactly
  one result per shard, in shard order, each an answer a worker gave to the request for that shard;
  the list of intermediate blobs holds the blobs of these answers and no others; nothing is queued,
  in flight or unanswered, whatever the interleaving and however many calls failed or timed out before;
  and the completion thread is not blocked, as long as a response is taken from the list in one step
  (\<open>DrainRace\<close> shows what happens otherwise).
\<close>

theorem map_phase_complete:
  assumes "indexed_shards m" "good_answers m answers good"
    and "unsigned_of_int (m_nmappers m) = length (m_shards m)"
    and "(map_step answers)\<^sup>*\<^sup>* (runMapper m) s" "ms_pc s = Returned"
  shows "map fst (results s) = map int [0..<length (m_shards m)] \<and>
    (\<forall>(i, r) \<in> set (results s). mr_shardId r = i \<and> good r) \<and>
    mset (m_IntblobList (ms_master s)) = (\<Sum>(i, r) \<leftarrow> results s. mset (mr_blobList r)) \<and>
    ms_job_q s = [] \<and> ms_cq s = [] \<and> got_call s = [] \<and> ms_responseList s = [] \<and>
    ms_nrpcs s = 0 \<and> ms_tpc s \<noteq> InNext"
  using assms by (rule map_phase_result)

lemma map_dispatch_completes:
  assumes "indexed_shards m" "answerable m answers" "\<not> m_will_fail m" "\<not> m_has_failed m"
    and "unsigned_of_int (m_nmappers m) = length (m_shards m)" "0 < length (m_shards m)"
    and "(map_step answers)\<^sup>*\<^sup>* (runMapper m) s"
  shows "\<exists>t. (map_step answers)\<^sup>*\<^sup>* s t \<and> ms_pc t = Returned"
proof -
  have "map_inv (cleared m) (int ` {0..<length (m_shards m)}) answers (\<lambda>_. True) s"
    using map_run_inv [OF assms(1) _ assms(7)] assms(5) by simp
  moreover have "live_inv s" using map_run_live [OF assms(3,4) _ assms(7)] assms(5,6) by simp
  moreover have "answerable (cleared m) answers" using assms(2) by (simp add: answerable_def)
  ultimately show ?thesis using map_completes assms(5) by (simp add: card_image)
qed

text \<open>
  C7: A job with as many shards as mappers can be completed from every state a dispatch can reach,
  however many calls have failed so far: the threads cannot get stuck or lose the task they wait for,
  as long as the master is not set to fail, a client is registered and workers can answer.
\<close>

theorem map_phase_completes:
  assumes "indexed_shards m" "answerable m answers" "\<not> m_will_fail m" "\<not> m_has_failed m"
    and "unsigned_of_int (m_nmappers m) = length (m_shards m)" "0 < length (m_shards m)"
    and "(map_step answers)\<^sup>*\<^sup>* (runMapper m) s"
  shows "\<exists>t. (map_step answers)\<^sup>*\<^sup>* s t \<and> ms_pc t = Returned"
  using assms by (rule map_dispatch_completes)

lemma map_run_job:
  assumes "indexed_shards m" "(map_step answers)\<^sup>*\<^sup>* (runMapper m) s"
    and "unsigned_of_int (m_nmappers m) = length (m_shards m)"
  shows "m_nreducers (ms_master s) = m_nreducers m" "m_Clients (ms_master s) = m_Clients m"
  using map_run_inv [OF assms(1) _ assms(2)] assms(3) by (simp_all add: map_inv_def same_job_def)

lemma map_run_keeps:
  assumes "indexed_shards m" "(map_step answers)\<^sup>*\<^sup>* (runMapper m) s" "\<not> m_will_fail m" "\<not> m_has_failed m"
    and "unsigned_of_int (m_nmappers m) = length (m_shards m)" "0 < length (m_shards m)"
  shows "m_nreducers (ms_master s) = m_nreducers m" "m_Clients (ms_master s) = m_Clients m"
    "\<not> m_will_fail (ms_master s)" "\<not> m_has_failed (ms_master s)"
  using map_run_job [OF assms(1,2,5)] map_run_live [OF assms(3,4) _ assms(2)] assms(5,6)
  by (simp_all add: live_inv_def)

text \<open>A master with two clients and two shards, and workers that always answer.\<close>

definition demo_master :: Master where
  "demo_master = (new_Master 0 (\<lambda>_. new_MapReduceClient [] PING_FAIL))
     \<lparr>m_Clients := [ClientPtr 0, ClientPtr 1], m_nmappers := 2, m_nreducers := 1,
      m_shards := [new_FileShard 0 [new_ShardData ''a'' 0 4], new_FileShard 1 [new_ShardData ''a'' 4 6]]\<rparr>"

lemma demo_master_simps:
  "indexed_shards demo_master" "\<not> m_will_fail demo_master" "\<not> m_has_failed demo_master"
  "unsigned_of_int (m_nmappers demo_master) = length (m_shards demo_master)"
  "length (m_shards demo_master) = 2" "m_Clients demo_master = [ClientPtr 0, ClientPtr 1]"
  by (auto simp: demo_master_def new_Master_def indexed_shards_def new_FileShard_def unsigned_of_int_def
      less_Suc_eq nth_Cons')

text \<open>Workers that answer with one blob named after the shard, or fail.\<close>

definition demo_answers :: "AsyncClientMapCall \<Rightarrow> int \<Rightarrow> IntermediateResult \<Rightarrow> bool" where
  "demo_answers c code reply \<longleftrightarrow>
     code = 0 \<and> reply = \<lparr>ir_containername = ''int'', ir_blobs = [to_string (mc_shardId c)]\<rparr> \<or> code = 14"

definition demo_good :: "MapperResult \<Rightarrow> bool" where
  "demo_good r \<longleftrightarrow> mr_blobList r = [to_string (mr_shardId r)]"

lemma demo_answerable: "answerable demo_master demo_answers"
  by (simp add: answerable_def demo_master_simps demo_answers_def)

lemma demo_good_answers: "good_answers demo_master demo_answers demo_good"
  by (simp add: good_answers_def demo_answers_def demo_good_def map_result_def)

theorem map_phase_completes_witness:
  "\<exists>t. (map_step demo_answers)\<^sup>*\<^sup>* (runMapper demo_master) t \<and> ms_pc t = Returned"
  by (rule map_phase_completes [OF demo_master_simps(1) demo_answerable])
     (simp_all add: demo_master_simps)

lemma demo_run: "\<exists>t. (map_step demo_answers)\<^sup>*\<^sup>* (runMapper demo_master) t \<and> ms_pc t = Returned"
proof (rule map_completes)
  show "map_inv (cleared demo_master) (int ` {0..<2}) demo_answers demo_good (runMapper demo_master)"
    using runMapper_inv [OF demo_master_simps(1) demo_good_answers] by (simp add: demo_master_simps)
  show "live_inv (runMapper demo_master)"
    by (rule runMapper_live) (simp_all add: demo_master_simps)
  show "answerable (cleared demo_master) demo_answers"
    using demo_answerable by (simp add: answerable_def)
  show "card (int ` {0..<2}) = unsigned_of_int (m_nmappers (cleared demo_master))"
    by (simp add: demo_master_simps card_image)
qed

theorem map_phase_complete_witness:
  "\<exists>s. (map_step demo_answers)\<^sup>*\<^sup>* (runMapper demo_master) s \<and> ms_pc s = Returned \<and>
    map fst (results s) = [0, 1] \<and> mset (m_IntblobList (ms_master s)) = {#to_string 0, to_string 1#}"
proof -
  obtain s where s: "(map_step demo_answers)\<^sup>*\<^sup>* (runMapper demo_master) s" "ms_pc s = Returned"
    using demo_run by blast
  note r = map_phase_complete [OF demo_master_simps(1) demo_good_answers demo_master_simps(4) s]
  have keys: "map fst (results s) = [0, 1]"
    using r [THEN conjunct1] by (simp add: demo_master_simps upt_conv_Cons)
  then obtain r0 r1 where res: "results s = [(0, r0), (1, r1)]" by (auto simp: map_eq_Cons_conv)
  have good: "mr_shardId r0 = 0" "demo_good r0" "mr_shardId r1 = 1" "demo_good r1"
    using r [THEN conjunct2, THEN conjunct1] unfolding res by simp_all
  have "mset (m_IntblobList (ms_master s)) = (\<Sum>(i, r) \<leftarrow> results s. mset (mr_blobList r))"
    using r by blast
  moreover have "mr_blobList r0 = [to_string 0]" "mr_blobList r1 = [to_string 1]"
    using good by (simp_all only: demo_good_def)
  moreover have "(\<Sum>(i, r) \<leftarrow> [(0 :: int, r0), (1, r1)]. mset (mr_blobList r)) =
      mset (mr_blobList r0) + mset (mr_blobList r1)" by simp
  moreover have "mset [a] + mset [b] = {#a, b#}" for a b :: string by simp
  ultimately have "mset (m_IntblobList (ms_master s)) = {#to_string 0, to_string 1#}"
    by (simp only: res)
  with s keys show ?thesis by (intro exI [of _ s] conjI)
qed



text \<open>
  C36: With fewer shards than mappers, \<open>dispatchMapTasks\<close> never returns: it waits for one result
  per mapper, and only shards have results.
\<close>

theorem short_job_never_returns:
  assumes "indexed_shards m" "length (m_shards m) < unsigned_of_int (m_nmappers m)"
    and "(map_step answers)\<^sup>*\<^sup>* (runMapper m) s"
  shows "ms_pc s \<noteq> Clearing \<and> ms_pc s \<noteq> Returned"
proof -
  let ?ids = "int ` {0..<length (m_shards m)}"
  have "map_inv (cleared m) ?ids answers (\<lambda>_. True) s" using map_run_inv [OF assms(1) _ assms(3)] assms(2) by simp
  then have ci: "counting_inv ?ids s" and nm: "m_nmappers (ms_master s) = m_nmappers m"
    by (simp_all add: map_inv_def same_job_def)
  have "size (pool_total (map_pool s)) = length (m_shards m)"
    using ci by (simp add: counting_inv_def card_image)
  then have "length (results s) \<le> length (m_shards m)" by (simp add: pool_total_def map_pool_def)
  with assms(2) nm have "length (results s) \<noteq> unsigned_of_int (m_nmappers (ms_master s))" by simp
  with ci show ?thesis by (simp add: counting_inv_def)
qed

theorem short_job_never_returns_witness:
  "\<not> (\<exists>s. (map_step demo_answers)\<^sup>*\<^sup>* (runMapper (demo_master\<lparr>m_nmappers := 3\<rparr>)) s \<and> ms_pc s = Returned)"
proof -
  have "indexed_shards (demo_master\<lparr>m_nmappers := 3\<rparr>)"
    using demo_master_simps(1) by (simp add: indexed_shards_def)
  then show ?thesis
    using short_job_never_returns [of "demo_master\<lparr>m_nmappers := 3\<rparr>" demo_answers]
    by (auto simp: demo_master_simps unsigned_of_int_def)
qed

section \<open>Starting with an empty queue\<close>

definition idle_inv :: "map_state \<Rightarrow> bool" where
  "idle_inv s \<longleftrightarrow>
     ms_pc s \<in> {Sending, Waiting} \<and> ms_job_q s = [] \<and> ms_cq s = [] \<and> ms_responseList s = [] \<and>
     ms_nrpcs s = 0 \<and> ms_tpc s = TestDone \<and> \<not> m_map_done (ms_master s)"

lemma idle_step: "map_step answers s t \<Longrightarrow> idle_inv s \<Longrightarrow> idle_inv t"
  by (induction rule: map_step.induct) (auto simp: idle_inv_def unsigned_of_int_def)

lemma idle_start: "idle_inv (start_map_dispatch [] m)"
  by (simp add: start_map_dispatch_def idle_inv_def)

interpretation idle: invariant_system "\<lambda>s. \<exists>m. s = start_map_dispatch [] m" "map_step answers" idle_inv
  for answers
  by unfold_locales (auto intro: idle_step idle_start)

text \<open>
  A dispatch that is started with nothing to do never returns, even when every result is
  already there: the dispatcher busy-waits for a first response before it looks at the results.
  A new leader that took over after the last map task is in this position.
\<close>

theorem empty_dispatch_never_returns:
  "(map_step answers)\<^sup>*\<^sup>* (start_map_dispatch [] m) s \<Longrightarrow> ms_pc s = Sending \<or> ms_pc s = Waiting"
  using idle.steps_inv [OF _ idle_start, of answers m s] by (simp add: idle_inv_def)

theorem empty_dispatch_never_returns_witness:
  "\<not> (\<exists>s. (map_step demo_answers)\<^sup>*\<^sup>* (start_map_dispatch [] demo_master) s \<and> ms_pc s = Returned)"
  using empty_dispatch_never_returns [of demo_answers demo_master] by fastforce

end
