(* ===== verification/ReduceDispatch.thy ===== *)
theory ReduceDispatch
  imports MapDispatch
begin

text \<open>
  \<^verbatim>\<open>Master::dispatchReduceTasks\<close>, \<^verbatim>\<open>Master::runReducer\<close> and the completion
  thread \<^verbatim>\<open>AsyncCompleteReduceRpc\<close> (\<^verbatim>\<open>w7/src/master/masterimpl.cc\<close>), in the
  same style as the map phase. A reducer is sent the intermediate blobs whose name ends in its
  number; successful responses stay in the list until all tasks are done.
\<close>

section \<open>The blobs of a reducer\<close>

text \<open>\<^verbatim>\<open>int r = std::stol(item_suffix)\<close> throws on a name without a number.\<close>

definition blob_reducer :: "string \<Rightarrow> int result" where
  "blob_reducer item =
     rbind (after_last (CHR ''_'') item) (\<lambda>item_suffix.
       rbind (stol item_suffix) (\<lambda>r. Inr (to_int32 r)))"

fun reduce_blob_vec :: "int \<Rightarrow> string list \<Rightarrow> string list result" where
  "reduce_blob_vec jobid [] = Inr []"
| "reduce_blob_vec jobid (item # items) =
     rbind (blob_reducer item) (\<lambda>r.
     rbind (reduce_blob_vec jobid items) (\<lambda>rest.
       Inr (if r \<noteq> jobid then rest else item # rest)))"

section \<open>State\<close>

text \<open>Where the dispatcher is: in the sending loop, in the busy wait, in the scan of the responses at
  an index, at the test after it, behind the outer loop, after the return, asleep in
  \<open>enter_fail_state\<close>, or left by an exception.\<close>

datatype reduce_pc =
    RSending | RWaiting | RScanning nat | RTesting | RCollecting | RReturned | RAsleep | RThrown

type_synonym reduce_reply = "AsyncClientReduceCall \<times> int \<times> FinalResult"

record reduce_state =
  rs_master :: Master
  rs_job_q :: "int list"
  rs_cq :: "AsyncClientReduceCall list"
  rs_responseList :: "ReduceResult list"
  rs_nrpcs :: int
  rs_done :: bool
  rs_pc :: reduce_pc
  rs_tpc :: "reduce_reply completion_pc"

definition start_reduce_dispatch :: "int list \<Rightarrow> Master \<Rightarrow> reduce_state" where
  "start_reduce_dispatch job_q m =
     \<lparr>rs_master = m\<lparr>m_OutputResultMap := []\<rparr>, rs_job_q = job_q, rs_cq = [], rs_responseList = [],
      rs_nrpcs = 0, rs_done = False, rs_pc = RSending, rs_tpc = TestDone\<rparr>"

text \<open>\<^verbatim>\<open>runReducer\<close> up to the loop of \<open>dispatchReduceTasks\<close>.\<close>

definition runReducer :: "Master \<Rightarrow> reduce_state" where
  "runReducer m = start_reduce_dispatch (map int [0..<nat (m_nreducers m)]) m"

text \<open>The test of the sending loop in unsigned arithmetic.\<close>

definition too_many_outstanding :: "reduce_state \<Rightarrow> bool" where
  "too_many_outstanding s \<longleftrightarrow>
     unsigned_of_int (rs_nrpcs s - int (length (rs_responseList s))) > length (m_Clients (rs_master s))"

text \<open>The body of the sending loop, for the blobs selected and the client found. The failure check
  comes before the task leaves the queue.\<close>

definition send_reduce_task :: "string list \<Rightarrow> client_ptr \<Rightarrow> reduce_state \<Rightarrow> reduce_state" where
  "send_reduce_task vec client s =
     (let m = rs_master s; jobid = hd (rs_job_q s);
          (h, cq) = invokeReduceTaskAsync client vec (m_intcontainer m) (m_rid m) jobid
                      (setStatus client REDUCE_RUNNING (heap m), rs_cq s);
          m2 = task_assigned_check_fail (m\<lparr>heap := h\<rparr>);
          s' = s\<lparr>rs_master := m2, rs_cq := cq, rs_nrpcs := rs_nrpcs s + 1\<rparr>
      in if m_has_failed m2 then s'\<lparr>rs_pc := RAsleep\<rparr> else s'\<lparr>rs_job_q := tl (rs_job_q s)\<rparr>)"

text \<open>One iteration of the scan: failed tasks go back to the queue, successes stay.\<close>

definition scan_response :: "nat \<Rightarrow> reduce_state \<Rightarrow> reduce_state" where
  "scan_response k s =
     (let res = rs_responseList s ! k in
      if rr_status res \<noteq> SUCCESS
      then s\<lparr>rs_job_q := rs_job_q s @ [rr_jobid res],
             rs_responseList := take k (rs_responseList s) @ drop (Suc k) (rs_responseList s),
             rs_nrpcs := rs_nrpcs s - 1\<rparr>
      else s\<lparr>rs_pc := RScanning (Suc k)\<rparr>)"

definition test_reduce_done :: "reduce_state \<Rightarrow> reduce_state" where
  "test_reduce_done s =
     (if length (rs_job_q s) = 0 then s\<lparr>rs_done := True, rs_pc := RCollecting\<rparr>
      else s\<lparr>rs_pc := RSending\<rparr>)"

text \<open>The last loop, over all responses.\<close>

definition collect_outputs :: "reduce_state \<Rightarrow> reduce_state" where
  "collect_outputs s =
     s\<lparr>rs_master := (rs_master s)\<lparr>m_OutputResultMap :=
         fold (\<lambda>res out. if rr_status res \<noteq> SUCCESS then out
                         else map_emplace (rr_jobid res) (rr_cname res) out)
           (rs_responseList s) (m_OutputResultMap (rs_master s))\<rparr>,
       rs_pc := RReturned\<rparr>"

section \<open>The completion thread\<close>

text \<open>The constructor of \<open>ReduceResult\<close> takes the blob before the container, the call passes the
  container first.\<close>

definition push_reduce_response :: "reduce_reply \<Rightarrow> reduce_state \<Rightarrow> reduce_state" where
  "push_reduce_response r s =
     (case r of (call, code, reply) \<Rightarrow>
        (let m = rs_master s in
         if status_ok code
         then s\<lparr>rs_master := m\<lparr>heap := setStatus (rc_client call) REDUCE_DONE (heap m)\<rparr>,
                rs_responseList := rs_responseList s @
                  [new_ReduceResult SUCCESS (fr_containername reply) (fr_blobname reply) (rc_jobid call) False],
                rs_tpc := TestDone\<rparr>
         else s\<lparr>rs_master := m\<lparr>heap := fail_client (rc_client call) code (heap m)\<rparr>,
                rs_responseList := rs_responseList s @
                  [new_ReduceResult (if deadline_exceeded code then TIMEDOUT else FAILED) [] []
                     (rc_jobid call) False],
                rs_tpc := TestDone\<rparr>))"

section \<open>The steps\<close>

inductive reduce_step ::
    "(AsyncClientReduceCall \<Rightarrow> int \<Rightarrow> FinalResult \<Rightarrow> bool) \<Rightarrow> reduce_state \<Rightarrow> reduce_state \<Rightarrow> bool"
  for answers where
  send: "\<lbrakk>rs_pc s = RSending; rs_job_q s = i # q; \<not> too_many_outstanding s;
      reduce_blob_vec i (m_IntblobList (rs_master s)) = Inr vec;
      min_req_pass True (heap (rs_master s)) (m_Clients (rs_master s)) None = Some c\<rbrakk> \<Longrightarrow>
    reduce_step answers s (send_reduce_task vec c s)"
| throw: "\<lbrakk>rs_pc s = RSending; rs_job_q s = i # q; \<not> too_many_outstanding s;
      reduce_blob_vec i (m_IntblobList (rs_master s)) = Inl e\<rbrakk> \<Longrightarrow>
    reduce_step answers s (s\<lparr>rs_pc := RThrown\<rparr>)"
| stop_sending: "\<lbrakk>rs_pc s = RSending; rs_job_q s = [] \<or> too_many_outstanding s\<rbrakk> \<Longrightarrow>
    reduce_step answers s (s\<lparr>rs_pc := RWaiting\<rparr>)"
| all_answered: "\<lbrakk>rs_pc s = RWaiting; length (rs_responseList s) = unsigned_of_int (rs_nrpcs s)\<rbrakk> \<Longrightarrow>
    reduce_step answers s (s\<lparr>rs_pc := RScanning 0\<rparr>)"
| scan: "\<lbrakk>rs_pc s = RScanning k; k < length (rs_responseList s)\<rbrakk> \<Longrightarrow>
    reduce_step answers s (scan_response k s)"
| scanned: "\<lbrakk>rs_pc s = RScanning k; \<not> k < length (rs_responseList s)\<rbrakk> \<Longrightarrow>
    reduce_step answers s (s\<lparr>rs_pc := RTesting\<rparr>)"
| test: "rs_pc s = RTesting \<Longrightarrow> reduce_step answers s (test_reduce_done s)"
| collect: "rs_pc s = RCollecting \<Longrightarrow> reduce_step answers s (collect_outputs s)"
| exit_thread: "\<lbrakk>rs_tpc s = TestDone; rs_done s\<rbrakk> \<Longrightarrow>
    reduce_step answers s (s\<lparr>rs_tpc := Exited\<rparr>)"
| enter_next: "\<lbrakk>rs_tpc s = TestDone; \<not> rs_done s;
      unsigned_of_int (rs_nrpcs s) > length (rs_responseList s)\<rbrakk> \<Longrightarrow>
    reduce_step answers s (s\<lparr>rs_tpc := InNext\<rparr>)"
| next_call: "\<lbrakk>rs_tpc s = InNext; rs_cq s = cs @ call # cs'; answers call code reply\<rbrakk> \<Longrightarrow>
    reduce_step answers s (s\<lparr>rs_cq := cs @ cs', rs_tpc := GotTag (call, code, reply)\<rparr>)"
| push: "rs_tpc s = GotTag r \<Longrightarrow> reduce_step answers s (push_reduce_response r s)"
| ping: "reduce_step answers s
    (s\<lparr>rs_master := (rs_master s)\<lparr>heap := setStatus p cst (setPingStatus p pst (heap (rs_master s)))\<rparr>\<rparr>)"

section \<open>Every intermediate blob goes to one reducer\<close>

definition reducer_of :: "string \<Rightarrow> int" where
  "reducer_of item = (case blob_reducer item of Inl e \<Rightarrow> - 1 | Inr r \<Rightarrow> r)"

text \<open>The names the workers give: anything, an underscore, the number of the reducer.\<close>

definition names_reducer :: "int \<Rightarrow> string \<Rightarrow> bool" where
  "names_reducer n item \<longleftrightarrow> (\<exists>r. blob_reducer item = Inr r \<and> 0 \<le> r \<and> r < n)"

lemma blob_reducer_name:
  assumes "- (2 ^ 31) \<le> r" "r < 2 ^ 31"
  shows "blob_reducer (p @ ''_'' @ to_string r) = Inr r"
proof -
  have "after_last (CHR ''_'') (p @ ''_'' @ to_string r) = Inr (to_string r)"
    using after_last_append [of "CHR ''_''" "to_string r" p] by simp
  then show ?thesis
    using assms by (simp add: blob_reducer_def stol_to_string to_int32_id)
qed

lemma reduce_blob_vec_filter:
  "\<forall>item \<in> set items. names_reducer n item \<Longrightarrow>
     reduce_blob_vec j items = Inr (filter (\<lambda>item. reducer_of item = j) items)"
  by (induction items) (auto simp: names_reducer_def reducer_of_def)

lemma sum_filter_mset:
  assumes "\<forall>x \<in> set xs. f x \<in> set ks" "distinct ks"
  shows "(\<Sum>k \<leftarrow> ks. mset (filter (\<lambda>x. f x = k) xs)) = mset xs"
  using assms
proof (induction xs)
  case (Cons x xs)
  have "(\<Sum>k \<leftarrow> ks. mset (filter (\<lambda>y. f y = k) (x # xs))) =
      (\<Sum>k \<leftarrow> ks. (if k = f x then {#x#} else {#}) + mset (filter (\<lambda>y. f y = k) xs))"
    by (intro arg_cong [of _ _ sum_list] map_cong) auto
  also have "\<dots> = (\<Sum>k \<leftarrow> ks. if k = f x then {#x#} else {#}) + (\<Sum>k \<leftarrow> ks. mset (filter (\<lambda>y. f y = k) xs))"
    by (simp add: sum_list_addf)
  also have "(\<Sum>k \<leftarrow> ks. if k = f x then {#x#} else {#}) = {#x#}"
  proof -
    have "(\<Sum>k \<leftarrow> ks. if k = f x then {#x#} else {#}) = (if f x \<in> set ks then {#x#} else {#})"
      using Cons.prems(2) by (induction ks) auto
    then show ?thesis using Cons.prems(1) by simp
  qed
  finally show ?case using Cons by simp
qed simp

lemma reduce_vecs_partition:
  assumes "\<forall>item \<in> set blobs. names_reducer (int n) item"
  shows "\<exists>vecs. map (\<lambda>j. reduce_blob_vec (int j) blobs) [0..<n] = map Inr vecs \<and>
    (\<Sum>v \<leftarrow> vecs. mset v) = mset blobs"
proof (intro exI conjI)
  let ?vecs = "map (\<lambda>k. filter (\<lambda>item. reducer_of item = k) blobs) (map int [0..<n])"
  show "map (\<lambda>j. reduce_blob_vec (int j) blobs) [0..<n] = map Inr ?vecs"
    by (simp add: reduce_blob_vec_filter [OF assms])
  have "reducer_of item \<in> set (map int [0..<n])" if "item \<in> set blobs" for item
  proof -
    from that assms obtain r where "blob_reducer item = Inr r" "0 \<le> r" "r < int n"
      by (auto simp: names_reducer_def)
    then show ?thesis by (auto simp: reducer_of_def image_iff intro!: bexI [of _ "nat r"])
  qed
  then have "(\<Sum>k \<leftarrow> map int [0..<n]. mset (filter (\<lambda>item. reducer_of item = k) blobs)) = mset blobs"
    by (intro sum_filter_mset) (auto simp: distinct_map)
  then show "(\<Sum>v \<leftarrow> ?vecs. mset v) = mset blobs" by (simp add: comp_def)
qed

text \<open>
  When every intermediate blob carries the number of a reducer, selecting the blobs of a reducer
  never throws, and the reducers together are sent every blob exactly once.
\<close>

theorem reduce_inputs_partition:
  assumes "\<forall>item \<in> set blobs. names_reducer (int n) item"
  shows "\<exists>vecs. map (\<lambda>j. reduce_blob_vec (int j) blobs) [0..<n] = map Inr vecs \<and>
    (\<Sum>v \<leftarrow> vecs. mset v) = mset blobs"
  using assms by (rule reduce_vecs_partition)

theorem reduce_inputs_partition_witness:
  "\<exists>vecs. map (\<lambda>j. reduce_blob_vec (int j) [''int_w_0_0_1'', ''int_w_0_0_0'']) [0..<2] = map Inr vecs \<and>
    (\<Sum>v \<leftarrow> vecs. mset v) = mset [''int_w_0_0_1'', ''int_w_0_0_0'']"
proof (rule reduce_inputs_partition)
  have "blob_reducer ''int_w_0_0_1'' = Inr 1" "blob_reducer ''int_w_0_0_0'' = Inr 0" by code_simp+
  then show "\<forall>item \<in> set [''int_w_0_0_1'', ''int_w_0_0_0'']. names_reducer (int 2) item"
    by (simp add: names_reducer_def)
qed

section \<open>Refinement of the task pool\<close>

definition got_reduce_call :: "reduce_state \<Rightarrow> AsyncClientReduceCall list" where
  "got_reduce_call s = (case rs_tpc s of GotTag r \<Rightarrow> [fst r] | _ \<Rightarrow> [])"

text \<open>A master that failed had not yet taken the task it sent out of the queue.\<close>

definition reduce_pool :: "reduce_state \<Rightarrow> pool" where
  "reduce_pool s =
     \<lparr>queued = mset (if rs_pc s = RAsleep then tl (rs_job_q s) else rs_job_q s),
      flight = mset (map rc_jobid (rs_cq s @ got_reduce_call s)),
      answered = mset (map rr_jobid (rs_responseList s)), finished = {#}\<rparr>"

definition reduce_query :: "Master \<Rightarrow> int \<Rightarrow> ReducerInput" where
  "reduce_query m j =
     \<lparr>ri_req_id = to_string (m_rid m), ri_containername = m_intcontainer m, ri_reducer_id = j,
      ri_blobs = filter (\<lambda>item. reducer_of item = j) (m_IntblobList m)\<rparr>"

definition reduce_call :: "Master \<Rightarrow> AsyncClientReduceCall \<Rightarrow> bool" where
  "reduce_call m c \<longleftrightarrow> rc_query c = reduce_query m (rc_jobid c)"

definition reduce_result :: "AsyncClientReduceCall \<Rightarrow> FinalResult \<Rightarrow> ReduceResult" where
  "reduce_result c reply =
     new_ReduceResult SUCCESS (fr_containername reply) (fr_blobname reply) (rc_jobid c) False"

definition good_reduce_answers where
  "good_reduce_answers m answers good \<longleftrightarrow>
     (\<forall>c reply. reduce_call m c \<and> answers c 0 reply \<longrightarrow> good (reduce_result c reply))"

definition same_reduce_job :: "Master \<Rightarrow> reduce_state \<Rightarrow> bool" where
  "same_reduce_job m0 s \<longleftrightarrow>
     m_IntblobList (rs_master s) = m_IntblobList m0 \<and> m_intcontainer (rs_master s) = m_intcontainer m0 \<and>
     m_rid (rs_master s) = m_rid m0 \<and> m_Clients (rs_master s) = m_Clients m0"

definition reduce_counting :: "int set \<Rightarrow> reduce_state \<Rightarrow> bool" where
  "reduce_counting ids s \<longleftrightarrow>
     pool_total (reduce_pool s) = mset_set ids \<and>
     rs_nrpcs s = int (outstanding (reduce_pool s)) \<and>
     (rs_tpc s = InNext \<longrightarrow> rs_cq s \<noteq> [])"

text \<open>While the responses are scanned nothing is outstanding, and what was scanned succeeded.\<close>

definition scanning_inv :: "reduce_state \<Rightarrow> bool" where
  "scanning_inv s \<longleftrightarrow>
     (case rs_pc s of
        RScanning k \<Rightarrow> rs_cq s = [] \<and> got_reduce_call s = [] \<and> k \<le> length (rs_responseList s) \<and>
          (\<forall>r \<in> set (take k (rs_responseList s)). rr_status r = SUCCESS)
      | RTesting \<Rightarrow> rs_cq s = [] \<and> got_reduce_call s = [] \<and>
          (\<forall>r \<in> set (rs_responseList s). rr_status r = SUCCESS)
      | RCollecting \<Rightarrow> rs_cq s = [] \<and> got_reduce_call s = [] \<and> rs_job_q s = [] \<and>
          (\<forall>r \<in> set (rs_responseList s). rr_status r = SUCCESS)
      | RReturned \<Rightarrow> rs_cq s = [] \<and> got_reduce_call s = [] \<and> rs_job_q s = [] \<and>
          (\<forall>r \<in> set (rs_responseList s). rr_status r = SUCCESS)
      | RThrown \<Rightarrow> False
      | _ \<Rightarrow> True)"

definition reduce_results where
  "reduce_results m0 answers good s \<longleftrightarrow>
     (\<forall>c \<in> set (rs_cq s). reduce_call m0 c) \<and>
     (\<forall>c code reply. rs_tpc s = GotTag (c, code, reply) \<longrightarrow> reduce_call m0 c \<and> answers c code reply) \<and>
     (\<forall>r \<in> set (rs_responseList s). rr_status r = SUCCESS \<longrightarrow> good r) \<and>
     m_OutputResultMap (rs_master s) =
       (if rs_pc s = RReturned
        then fold (\<lambda>res. map_emplace (rr_jobid res) (rr_cname res)) (rs_responseList s) [] else [])"

definition reduce_inv where
  "reduce_inv m0 n good answers s \<longleftrightarrow>
     n < 2 ^ 31 \<and> (\<forall>item \<in> set (m_IntblobList m0). names_reducer (int n) item) \<and>
     good_reduce_answers m0 answers good \<and> same_reduce_job m0 s \<and>
     reduce_counting (int ` {0..<n}) s \<and> scanning_inv s \<and> reduce_results m0 answers good s"

lemma check_fail_keeps_reduce [simp]:
  "m_intcontainer (task_assigned_check_fail m) = m_intcontainer m"
  "m_OutputResultMap (task_assigned_check_fail m) = m_OutputResultMap m"
  by (simp_all add: cpp_defs)

lemmas reduce_action_defs =
  send_reduce_task_def scan_response_def test_reduce_done_def collect_outputs_def
  push_reduce_response_def

lemma same_reduce_job_step: "reduce_step answers s t \<Longrightarrow> same_reduce_job m0 s \<Longrightarrow> same_reduce_job m0 t"
  by (induction rule: reduce_step.induct)
     (auto simp: same_reduce_job_def reduce_action_defs Let_def split: prod.splits if_splits)

lemma reduce_nrpcs:
  assumes "reduce_counting (int ` {0..<n}) s" "n < 2 ^ 31"
  shows "unsigned_of_int (rs_nrpcs s) = outstanding (reduce_pool s)"
proof -
  have "size (pool_total (reduce_pool s)) = n" using assms(1) by (simp add: reduce_counting_def card_image)
  then have "outstanding (reduce_pool s) \<le> n" by (simp add: pool_total_def outstanding_def)
  then have "outstanding (reduce_pool s) < 2 ^ 64" using assms(2) by simp
  then show ?thesis using assms(1) by (simp add: reduce_counting_def unsigned_of_int_def)
qed

lemma send_reduce_pool:
  assumes "rs_pc s = RSending" "rs_job_q s = i # q"
  shows "reduce_pool (send_reduce_task vec c s) =
      (reduce_pool s)\<lparr>queued := queued (reduce_pool s) - {#i#}, flight := flight (reduce_pool s) + {#i#}\<rparr>"
    "rs_nrpcs (send_reduce_task vec c s) = rs_nrpcs s + 1"
    "rs_pc (send_reduce_task vec c s) \<in> {RSending, RAsleep}"
  using assms
  by (simp_all add: send_reduce_task_def invokeReduceTaskAsync_def Let_def reduce_pool_def got_reduce_call_def)

definition reduce_counted :: "reduce_state \<Rightarrow> reduce_state \<Rightarrow> bool" where
  "reduce_counted s t \<longleftrightarrow> (pool_step (reduce_pool s) (reduce_pool t) \<or> reduce_pool t = reduce_pool s) \<and>
     rs_nrpcs t - rs_nrpcs s = int (outstanding (reduce_pool t)) - int (outstanding (reduce_pool s))"

lemma reduce_counted_scan:
  assumes "rs_pc s = RScanning k" "k < length (rs_responseList s)"
  shows "reduce_counted s (scan_response k s)"
proof (cases "rr_status (rs_responseList s ! k) = SUCCESS")
  case True
  with assms show ?thesis
    by (simp add: reduce_counted_def scan_response_def Let_def reduce_pool_def got_reduce_call_def)
next
  case False
  let ?l = "rs_responseList s" and ?r = "rs_responseList s ! k"
  have split: "?l = take k ?l @ ?r # drop (Suc k) ?l" using assms(2) by (rule id_take_nth_drop)
  have m: "mset ?l = add_mset ?r (mset (take k ?l) + mset (drop (Suc k) ?l))"
    by (subst split) simp
  then have "image_mset rr_jobid (mset ?l) =
      add_mset (rr_jobid ?r) (image_mset rr_jobid (mset (take k ?l) + mset (drop (Suc k) ?l)))"
    by (simp only: image_mset_add_mset)
  then have a: "answered (reduce_pool s) =
      add_mset (rr_jobid ?r) (mset (map rr_jobid (take k ?l @ drop (Suc k) ?l)))"
    by (simp add: reduce_pool_def)
  then have "rr_jobid ?r \<in># answered (reduce_pool s)" by simp
  from pool_step.requeue [OF this] have "pool_step (reduce_pool s) (reduce_pool (scan_response k s))"
    using False a assms(1)
    by (simp add: scan_response_def Let_def reduce_pool_def got_reduce_call_def)
  moreover have "outstanding (reduce_pool s) = Suc (outstanding (reduce_pool (scan_response k s)))"
    using False a assms(1)
    by (simp add: scan_response_def Let_def reduce_pool_def got_reduce_call_def outstanding_def)
  ultimately show ?thesis using False by (simp add: reduce_counted_def scan_response_def Let_def)
qed

lemma reduce_counted_push:
  assumes "rs_tpc s = GotTag r"
  shows "reduce_counted s (push_reduce_response r s)"
proof -
  obtain call code reply where r: "r = (call, code, reply)" by (cases r)
  have f: "flight (reduce_pool s) = add_mset (rc_jobid call) (mset (map rc_jobid (rs_cq s)))"
    using assms by (simp add: reduce_pool_def got_reduce_call_def r)
  then have "rc_jobid call \<in># flight (reduce_pool s)" by simp
  note ps = pool_step.answer [OF this]
  moreover have "reduce_pool (push_reduce_response r s) =
      (reduce_pool s)\<lparr>flight := flight (reduce_pool s) - {#rc_jobid call#},
        answered := answered (reduce_pool s) + {#rc_jobid call#}\<rparr>"
    using assms by (simp add: push_reduce_response_def r Let_def reduce_pool_def got_reduce_call_def
        new_ReduceResult_def)
  moreover have "rs_nrpcs (push_reduce_response r s) = rs_nrpcs s"
    by (simp add: push_reduce_response_def r Let_def)
  ultimately show ?thesis
    using f by (simp add: reduce_counted_def outstanding_def)
qed

lemma reduce_step_counted: "reduce_step answers s t \<Longrightarrow> reduce_counted s t"
proof (induction rule: reduce_step.induct)
  case (send s i q vec c)
  have "i \<in># queued (reduce_pool s)" using send by (simp add: reduce_pool_def)
  from pool_step.send [OF this] show ?case
    by (simp add: reduce_counted_def send_reduce_pool [OF send(1,2)] outstanding_def)
qed (simp_all add: reduce_counted_scan reduce_counted_push,
     simp_all add: reduce_counted_def reduce_pool_def got_reduce_call_def test_reduce_done_def
       collect_outputs_def)

lemma reduce_counting_step:
  assumes step: "reduce_step answers s t" and ci: "reduce_counting (int ` {0..<n}) s" and n: "n < 2 ^ 31"
  shows "reduce_counting (int ` {0..<n}) t"
proof -
  have c: "reduce_counted s t" using step by (rule reduce_step_counted)
  have tot: "pool_total (reduce_pool t) = mset_set (int ` {0..<n})"
    using c ci by (auto simp: reduce_counted_def reduce_counting_def dest: pool_step_total)
  have nr: "rs_nrpcs t = int (outstanding (reduce_pool t))"
    using c ci by (simp add: reduce_counted_def reduce_counting_def)
  have base: "rs_tpc s = InNext \<longrightarrow> rs_cq s \<noteq> []" using ci by (simp add: reduce_counting_def)
  from step have "rs_tpc t = InNext \<longrightarrow> rs_cq t \<noteq> []"
  proof cases
    case enter_next
    then have "got_reduce_call s = []" by (simp add: got_reduce_call_def)
    then show ?thesis
      using enter_next reduce_nrpcs [OF ci n] by (auto simp: outstanding_def reduce_pool_def)
  qed (use base in \<open>auto simp: reduce_action_defs Let_def invokeReduceTaskAsync_def split: prod.splits if_splits\<close>)
  with tot nr show ?thesis by (simp add: reduce_counting_def)
qed

text \<open>Without outstanding calls the completion thread does nothing.\<close>

lemma quiet_thread:
  assumes "reduce_counting (int ` {0..<n}) s" "n < 2 ^ 31" "rs_cq s = []" "got_reduce_call s = []"
  shows "unsigned_of_int (rs_nrpcs s) = length (rs_responseList s)" "rs_tpc s \<noteq> InNext"
    "rs_tpc s \<noteq> GotTag r"
  using reduce_nrpcs [OF assms(1,2)] assms
  by (auto simp: outstanding_def reduce_pool_def reduce_counting_def got_reduce_call_def)

lemma scanning_step:
  assumes step: "reduce_step answers s t" and ci: "reduce_counting (int ` {0..<n}) s" and n: "n < 2 ^ 31"
    and si: "scanning_inv s" and sj: "same_reduce_job m0 s"
    and names: "\<forall>item \<in> set (m_IntblobList m0). names_reducer (int n) item"
  shows "scanning_inv t"
  using step
proof cases
  case (send i q vec c)
  then show ?thesis using send_reduce_pool(3) [OF send(2,3), of vec c] by (auto simp: scanning_inv_def)
next
  case (throw i q e)
  then show ?thesis using sj reduce_blob_vec_filter [OF names, of i] by (simp add: same_reduce_job_def)
next
  case all_answered
  then have "length (rs_cq s) + length (got_reduce_call s) = 0"
    using reduce_nrpcs [OF ci n] by (simp add: outstanding_def reduce_pool_def del: length_0_conv)
  with all_answered show ?thesis by (simp add: scanning_inv_def got_reduce_call_def)
next
  case (scan k)
  have "take (Suc k) (rs_responseList s) = take k (rs_responseList s) @ [rs_responseList s ! k]"
    using scan by (simp add: take_Suc_conv_app_nth)
  with scan si show ?thesis
    by (auto simp: scanning_inv_def scan_response_def Let_def got_reduce_call_def)
next
  case (scanned k)
  with si show ?thesis by (simp add: scanning_inv_def got_reduce_call_def)
next
  case enter_next
  have "rs_pc s \<noteq> RScanning k" "rs_pc s \<notin> {RTesting, RCollecting, RReturned}" for k
    using si quiet_thread(1) [OF ci n] enter_next(4) by (auto simp: scanning_inv_def)
  then show ?thesis using si enter_next by (auto simp: scanning_inv_def split: reduce_pc.splits)
next
  case (next_call cs call cs' code reply)
  then have "rs_cq s \<noteq> []" by simp
  with si next_call show ?thesis by (auto simp: scanning_inv_def split: reduce_pc.splits)
next
  case (push r)
  then have "got_reduce_call s \<noteq> []" by (simp add: got_reduce_call_def)
  with si push show ?thesis
    by (auto simp: scanning_inv_def push_reduce_response_def Let_def split: reduce_pc.splits prod.splits)
qed (use si in \<open>auto simp: scanning_inv_def test_reduce_done_def collect_outputs_def got_reduce_call_def
      split: reduce_pc.splits completion_pc.splits\<close>)

lemma fold_success:
  "\<forall>r \<in> set xs. rr_status r = SUCCESS \<Longrightarrow>
     fold (\<lambda>res out. if rr_status res \<noteq> SUCCESS then out
        else map_emplace (rr_jobid res) (rr_cname res) out) xs out =
     fold (\<lambda>res. map_emplace (rr_jobid res) (rr_cname res)) xs out"
  by (induction xs arbitrary: out) auto

lemma reduce_results_step:
  assumes step: "reduce_step answers s t" and ri: "reduce_results m0 answers good s"
    and sj: "same_reduce_job m0 s" and si: "scanning_inv s" and ga: "good_reduce_answers m0 answers good"
    and ci: "reduce_counting (int ` {0..<n}) s" and n: "n < 2 ^ 31"
    and names: "\<forall>item \<in> set (m_IntblobList m0). names_reducer (int n) item"
  shows "reduce_results m0 answers good t"
proof -
  note base = ri [unfolded reduce_results_def]
  from step show ?thesis
  proof cases
    case (send i q vec c)
    then have "vec = filter (\<lambda>item. reducer_of item = i) (m_IntblobList m0)"
      using sj reduce_blob_vec_filter [OF names, of i] by (simp add: same_reduce_job_def)
    then have "\<forall>call \<in> set (rs_cq t). reduce_call m0 call"
      using base sj send by (auto simp: send_reduce_task_def invokeReduceTaskAsync_def Let_def
          reduce_call_def reduce_query_def same_reduce_job_def)
    with base send show ?thesis
      by (simp add: reduce_results_def send_reduce_task_def invokeReduceTaskAsync_def Let_def)
  next
    case (scan k)
    with base show ?thesis
      by (auto simp: reduce_results_def scan_response_def Let_def dest: in_set_takeD in_set_dropD)
  next
    case collect
    then have "\<forall>r \<in> set (rs_responseList s). rr_status r = SUCCESS"
      using si by (simp add: scanning_inv_def)
    note fold_success [OF this]
    with base collect si show ?thesis
      by (simp add: reduce_results_def collect_outputs_def scanning_inv_def)
  next
    case (next_call cs call cs' code reply)
    with base show ?thesis by (auto simp: reduce_results_def)
  next
    case (push r)
    obtain call code reply where r: "r = (call, code, reply)" by (cases r)
    have "rs_pc s \<noteq> RReturned"
      using si push by (auto simp: scanning_inv_def got_reduce_call_def)
    moreover have "code = 0 \<Longrightarrow> good (reduce_result call reply)"
      using base push(2) ga by (auto simp: r good_reduce_answers_def)
    ultimately show ?thesis
      using base push
      by (auto simp: reduce_results_def push_reduce_response_def r Let_def reduce_result_def new_ReduceResult_def)
  qed (use base in \<open>auto simp: reduce_results_def test_reduce_done_def\<close>)
qed

lemma reduce_inv_step:
  "reduce_inv m0 n good answers s \<Longrightarrow> reduce_step answers s t \<Longrightarrow> reduce_inv m0 n good answers t"
  unfolding reduce_inv_def
  using same_reduce_job_step reduce_counting_step scanning_step reduce_results_step by metis

interpretation reduce_refines: pool_refinement "reduce_step answers" reduce_pool "reduce_inv m0 n good answers"
  for answers m0 n good
  by unfold_locales (use reduce_inv_step reduce_step_counted in \<open>auto simp: reduce_counted_def\<close>)

lemma runReducer_inv:
  assumes "m_nreducers m < 2 ^ 31" "\<forall>item \<in> set (m_IntblobList m). names_reducer (m_nreducers m) item"
    and "good_reduce_answers m answers good"
  shows "reduce_inv m (nat (m_nreducers m)) good answers (runReducer m)"
proof -
  have "\<forall>item \<in> set (m_IntblobList m). names_reducer (int (nat (m_nreducers m))) item"
    using assms(2) by (auto simp: names_reducer_def)
  moreover have "mset (map int [0..<nat (m_nreducers m)]) = mset_set (int ` {0..<nat (m_nreducers m)})"
    using mset_set_set [of "map int [0..<nat (m_nreducers m)]"] by (simp add: distinct_map)
  ultimately show ?thesis
    using assms(1,3)
    by (simp add: reduce_inv_def runReducer_def start_reduce_dispatch_def same_reduce_job_def
        reduce_counting_def pool_total_def reduce_pool_def got_reduce_call_def outstanding_def
        scanning_inv_def reduce_results_def)
qed

lemma mset_map_upt_int: "mset_set (int ` {0..<n}) = mset (map int [0..<n])"
  using mset_set_set [of "map int [0..<n]"] by (simp add: distinct_map)

lemma distinct_map_upt_int: "distinct (map int [0..<n])"
  by (simp add: distinct_map)

lemma emplace_outputs:
  "map_wf out \<Longrightarrow> distinct (map rr_jobid rs) \<Longrightarrow> set (map rr_jobid rs) \<inter> fst ` set out = {} \<Longrightarrow>
     mset (fold (\<lambda>res. map_emplace (rr_jobid res) (rr_cname res)) rs out) =
       mset out + mset (map (\<lambda>res. (rr_jobid res, rr_cname res)) rs) \<and>
     map_wf (fold (\<lambda>res. map_emplace (rr_jobid res) (rr_cname res)) rs out)"
proof (induction rs arbitrary: out)
  case (Cons r rs)
  have "map_find out (rr_jobid r) = None" using Cons.prems by (simp add: map_of_eq_None_iff)
  then show ?case
    using Cons by (auto simp: mset_map_emplace map_wf_emplace keys_map_emplace)
qed simp

lemma reduce_phase_result:
  assumes "m_nreducers m < 2 ^ 31" "\<forall>item \<in> set (m_IntblobList m). names_reducer (m_nreducers m) item"
    and "good_reduce_answers m answers good"
    and "(reduce_step answers)\<^sup>*\<^sup>* (runReducer m) s" "rs_pc s = RReturned"
  shows "map fst (m_OutputResultMap (rs_master s)) = map int [0..<nat (m_nreducers m)] \<and>
    (\<forall>(j, out) \<in> set (m_OutputResultMap (rs_master s)).
       \<exists>r. good r \<and> rr_jobid r = j \<and> rr_cname r = out \<and> rr_status r = SUCCESS) \<and>
    rs_job_q s = [] \<and> rs_cq s = [] \<and> got_reduce_call s = [] \<and> rs_tpc s \<noteq> InNext"
proof -
  let ?n = "nat (m_nreducers m)" and ?out = "m_OutputResultMap (rs_master s)"
  have inv: "reduce_inv m ?n good answers s"
    using reduce_refines.steps_inv [OF assms(4) runReducer_inv [OF assms(1-3)]] .
  then have ci: "reduce_counting (int ` {0..<?n}) s" and si: "scanning_inv s"
    and ri: "reduce_results m answers good s" by (simp_all add: reduce_inv_def)
  have quiet: "rs_cq s = []" "got_reduce_call s = []" "rs_job_q s = []"
    "\<forall>r \<in> set (rs_responseList s). rr_status r = SUCCESS"
    using si assms(5) by (simp_all add: scanning_inv_def)
  have ids: "mset (map rr_jobid (rs_responseList s)) = mset_set (int ` {0..<?n})"
    using ci quiet assms(5) by (simp add: reduce_counting_def pool_total_def reduce_pool_def)
  then have d: "distinct (map rr_jobid (rs_responseList s))"
    by (metis distinct_map_upt_int mset_eq_imp_distinct_iff mset_map_upt_int)
  have out: "?out = fold (\<lambda>res. map_emplace (rr_jobid res) (rr_cname res)) (rs_responseList s) []"
    using ri assms(5) by (simp add: reduce_results_def)
  with emplace_outputs [of "[]" "rs_responseList s"] d
  have entries: "mset ?out = mset (map (\<lambda>res. (rr_jobid res, rr_cname res)) (rs_responseList s))"
    and wf: "map_wf ?out" by simp_all
  from arg_cong [OF entries, of "image_mset fst"]
  have "mset (map fst ?out) = mset (map int [0..<?n])"
    using ids by (simp add: multiset.map_comp comp_def mset_map_upt_int)
  moreover have "sorted (map fst ?out)" "sorted (map int [0..<?n])"
    using wf by (simp_all add: map_wf_def sorted_map sorted_upt)
  ultimately have "map fst ?out = map int [0..<?n]" by (metis properties_for_sort)
  moreover have "\<exists>r. good r \<and> rr_jobid r = j \<and> rr_cname r = c \<and> rr_status r = SUCCESS"
    if "(j, c) \<in> set ?out" for j c
  proof -
    from that have "(j, c) \<in># mset (map (\<lambda>res. (rr_jobid res, rr_cname res)) (rs_responseList s))"
      using entries by (metis set_mset_mset)
    with quiet(4) ri show ?thesis by (auto simp: reduce_results_def)
  qed
  moreover have "rs_tpc s \<noteq> InNext" using ci quiet(1) by (auto simp: reduce_counting_def)
  ultimately show ?thesis using quiet by auto
qed

text \<open>
  C8: When \<open>dispatchReduceTasks\<close> returns, every reducer has exactly one entry in the output map, in
  order; the entry is the second constructor argument of an accepted result, and every accepted
  result is a worker's answer to the request that carries exactly the blobs of that reducer. Nothing
  is queued or in flight, and the completion thread is not blocked.
\<close>

theorem reduce_phase_complete:
  assumes "m_nreducers m < 2 ^ 31" "\<forall>item \<in> set (m_IntblobList m). names_reducer (m_nreducers m) item"
    and "good_reduce_answers m answers good"
    and "(reduce_step answers)\<^sup>*\<^sup>* (runReducer m) s" "rs_pc s = RReturned"
  shows "map fst (m_OutputResultMap (rs_master s)) = map int [0..<nat (m_nreducers m)] \<and>
    (\<forall>(j, out) \<in> set (m_OutputResultMap (rs_master s)).
       \<exists>r. good r \<and> rr_jobid r = j \<and> rr_cname r = out \<and> rr_status r = SUCCESS) \<and>
    rs_job_q s = [] \<and> rs_cq s = [] \<and> got_reduce_call s = [] \<and> rs_tpc s \<noteq> InNext"
  using assms by (rule reduce_phase_result)

section \<open>The reduce phase can always be completed\<close>

definition reduce_live :: "reduce_state \<Rightarrow> bool" where
  "reduce_live s \<longleftrightarrow>
     \<not> m_will_fail (rs_master s) \<and> \<not> m_has_failed (rs_master s) \<and> rs_pc s \<noteq> RAsleep \<and>
     (rs_done s \<longleftrightarrow> rs_pc s \<in> {RCollecting, RReturned}) \<and> (rs_tpc s = Exited \<longrightarrow> rs_done s) \<and>
     (\<forall>r. rs_tpc s \<noteq> Pushed r)"

lemma reduce_live_step: "reduce_step answers s t \<Longrightarrow> reduce_live s \<Longrightarrow> reduce_live t"
  by (induction rule: reduce_step.induct)
     (auto simp: reduce_live_def reduce_action_defs Let_def check_fail_off split: prod.splits)

definition reduce_work :: "reduce_state \<Rightarrow> nat" where
  "reduce_work s = 4 * length (rs_job_q s) + 3 * length (rs_cq s) +
     (case rs_tpc s of GotTag (call, code, reply) \<Rightarrow> if status_ok code then 2 else 6 | _ \<Rightarrow> 0) +
     (\<Sum>r \<leftarrow> rs_responseList s. if rr_status r = SUCCESS then 1 else 5)"

definition reduce_phase :: "reduce_state \<Rightarrow> nat" where
  "reduce_phase s =
     (case rs_pc s of RSending \<Rightarrow> length (rs_responseList s) + 5 | RWaiting \<Rightarrow> length (rs_responseList s) + 4
      | RScanning k \<Rightarrow> 3 + (length (rs_responseList s) - k) | RTesting \<Rightarrow> 2 | RCollecting \<Rightarrow> 1 | _ \<Rightarrow> 0) +
     (case rs_tpc s of TestDone \<Rightarrow> 1 | _ \<Rightarrow> 0)"

definition reduce_closer :: "reduce_state \<Rightarrow> reduce_state \<Rightarrow> bool" where
  "reduce_closer t s \<longleftrightarrow> (t, s) \<in> measures [reduce_work, reduce_phase]"

lemma reduce_closerI:
  "reduce_work t < reduce_work s \<or> reduce_work t \<le> reduce_work s \<and> reduce_phase t < reduce_phase s \<Longrightarrow>
     reduce_closer t s"
  by (auto simp: reduce_closer_def)

lemma reduce_send_progress:
  assumes "rs_pc s = RSending" "rs_job_q s = i # q" "\<not> too_many_outstanding s"
    and "m_Clients (rs_master s) = c # cs" "\<not> m_will_fail (rs_master s)" "\<not> m_has_failed (rs_master s)"
    and "reduce_blob_vec i (m_IntblobList (rs_master s)) = Inr vec"
  shows "\<exists>t. (reduce_step answers)\<^sup>+\<^sup>+ s t \<and> reduce_work t < reduce_work s"
proof -
  define s1 where "s1 = s\<lparr>rs_master := (rs_master s)\<lparr>heap :=
    setStatus c IDLE (setPingStatus c PING_SUCCESS (heap (rs_master s)))\<rparr>\<rparr>"
  have "reduce_step answers s s1" unfolding s1_def by (rule reduce_step.ping)
  moreover have "min_req_pass True (heap (rs_master s1)) (m_Clients (rs_master s1)) None \<noteq> None"
    using assms(4) by (auto simp: s1_def min_req_pass_None healthy_def cpp_defs)
  then obtain c' where "min_req_pass True (heap (rs_master s1)) (m_Clients (rs_master s1)) None = Some c'"
    by auto
  then have "reduce_step answers s1 (send_reduce_task vec c' s1)"
    using assms by (intro reduce_step.send) (auto simp: s1_def too_many_outstanding_def)
  ultimately have "(reduce_step answers)\<^sup>+\<^sup>+ s (send_reduce_task vec c' s1)" by auto
  moreover have "reduce_work (send_reduce_task vec c' s1) < reduce_work s"
    using assms by (simp add: reduce_work_def send_reduce_task_def invokeReduceTaskAsync_def Let_def s1_def
        check_fail_off split: completion_pc.splits)
  ultimately show ?thesis by blast
qed

lemma reduce_thread_progress:
  assumes "rs_tpc s \<noteq> Exited" "\<not> rs_done s" "\<And>r. rs_tpc s \<noteq> Pushed r"
    and "rs_tpc s = TestDone \<longrightarrow> unsigned_of_int (rs_nrpcs s) > length (rs_responseList s)"
    and "rs_tpc s = InNext \<longrightarrow> rs_cq s \<noteq> []"
    and ok: "\<forall>c \<in> set (rs_cq s). \<exists>reply. answers c 0 reply"
  shows "\<exists>t. (reduce_step answers)\<^sup>+\<^sup>+ s t \<and> reduce_closer t s"
proof (cases "rs_tpc s")
  case TestDone
  then have "reduce_step answers s (s\<lparr>rs_tpc := InNext\<rparr>)" using assms by (intro reduce_step.enter_next) auto
  moreover have "reduce_closer (s\<lparr>rs_tpc := InNext\<rparr>) s"
    using TestDone by (intro reduce_closerI) (simp add: reduce_work_def reduce_phase_def split: reduce_pc.splits)
  ultimately show ?thesis by blast
next
  case InNext
  then obtain call cs' where cq: "rs_cq s = call # cs'" using assms(5) by (cases "rs_cq s") auto
  with ok obtain reply where "answers call 0 reply" by auto
  with InNext cq have "reduce_step answers s (s\<lparr>rs_cq := [] @ cs', rs_tpc := GotTag (call, 0, reply)\<rparr>)"
    by (intro reduce_step.next_call) auto
  moreover have "reduce_closer (s\<lparr>rs_cq := [] @ cs', rs_tpc := GotTag (call, 0, reply)\<rparr>) s"
    using InNext cq by (intro reduce_closerI) (simp add: reduce_work_def)
  ultimately show ?thesis by blast
next
  case (GotTag r)
  then have "reduce_step answers s (push_reduce_response r s)" by (rule reduce_step.push)
  moreover have "reduce_closer (push_reduce_response r s) s"
    using GotTag by (intro reduce_closerI)
      (auto simp: reduce_work_def push_reduce_response_def new_ReduceResult_def Let_def split: prod.splits)
  ultimately show ?thesis by blast
qed (use assms in auto)

definition reduce_answerable where
  "reduce_answerable m answers \<longleftrightarrow>
     m_Clients m \<noteq> [] \<and>
     (\<forall>c. reduce_call m c \<and> 0 \<le> rc_jobid c \<and> rc_jobid c < m_nreducers m \<longrightarrow> (\<exists>reply. answers c 0 reply))"

lemma reduce_progress_step:
  "reduce_step answers s t \<Longrightarrow> reduce_closer t s \<Longrightarrow> \<exists>t. (reduce_step answers)\<^sup>+\<^sup>+ s t \<and> reduce_closer t s"
  by blast

lemma reduce_calls_answerable:
  assumes "reduce_inv m0 n good answers s" "reduce_answerable m0 answers" "n = nat (m_nreducers m0)"
  shows "\<forall>c \<in> set (rs_cq s). \<exists>reply. answers c 0 reply"
proof
  fix c assume c: "c \<in> set (rs_cq s)"
  then have "rc_jobid c \<in># pool_total (reduce_pool s)" by (auto simp: pool_total_def reduce_pool_def)
  then have "0 \<le> rc_jobid c" "rc_jobid c < m_nreducers m0"
    using assms(1,3) by (auto simp: reduce_inv_def reduce_counting_def)
  then show "\<exists>reply. answers c 0 reply"
    using assms(1,2) c by (auto simp: reduce_inv_def reduce_results_def reduce_answerable_def)
qed

lemma reduce_vec_ok:
  assumes "reduce_inv m0 n good answers s"
  obtains vec where "reduce_blob_vec i (m_IntblobList (rs_master s)) = Inr vec"
  using assms reduce_blob_vec_filter [of "m_IntblobList m0" "int n" i] by (auto simp: reduce_inv_def same_reduce_job_def)

lemma reduce_sending_progress:
  assumes inv: "reduce_inv m0 n good answers s" and live: "reduce_live s" and pc: "rs_pc s = RSending"
    and clients: "m_Clients (rs_master s) = c # cs"
  shows "\<exists>t. (reduce_step answers)\<^sup>+\<^sup>+ s t \<and> reduce_closer t s"
proof (cases "rs_job_q s = [] \<or> too_many_outstanding s")
  case True
  then show ?thesis
    using pc by (intro reduce_progress_step [OF reduce_step.stop_sending] reduce_closerI)
      (auto simp: reduce_work_def reduce_phase_def)
next
  case False
  then obtain i q where q: "rs_job_q s = i # q" by (cases "rs_job_q s") auto
  obtain vec where "reduce_blob_vec i (m_IntblobList (rs_master s)) = Inr vec" using reduce_vec_ok [OF inv] .
  with reduce_send_progress [OF pc q _ clients] False live show ?thesis by (metis reduce_closerI reduce_live_def)
qed

lemma reduce_waiting_progress:
  assumes inv: "reduce_inv m0 n good answers s" and live: "reduce_live s" and pc: "rs_pc s = RWaiting"
    and ok: "\<forall>c \<in> set (rs_cq s). \<exists>reply. answers c 0 reply"
  shows "\<exists>t. (reduce_step answers)\<^sup>+\<^sup>+ s t \<and> reduce_closer t s"
proof (cases "length (rs_responseList s) = unsigned_of_int (rs_nrpcs s)")
  case True
  then show ?thesis
    using pc by (intro reduce_progress_step [OF reduce_step.all_answered] reduce_closerI)
      (auto simp: reduce_work_def reduce_phase_def)
next
  case False
  have ci: "reduce_counting (int ` {0..<n}) s" and n: "n < 2 ^ 31" using inv by (simp_all add: reduce_inv_def)
  show ?thesis
  proof (rule reduce_thread_progress)
    show "rs_tpc s \<noteq> Exited" "\<not> rs_done s" using live pc by (auto simp: reduce_live_def)
    show "rs_tpc s \<noteq> Pushed r" for r using live unfolding reduce_live_def by blast
    show "rs_tpc s = TestDone \<longrightarrow> unsigned_of_int (rs_nrpcs s) > length (rs_responseList s)"
      using False reduce_nrpcs [OF ci n] by (simp add: outstanding_def reduce_pool_def)
    show "rs_tpc s = InNext \<longrightarrow> rs_cq s \<noteq> []" using ci by (simp add: reduce_counting_def)
  qed (rule ok)
qed

lemma reduce_scanning_progress:
  assumes pc: "rs_pc s = RScanning k"
  shows "\<exists>t. (reduce_step answers)\<^sup>+\<^sup>+ s t \<and> reduce_closer t s"
proof (cases "k < length (rs_responseList s)")
  case True
  have "rs_responseList s = take k (rs_responseList s) @ rs_responseList s ! k # drop (Suc k) (rs_responseList s)"
    using True by (rule id_take_nth_drop)
  then have "(\<Sum>r \<leftarrow> rs_responseList s. if rr_status r = SUCCESS then 1 else 5 :: nat) =
      (\<Sum>r \<leftarrow> take k (rs_responseList s) @ rs_responseList s ! k # drop (Suc k) (rs_responseList s).
        if rr_status r = SUCCESS then 1 else 5)" by simp
  with True show ?thesis
    using pc by (intro reduce_progress_step [OF reduce_step.scan [OF pc True]] reduce_closerI)
      (auto simp: reduce_work_def reduce_phase_def scan_response_def Let_def intro: diff_less_mono)
next
  case False
  then show ?thesis
    using pc by (intro reduce_progress_step [OF reduce_step.scanned [OF pc False]] reduce_closerI)
      (simp add: reduce_work_def reduce_phase_def)
qed

lemma reduce_testing_progress:
  assumes inv: "reduce_inv m0 n good answers s" and live: "reduce_live s" and pc: "rs_pc s = RTesting"
    and clients: "m_Clients (rs_master s) = c # cs"
  shows "\<exists>t. (reduce_step answers)\<^sup>+\<^sup>+ s t \<and> reduce_closer t s"
proof (cases "rs_job_q s")
  case Nil
  then show ?thesis
    using pc by (intro reduce_progress_step [OF reduce_step.test [OF pc]] reduce_closerI)
      (simp add: reduce_work_def reduce_phase_def test_reduce_done_def)
next
  case (Cons i q)
  let ?s1 = "s\<lparr>rs_pc := RSending\<rparr>"
  have ci: "reduce_counting (int ` {0..<n}) s" and n: "n < 2 ^ 31" and si: "scanning_inv s"
    using inv by (simp_all add: reduce_inv_def)
  have "reduce_step answers s ?s1"
    using reduce_step.test [OF pc, of answers] Cons by (simp add: test_reduce_done_def)
  moreover have "unsigned_of_int (rs_nrpcs s) = length (rs_responseList s)"
    using quiet_thread(1) [OF ci n] si pc by (simp add: scanning_inv_def)
  then have "\<not> too_many_outstanding ?s1"
    using ci si pc by (simp add: too_many_outstanding_def scanning_inv_def reduce_counting_def
        outstanding_def reduce_pool_def unsigned_of_int_def)
  moreover obtain vec where "reduce_blob_vec i (m_IntblobList (rs_master s)) = Inr vec" using reduce_vec_ok [OF inv] .
  ultimately obtain t where "(reduce_step answers)\<^sup>+\<^sup>+ ?s1 t" "reduce_work t < reduce_work ?s1"
    using reduce_send_progress [of ?s1 i q c cs vec answers] Cons clients live by (auto simp: reduce_live_def)
  moreover have "reduce_work ?s1 = reduce_work s" by (simp add: reduce_work_def)
  ultimately show ?thesis using \<open>reduce_step answers s ?s1\<close> by (metis reduce_closerI tranclp_into_tranclp2)
qed

lemma reduce_progress:
  assumes inv: "reduce_inv m0 n good answers s" and live: "reduce_live s"
    and ans: "reduce_answerable m0 answers" "n = nat (m_nreducers m0)" and pc: "rs_pc s \<noteq> RReturned"
  shows "\<exists>t. (reduce_step answers)\<^sup>+\<^sup>+ s t \<and> reduce_closer t s"
proof -
  obtain c cs where clients: "m_Clients (rs_master s) = c # cs"
    using inv ans by (cases "m_Clients m0") (auto simp: reduce_answerable_def reduce_inv_def same_reduce_job_def)
  show ?thesis
  proof (cases "rs_pc s")
    case RCollecting
    then show ?thesis
      by (intro reduce_progress_step [OF reduce_step.collect [OF RCollecting]] reduce_closerI)
        (simp add: reduce_work_def reduce_phase_def collect_outputs_def)
  qed (use pc live inv reduce_sending_progress [OF inv live _ clients] reduce_testing_progress [OF inv live _ clients]
      reduce_waiting_progress [OF inv live _ reduce_calls_answerable [OF inv ans]] reduce_scanning_progress
      in \<open>auto simp: reduce_live_def reduce_inv_def scanning_inv_def\<close>)
qed

lemma reduce_completes:
  assumes "reduce_inv m0 n good answers s" "reduce_live s" "reduce_answerable m0 answers" "n = nat (m_nreducers m0)"
  shows "\<exists>t. (reduce_step answers)\<^sup>*\<^sup>* s t \<and> rs_pc t = RReturned"
  using assms(1,2)
proof (induction s rule: wf_induct_rule [OF wf_measures [of "[reduce_work, reduce_phase]"]])
  case (1 s)
  show ?case
  proof (cases "rs_pc s = RReturned")
    case False
    then obtain t where t: "(reduce_step answers)\<^sup>+\<^sup>+ s t" "reduce_closer t s"
      using reduce_progress [OF 1(2,3) assms(3,4)] by blast
    have inv: "reduce_inv m0 n good answers t"
      using reduce_refines.steps_inv [OF tranclp_into_rtranclp [OF t(1)] 1(2)] .
    have "reduce_live t" using t(1) 1(3)
      by (induction rule: tranclp_induct) (auto intro: reduce_live_step)
    with inv t 1(1) [of t] show ?thesis
      by (metis reduce_closer_def rtranclp_trans tranclp_into_rtranclp)
  qed auto
qed

lemma runReducer_live: "\<not> m_will_fail m \<Longrightarrow> \<not> m_has_failed m \<Longrightarrow> reduce_live (runReducer m)"
  by (simp add: reduce_live_def runReducer_def start_reduce_dispatch_def)

lemma reduce_dispatch_completes:
  assumes "m_nreducers m < 2 ^ 31" "\<forall>item \<in> set (m_IntblobList m). names_reducer (m_nreducers m) item"
    and "reduce_answerable m answers" "\<not> m_will_fail m" "\<not> m_has_failed m"
    and "(reduce_step answers)\<^sup>*\<^sup>* (runReducer m) s"
  shows "\<exists>t. (reduce_step answers)\<^sup>*\<^sup>* s t \<and> rs_pc t = RReturned"
proof (rule reduce_completes)
  show "reduce_inv m (nat (m_nreducers m)) (\<lambda>_. True) answers s"
    using reduce_refines.steps_inv [OF assms(6)] runReducer_inv [OF assms(1,2)]
    by (simp add: good_reduce_answers_def)
  show "reduce_live s"
    using assms(6) runReducer_live [OF assms(4,5)]
    by (induction rule: rtranclp_induct) (auto intro: reduce_live_step)
qed (use assms(3) in simp_all)

text \<open>
  C9: The reduce phase can be completed from every state it can reach, for every number of reducers
  (also zero or a negative one), under the same conditions as the map phase.
\<close>

theorem reduce_phase_completes:
  assumes "m_nreducers m < 2 ^ 31" "\<forall>item \<in> set (m_IntblobList m). names_reducer (m_nreducers m) item"
    and "reduce_answerable m answers" "\<not> m_will_fail m" "\<not> m_has_failed m"
    and "(reduce_step answers)\<^sup>*\<^sup>* (runReducer m) s"
  shows "\<exists>t. (reduce_step answers)\<^sup>*\<^sup>* s t \<and> rs_pc t = RReturned"
  using assms by (rule reduce_dispatch_completes)

text \<open>Two reducers and one blob for each.\<close>

definition demo_reduce_master :: Master where
  "demo_reduce_master = (new_Master 0 (\<lambda>_. new_MapReduceClient [] PING_FAIL))
     \<lparr>m_Clients := [ClientPtr 0], m_nreducers := 2, m_intcontainer := ''int'',
      m_IntblobList := [''int_w_0_0_0'', ''int_w_0_0_1'']\<rparr>"

lemma demo_reduce_simps:
  "m_nreducers demo_reduce_master = 2" "\<not> m_will_fail demo_reduce_master"
  "\<not> m_has_failed demo_reduce_master"
  "\<forall>item \<in> set (m_IntblobList demo_reduce_master). names_reducer 2 item"
proof -
  have "blob_reducer ''int_w_0_0_1'' = Inr 1" "blob_reducer ''int_w_0_0_0'' = Inr 0" by code_simp+
  then show "\<forall>item \<in> set (m_IntblobList demo_reduce_master). names_reducer 2 item"
    by (simp add: demo_reduce_master_def names_reducer_def)
qed (simp_all add: demo_reduce_master_def new_Master_def)

text \<open>A worker fills in the container only.\<close>

definition demo_reduce_answers :: "AsyncClientReduceCall \<Rightarrow> int \<Rightarrow> FinalResult \<Rightarrow> bool" where
  "demo_reduce_answers c code reply \<longleftrightarrow>
     code = 0 \<and> reply = \<lparr>fr_blobname = [], fr_containername = ''out''\<rparr> \<or> code = 4"

lemma demo_reduce_answerable: "reduce_answerable demo_reduce_master demo_reduce_answers"
  by (simp add: reduce_answerable_def demo_reduce_answers_def demo_reduce_master_def)

theorem reduce_phase_completes_witness:
  "\<exists>t. (reduce_step demo_reduce_answers)\<^sup>*\<^sup>* (runReducer demo_reduce_master) t \<and> rs_pc t = RReturned"
  using reduce_phase_completes [of demo_reduce_master demo_reduce_answers "runReducer demo_reduce_master"]
    demo_reduce_simps demo_reduce_answerable by simp

lemma demo_reduce_run:
  "\<exists>t. (reduce_step demo_reduce_answers)\<^sup>*\<^sup>* (runReducer demo_reduce_master) t \<and> rs_pc t = RReturned"
proof (rule reduce_completes)
  show "reduce_inv demo_reduce_master 2 (\<lambda>_. True) demo_reduce_answers (runReducer demo_reduce_master)"
    using runReducer_inv [of demo_reduce_master demo_reduce_answers "\<lambda>_. True"] demo_reduce_simps
    by (simp add: good_reduce_answers_def)
qed (simp_all add: runReducer_live demo_reduce_simps demo_reduce_answerable)

theorem reduce_phase_complete_witness:
  "\<exists>s. (reduce_step demo_reduce_answers)\<^sup>*\<^sup>* (runReducer demo_reduce_master) s \<and> rs_pc s = RReturned \<and>
    map fst (m_OutputResultMap (rs_master s)) = [0, 1] \<and>
    (\<forall>(j, out) \<in> set (m_OutputResultMap (rs_master s)). out = [])"
proof -
  let ?good = "\<lambda>r. rr_cname r = []"
  obtain s where s: "(reduce_step demo_reduce_answers)\<^sup>*\<^sup>* (runReducer demo_reduce_master) s" "rs_pc s = RReturned"
    using demo_reduce_run by blast
  have "good_reduce_answers demo_reduce_master demo_reduce_answers ?good"
    by (simp add: good_reduce_answers_def demo_reduce_answers_def reduce_result_def new_ReduceResult_def)
  note r = reduce_phase_complete [OF _ _ this s]
  have "map fst (m_OutputResultMap (rs_master s)) = [0, 1]"
    using r by (simp add: demo_reduce_simps upt_conv_Cons numeral_2_eq_2)
  moreover have "\<forall>(j, out) \<in> set (m_OutputResultMap (rs_master s)). out = []"
    using r by (auto simp: demo_reduce_simps)
  ultimately show ?thesis using s by (intro exI [of _ s] conjI)
qed

end
