(* ===== verification/Replication.thy ===== *)
theory Replication
  imports ReduceDispatch
begin

text \<open>
  Checkpointing of the leader's progress to a second master: \<^verbatim>\<open>serialize_data\<close>,
  \<^verbatim>\<open>deserialize_data\<close> and \<^verbatim>\<open>processReplicatedData\<close> of
  \<^verbatim>\<open>w7/src/master/masterimpl.cc\<close>, the replication client and server of
  \<^verbatim>\<open>replclient.cc\<close> and \<^verbatim>\<open>replserver.h\<close>, with the messages of
  \<^verbatim>\<open>protos/mr.proto\<close>.
\<close>

section \<open>Messages\<close>

record JobStatus =
  js_shard_id :: int
  js_int_container :: string
  js_blob_list :: "string list"

record FileShardSet =
  fss_shard_id :: int
  fss_stuples :: "ShardTuple list"

record ReduceJobStatus =
  rj_jobid :: int
  rj_out_container :: string

record CheckPointData =
  cp_req_id :: int
  cp_n_mappers :: int
  cp_n_reducers :: int
  cp_in_container :: string
  cp_shard_list :: "FileShardSet list"
  cp_job_list :: "JobStatus list"
  cp_reduce_job_list :: "ReduceJobStatus list"

section \<open>The code\<close>

definition job_status_of :: "MapperResult \<Rightarrow> JobStatus" where
  "job_status_of item = \<lparr>js_shard_id = mr_shardId item, js_int_container = mr_cname item,
     js_blob_list = mr_blobList item\<rparr>"

definition shard_set_of :: "FileShard \<Rightarrow> FileShardSet" where
  "shard_set_of s = \<lparr>fss_shard_id = fs_shardId s, fss_stuples = map tuple_of_data (fs_sets s)\<rparr>"

definition serialize_data :: "Master \<Rightarrow> CheckPointData" where
  "serialize_data m =
     \<lparr>cp_req_id = m_rid m, cp_n_mappers = m_nmappers m, cp_n_reducers = m_nreducers m,
      cp_in_container = m_containername m,
      cp_shard_list = map shard_set_of (m_shards m),
      cp_job_list = map job_status_of (g_repl_list m),
      cp_reduce_job_list = map (\<lambda>(j, c). \<lparr>rj_jobid = j, rj_out_container = c\<rparr>) (m_OutputResultMap m)\<rparr>"

definition shard_of_set :: "FileShardSet \<Rightarrow> FileShard" where
  "shard_of_set fsdata = new_FileShard (fss_shard_id fsdata) (map data_of_tuple (fss_stuples fsdata))"

text \<open>The loop over \<open>job_list\<close>.\<close>

definition read_job :: "JobStatus \<Rightarrow> Master \<Rightarrow> Master" where
  "read_job js m =
     (let v = js_blob_list js;
          res = new_MapperResult SUCCESS (js_shard_id js) (js_int_container js) False v
      in m\<lparr>m_intcontainer := js_int_container js,
           m_IntermediateResultMap := map_emplace (js_shard_id js) res (m_IntermediateResultMap m),
           m_IntblobList := m_IntblobList m @ v\<rparr>)"

definition deserialize_data :: "CheckPointData \<Rightarrow> Master \<Rightarrow> Master" where
  "deserialize_data reply m =
     (let m1 = m\<lparr>m_rid := cp_req_id reply, m_nmappers := cp_n_mappers reply,
                 m_nreducers := cp_n_reducers reply, m_containername := cp_in_container reply,
                 m_shards := map shard_of_set (cp_shard_list reply)\<rparr>;
          m2 = fold read_job (cp_job_list reply)
                 (m1\<lparr>m_IntermediateResultMap := [], m_IntblobList := []\<rparr>)
      in m2\<lparr>m_OutputResultMap :=
              fold (\<lambda>r. map_emplace (rj_jobid r) (rj_out_container r)) (cp_reduce_job_list reply) [],
            m_bReplicated := True\<rparr>)"

text \<open>The two methods of the replication service, on the master behind it.\<close>

definition sendCheckPointData :: "Master \<Rightarrow> CheckPointData" where
  "sendCheckPointData m = serialize_data m"

definition pushCheckPointData :: "CheckPointData \<Rightarrow> Master \<Rightarrow> Master" where
  "pushCheckPointData request m = deserialize_data request m"

text \<open>\<^verbatim>\<open>PushJobStatus\<close> on the leader calls \<^verbatim>\<open>pushCheckPointData\<close> on the follower;
  \<^verbatim>\<open>ReplicateJobStatus\<close> is the pull variant. The last argument is the status of the call.\<close>

definition PushJobStatus :: "Master \<Rightarrow> int \<Rightarrow> Master \<Rightarrow> Master" where
  "PushJobStatus leader code follower =
     (if status_ok code then pushCheckPointData (serialize_data leader) follower else follower)"

definition ReplicateJobStatus :: "Master \<Rightarrow> int \<Rightarrow> Master \<Rightarrow> Master" where
  "ReplicateJobStatus leader code follower =
     (if status_ok code then deserialize_data (sendCheckPointData leader) follower else follower)"

text \<open>The queue \<^verbatim>\<open>processReplicatedData\<close> builds, and the call up to the loop of the map
  dispatch. \<open>None\<close>: the address exchange still waits.\<close>

definition replicated_jobs :: "Master \<Rightarrow> int list" where
  "replicated_jobs m =
     filter (\<lambda>shardId. map_find (m_IntermediateResultMap m) shardId = None) (map fs_shardId (m_shards m))"

definition processReplicatedData ::
    "'z Conservator \<Rightarrow> (client_ptr \<Rightarrow> PingStatus) \<Rightarrow> (client_ptr \<times> int \<times> string) next_event list \<Rightarrow>
     'z \<Rightarrow> Master \<Rightarrow> 'z \<times> map_state option result" where
  "processReplicatedData fw garbage cq z m =
     (let (z', r) = update_workers fw garbage z m in
      (z', rbind r (\<lambda>m1.
         Inr (case get_worker_addresses cq m1 of
                None \<Rightarrow> None
              | Some m2 \<Rightarrow> Some (start_map_dispatch (replicated_jobs m2) m2)))))"

section \<open>Round trip\<close>

text \<open>Every offset survives the 32-bit fields of the message.\<close>

definition shard_wire_safe :: "FileShard \<Rightarrow> bool" where
  "shard_wire_safe s \<longleftrightarrow> (\<forall>d \<in> set (fs_sets s). wire_safe d)"

interpretation shard_wire: codec shard_set_of shard_of_set shard_wire_safe
  by unfold_locales
    (simp add: shard_set_of_def shard_of_set_def shard_wire_safe_def new_FileShard_def wire.dec_enc_list
      del: map_map)

text \<open>What the completion thread puts into the replication list.\<close>

definition successful :: "MapperResult \<Rightarrow> bool" where
  "successful r \<longleftrightarrow> r = new_MapperResult SUCCESS (mr_shardId r) (mr_cname r) False (mr_blobList r)"

interpretation job_wire: codec job_status_of
  "\<lambda>js. new_MapperResult SUCCESS (js_shard_id js) (js_int_container js) False (js_blob_list js)" successful
  by unfold_locales (simp add: job_status_of_def successful_def)

lemma read_jobs:
  assumes "map_wf (m_IntermediateResultMap m)" "\<forall>r \<in> set rs. successful r"
  defines "m' \<equiv> fold read_job (map job_status_of rs) m"
  shows "m_IntermediateResultMap m' =
      fold (\<lambda>(k, v). map_emplace k v) (map (\<lambda>r. (mr_shardId r, r)) rs) (m_IntermediateResultMap m)"
    "m_IntblobList m' = m_IntblobList m @ concat (map mr_blobList rs)"
    "m_shards m' = m_shards m" "m_nmappers m' = m_nmappers m" "m_nreducers m' = m_nreducers m"
    "m_rid m' = m_rid m" "m_containername m' = m_containername m" "m_Clients m' = m_Clients m"
    "m_will_fail m' = m_will_fail m" "m_has_failed m' = m_has_failed m"
  unfolding m'_def using assms(1,2)
  by (induction rs arbitrary: m)
     (simp_all add: read_job_def Let_def job_status_of_def successful_def map_wf_emplace)

lemma emplace_fresh_keys:
  "map_wf m \<Longrightarrow> distinct (map fst kvs) \<Longrightarrow> fst ` set kvs \<inter> fst ` set m = {} \<Longrightarrow>
     mset (fold (\<lambda>(k, v). map_emplace k v) kvs m) = mset m + mset kvs"
proof (induction kvs arbitrary: m)
  case (Cons kv kvs)
  obtain k v where kv: "kv = (k, v)" by (cases kv)
  have "map_find m k = None" using Cons.prems by (simp add: map_of_eq_None_iff kv)
  then show ?case
    using Cons.IH [of "map_emplace k v m"] Cons.prems
    by (auto simp: kv mset_map_emplace map_wf_emplace keys_map_emplace)
qed simp

lemma emplace_sorted_id:
  assumes "map_wf out"
  shows "fold (\<lambda>r. map_emplace (rj_jobid r) (rj_out_container r))
      (map (\<lambda>(j, c). \<lparr>rj_jobid = j, rj_out_container = c\<rparr>) out) [] = out"
proof -
  have fold: "fold (\<lambda>r. map_emplace (rj_jobid r) (rj_out_container r))
      (map (\<lambda>(j, c). \<lparr>rj_jobid = j, rj_out_container = c\<rparr>) xs) m = fold (\<lambda>(k, v). map_emplace k v) xs m" for xs m
    by (induction xs arbitrary: m) auto
  have d: "distinct (map fst out)" "sorted (map fst out)" using assms by (simp_all add: map_wf_def)
  let ?m = "fold (\<lambda>(k, v). map_emplace k v) out []"
  have ms: "mset ?m = mset out" using emplace_fresh_keys [of "[]" out] d by simp
  have "map_wf ?m" by (rule smap.emplace_all_wf) simp
  then have d': "distinct (map fst ?m)" "sorted (map fst ?m)" by (simp_all add: map_wf_def)
  have "?m = out"
  proof (rule map_sorted_distinct_set_unique [of fst])
    show "inj_on fst (set ?m \<union> set out)"
      using ms d(1) by (metis distinct_map mset_eq_setD sup.idem)
  qed (use d d' ms in \<open>auto dest: mset_eq_setD simp: distinct_map\<close>)
  then show ?thesis by (simp add: fold)
qed

text \<open>
  C16: A checkpoint carries the leader's job to the follower without loss: request, numbers of
  mappers and reducers, container, shards and outputs are the leader's, the result map holds for every
  shard the first replicated result, and the list of intermediate blobs is the concatenation of the
  replicated ones. The offsets have to fit the 32-bit fields of the message.
\<close>

theorem checkpoint_roundtrip:
  assumes "\<forall>s \<in> set (m_shards leader). shard_wire_safe s" "\<forall>r \<in> set (g_repl_list leader). successful r"
    and "map_wf (m_OutputResultMap leader)"
  shows "\<exists>m. PushJobStatus leader 0 follower = m \<and> m_bReplicated m \<and>
    m_shards m = m_shards leader \<and> m_rid m = m_rid leader \<and> m_nmappers m = m_nmappers leader \<and>
    m_nreducers m = m_nreducers leader \<and> m_containername m = m_containername leader \<and>
    m_OutputResultMap m = m_OutputResultMap leader \<and> map_wf (m_IntermediateResultMap m) \<and>
    map_find (m_IntermediateResultMap m) = map_of (map (\<lambda>r. (mr_shardId r, r)) (g_repl_list leader)) \<and>
    m_IntblobList m = concat (map mr_blobList (g_repl_list leader))"
proof (intro exI conjI)
  let ?m = "deserialize_data (serialize_data leader) follower"
  let ?kvs = "map (\<lambda>r. (mr_shardId r, r)) (g_repl_list leader)"
  have shards: "map shard_of_set (map shard_set_of (m_shards leader)) = m_shards leader"
    using assms(1) by (rule shard_wire.dec_enc_list)
  note rj = read_jobs [OF _ assms(2), of "follower\<lparr>m_rid := m_rid leader, m_nmappers := m_nmappers leader,
      m_nreducers := m_nreducers leader, m_containername := m_containername leader,
      m_shards := m_shards leader, m_IntermediateResultMap := [], m_IntblobList := []\<rparr>"]
  note unfold = deserialize_data_def serialize_data_def Let_def
  show "PushJobStatus leader 0 follower = ?m" by (simp add: PushJobStatus_def pushCheckPointData_def)
  show "m_bReplicated ?m" by (simp add: unfold)
  show "m_shards ?m = m_shards leader" "m_rid ?m = m_rid leader" "m_nmappers ?m = m_nmappers leader"
    "m_nreducers ?m = m_nreducers leader" "m_containername ?m = m_containername leader"
    using rj shards by (simp_all add: unfold del: map_map)
  show "m_OutputResultMap ?m = m_OutputResultMap leader"
    using emplace_sorted_id [OF assms(3)] by (simp add: unfold)
  have irm: "m_IntermediateResultMap ?m = fold (\<lambda>(k, v). map_emplace k v) ?kvs []"
    using rj shards by (simp add: unfold del: map_map)
  show "map_wf (m_IntermediateResultMap ?m)" unfolding irm by (rule smap.emplace_all_wf) simp
  show "map_find (m_IntermediateResultMap ?m) = map_of ?kvs"
    unfolding irm by (simp add: smap.emplace_all_lookup)
  show "m_IntblobList ?m = concat (map mr_blobList (g_repl_list leader))"
    using rj shards by (simp add: unfold del: map_map)
qed

text \<open>A leader with two shards, one of them done.\<close>

definition demo_leader :: Master where
  "demo_leader = demo_master\<lparr>g_repl_list := [new_MapperResult SUCCESS 0 ''int'' False [''int_w_0_0_0'']]\<rparr>"

lemma demo_leader_simps:
  "\<forall>s \<in> set (m_shards demo_leader). shard_wire_safe s" "\<forall>r \<in> set (g_repl_list demo_leader). successful r"
  "map_wf (m_OutputResultMap demo_leader)" "indexed_shards demo_leader"
  "m_shards demo_leader = m_shards demo_master" "g_repl_list demo_leader = [new_MapperResult SUCCESS 0 ''int'' False [''int_w_0_0_0'']]"
proof -
  show "indexed_shards demo_leader"
    using demo_master_simps(1) by (simp add: demo_leader_def indexed_shards_def)
qed (simp_all add: demo_leader_def demo_master_def new_Master_def shard_wire_safe_def wire_safe_def
    new_FileShard_def new_ShardData_def successful_def)

theorem checkpoint_roundtrip_witness:
  "\<exists>m. PushJobStatus demo_leader 0 demo_master = m \<and> m_bReplicated m \<and>
    m_shards m = m_shards demo_leader \<and> m_IntblobList m = [''int_w_0_0_0'']"
  using checkpoint_roundtrip [OF demo_leader_simps(1-3), of demo_master]
  by (auto simp: demo_leader_simps)

section \<open>Taking over\<close>

text \<open>
  What the new leader starts its map phase on. The replicated results have to be results of the
  current job, one per shard.
\<close>

lemma takeover_job:
  assumes m: "m_shards m = m_shards leader" "map_wf (m_IntermediateResultMap m)"
    "map_find (m_IntermediateResultMap m) = map_of (map (\<lambda>r. (mr_shardId r, r)) (g_repl_list leader))"
    "m_IntblobList m = concat (map mr_blobList (g_repl_list leader))"
    and ix: "indexed_shards leader"
    and d: "distinct (map mr_shardId (g_repl_list leader))"
    and good: "\<forall>r \<in> set (g_repl_list leader). shard_index leader (mr_shardId r) \<and> good r"
  shows "map_job m (replicated_jobs m) good"
    "job_ids m (replicated_jobs m) = int ` {0..<length (m_shards leader)}"
proof -
  let ?irm = "m_IntermediateResultMap m" and ?kvs = "map (\<lambda>r. (mr_shardId r, r)) (g_repl_list leader)"
  have dk: "distinct (map fst ?kvs)" using d by (simp add: comp_def)
  have "distinct (map fst ?irm)" using m(2) by (simp add: map_wf_def)
  have set: "set ?irm = set ?kvs"
  proof (rule set_eqI)
    fix kv :: "int \<times> MapperResult"
    obtain k v where "kv = (k, v)" by (cases kv)
    then show "kv \<in> set ?irm \<longleftrightarrow> kv \<in> set ?kvs"
      using map_of_eq_Some_iff [OF dk, of k v] map_of_eq_Some_iff [OF \<open>distinct (map fst ?irm)\<close>, of k v] m(3)
      by simp
  qed
  then have "mset ?irm = mset ?kvs"
    using set_eq_iff_mset_eq_distinct [of ?irm ?kvs] dk \<open>distinct (map fst ?irm)\<close>
    unfolding distinct_map by blast
  then have "(\<Sum>(i, r) \<leftarrow> ?irm. mset (mr_blobList r)) = (\<Sum>(i, r) \<leftarrow> ?kvs. mset (mr_blobList r))"
    by (simp only: sum_mset_sum_list [symmetric] mset_map)
  also have "\<dots> = mset (concat (map mr_blobList (g_repl_list leader)))"
    by (simp add: mset_concat comp_def)
  finally have blobs: "mset (m_IntblobList m) = (\<Sum>(i, r) \<leftarrow> ?irm. mset (mr_blobList r))"
    using m(4) by simp
  have ids: "map fs_shardId (m_shards m) = map int [0..<length (m_shards leader)]"
    using ix m(1) by (auto simp: indexed_shards_def intro!: nth_equalityI)
  have idx: "shard_index m i \<longleftrightarrow> 0 \<le> i \<and> i < int (length (m_shards leader))" for i
    using ix m(1) by (auto simp: shard_index_def indexed_shards_def)
  have keys: "fst ` set ?irm = mr_shardId ` set (g_repl_list leader)"
    unfolding set by (simp add: image_image)
  have good': "\<forall>(i, r) \<in> set ?irm. shard_index m i \<and> mr_shardId r = i \<and> good r"
    unfolding set using good m(1) by (auto simp: shard_index_def)
  show "map_job m (replicated_jobs m) good"
    using m(2) good' blobs
    by (auto simp: map_job_def replicated_jobs_def ids idx distinct_map map_of_eq_None_iff)
  have "fst ` set ?irm \<subseteq> int ` {0..<length (m_shards leader)}"
  proof
    fix i assume "i \<in> fst ` set ?irm"
    with good' have "shard_index m i" by auto
    then show "i \<in> int ` {0..<length (m_shards leader)}"
      by (auto simp: idx image_iff intro!: bexI [of _ "nat i"])
  qed
  then show "job_ids m (replicated_jobs m) = int ` {0..<length (m_shards leader)}"
    by (auto simp: job_ids_def replicated_jobs_def ids map_of_eq_None_iff)
qed

text \<open>The master that took over, and the invariant its map phase starts with.\<close>

abbreviation takeover :: "Master \<Rightarrow> Master \<Rightarrow> Master" where
  "takeover leader follower \<equiv> deserialize_data (serialize_data leader) follower"

lemma takeover_fields:
  assumes "\<forall>s \<in> set (m_shards leader). shard_wire_safe s" "\<forall>r \<in> set (g_repl_list leader). successful r"
  shows "m_shards (takeover leader follower) = m_shards leader"
    "m_nmappers (takeover leader follower) = m_nmappers leader"
    "map_wf (m_IntermediateResultMap (takeover leader follower))"
    "map_find (m_IntermediateResultMap (takeover leader follower)) =
       map_of (map (\<lambda>r. (mr_shardId r, r)) (g_repl_list leader))"
    "m_IntblobList (takeover leader follower) = concat (map mr_blobList (g_repl_list leader))"
proof -
  have shards: "map shard_of_set (map shard_set_of (m_shards leader)) = m_shards leader"
    using assms(1) by (rule shard_wire.dec_enc_list)
  note rj = read_jobs [OF _ assms(2), of "follower\<lparr>m_rid := m_rid leader, m_nmappers := m_nmappers leader,
      m_nreducers := m_nreducers leader, m_containername := m_containername leader,
      m_shards := m_shards leader, m_IntermediateResultMap := [], m_IntblobList := []\<rparr>"]
  note unfold = deserialize_data_def serialize_data_def Let_def
  have irm: "m_IntermediateResultMap (takeover leader follower) =
      fold (\<lambda>(k, v). map_emplace k v) (map (\<lambda>r. (mr_shardId r, r)) (g_repl_list leader)) []"
    using rj shards by (simp add: unfold del: map_map)
  show "map_wf (m_IntermediateResultMap (takeover leader follower))"
    unfolding irm by (rule smap.emplace_all_wf) simp
  show "map_find (m_IntermediateResultMap (takeover leader follower)) =
      map_of (map (\<lambda>r. (mr_shardId r, r)) (g_repl_list leader))"
    unfolding irm by (simp add: smap.emplace_all_lookup)
qed (use read_jobs [OF _ assms(2)] shard_wire.dec_enc_list [OF assms(1)] in
    \<open>simp_all add: deserialize_data_def serialize_data_def Let_def del: map_map\<close>)

lemma takeover_result:
  assumes "m_shards m = m_shards leader" "m_nmappers m = m_nmappers leader" "map_wf (m_IntermediateResultMap m)"
    "map_find (m_IntermediateResultMap m) = map_of (map (\<lambda>r. (mr_shardId r, r)) (g_repl_list leader))"
    "m_IntblobList m = concat (map mr_blobList (g_repl_list leader))"
    and "indexed_shards leader" "distinct (map mr_shardId (g_repl_list leader))"
    and "\<forall>r \<in> set (g_repl_list leader). shard_index leader (mr_shardId r) \<and> good r"
    and "unsigned_of_int (m_nmappers leader) = length (m_shards leader)" "good_answers m answers good"
    and "(map_step answers)\<^sup>*\<^sup>* (start_map_dispatch (replicated_jobs m) m) s"
  shows "map_inv m (int ` {0..<length (m_shards leader)}) answers good s"
proof -
  note job = takeover_job [OF assms(1,3-8)]
  have "map_inv m (int ` {0..<length (m_shards leader)}) answers good (start_map_dispatch (replicated_jobs m) m)"
    using map_job_inv [OF job(1) assms(10)] job(2) assms(2,9) by (simp add: card_image)
  from map_refines.steps_inv [OF assms(11) this] show ?thesis .
qed

text \<open>
  Failover finishes the job. When the leader dies in the middle of a map phase, the new leader
  dispatches exactly the shards without a replicated result, and when its dispatch returns there is
  exactly one result per shard of the job, each either replicated by the old leader or given by a
  worker to the new one, and the intermediate blobs are those of the results.
\<close>

theorem takeover_complete:
  assumes "\<forall>s \<in> set (m_shards leader). shard_wire_safe s" "\<forall>r \<in> set (g_repl_list leader). successful r"
    and "indexed_shards leader" "distinct (map mr_shardId (g_repl_list leader))"
    and "\<forall>r \<in> set (g_repl_list leader). shard_index leader (mr_shardId r) \<and> good r"
    and "unsigned_of_int (m_nmappers leader) = length (m_shards leader)"
    and "m = deserialize_data (serialize_data leader) follower" "good_answers m answers good"
    and "(map_step answers)\<^sup>*\<^sup>* (start_map_dispatch (replicated_jobs m) m) s" "ms_pc s = Returned"
  shows "set (map fst (results s)) = int ` {0..<length (m_shards leader)} \<and>
    distinct (map fst (results s)) \<and> (\<forall>(i, r) \<in> set (results s). mr_shardId r = i \<and> good r) \<and>
    mset (m_IntblobList (ms_master s)) = (\<Sum>(i, r) \<leftarrow> results s. mset (mr_blobList r)) \<and>
    ms_job_q s = [] \<and> ms_cq s = [] \<and> ms_responseList s = []"
proof -
  note f = takeover_fields [OF assms(1,2), of follower, folded assms(7)]
  have n: "unsigned_of_int (m_nmappers m) = length (m_shards leader)" using f(2) assms(6) by simp
  have "map_inv m (int ` {0..<length (m_shards leader)}) answers good s"
    by (rule takeover_result [OF f assms(3-6,8,9)])
  from dispatch_result [OF this n assms(10)] show ?thesis by (auto simp: distinct_map)
qed

lemma takeover_flags:
  "m_will_fail (takeover leader follower) = m_will_fail follower"
  "m_has_failed (takeover leader follower) = m_has_failed follower"
proof -
  have "m_will_fail (fold read_job js m) = m_will_fail m \<and> m_has_failed (fold read_job js m) = m_has_failed m"
    for js m by (induction js arbitrary: m) (simp_all add: read_job_def Let_def)
  then show "m_will_fail (takeover leader follower) = m_will_fail follower"
    "m_has_failed (takeover leader follower) = m_has_failed follower"
    by (simp_all add: deserialize_data_def Let_def)
qed

lemma takeover_returns:
  assumes f: "m_shards m = m_shards leader" "m_nmappers m = m_nmappers leader" "map_wf (m_IntermediateResultMap m)"
    "map_find (m_IntermediateResultMap m) = map_of (map (\<lambda>r. (mr_shardId r, r)) (g_repl_list leader))"
    "m_IntblobList m = concat (map mr_blobList (g_repl_list leader))"
    and job: "indexed_shards leader" "distinct (map mr_shardId (g_repl_list leader))"
      "\<forall>r \<in> set (g_repl_list leader). shard_index leader (mr_shardId r)"
      "unsigned_of_int (m_nmappers leader) = length (m_shards leader)"
      "length (g_repl_list leader) < length (m_shards leader)"
    and live: "answerable m answers" "\<not> m_will_fail m" "\<not> m_has_failed m"
    and run: "(map_step answers)\<^sup>*\<^sup>* (start_map_dispatch (replicated_jobs m) m) s"
  shows "\<exists>t. (map_step answers)\<^sup>*\<^sup>* s t \<and> ms_pc t = Returned"
proof -
  let ?ids = "int ` {0..<length (m_shards leader)}"
  have "\<forall>r \<in> set (g_repl_list leader). shard_index leader (mr_shardId r) \<and> True" using job(3) by simp
  then have inv: "map_inv m ?ids answers (\<lambda>_. True) s"
    by (rule takeover_result [OF f job(1,2) _ job(4) _ run]) (simp add: good_answers_def)
  have "length (m_IntermediateResultMap m) = card (dom (map_find (m_IntermediateResultMap m)))"
    using f(3) by (rule length_eq_card_dom)
  also have "\<dots> \<le> length (g_repl_list leader)"
    unfolding f(4) dom_map_of_conv_image_fst
    by (metis (no_types, lifting) card_image_le card_length finite_set le_trans length_map)
  finally have "length (m_IntermediateResultMap m) \<noteq> unsigned_of_int (m_nmappers m)"
    using job(4,5) f(2) by simp
  then have "live_inv (start_map_dispatch (replicated_jobs m) m)" using live(2,3) by (intro live_start) simp_all
  with run have "live_inv s"
    by (induction rule: rtranclp_induct) (auto intro: live_inv_step)
  then show ?thesis using map_completes [OF inv _ live(1)] job(4) f(2) by (simp add: card_image)
qed

lemma takeover_run:
  assumes "\<forall>s \<in> set (m_shards leader). shard_wire_safe s" "\<forall>r \<in> set (g_repl_list leader). successful r"
    and "indexed_shards leader" "distinct (map mr_shardId (g_repl_list leader))"
    and "\<forall>r \<in> set (g_repl_list leader). shard_index leader (mr_shardId r)"
    and "unsigned_of_int (m_nmappers leader) = length (m_shards leader)"
    and "length (g_repl_list leader) < length (m_shards leader)"
    and "m = deserialize_data (serialize_data leader) follower" "answerable m answers"
    and "\<not> m_will_fail follower" "\<not> m_has_failed follower"
    and "(map_step answers)\<^sup>*\<^sup>* (start_map_dispatch (replicated_jobs m) m) s"
  shows "\<exists>t. (map_step answers)\<^sup>*\<^sup>* s t \<and> ms_pc t = Returned"
proof -
  note f = takeover_fields [OF assms(1,2), of follower, folded assms(8)]
  have "\<not> m_will_fail m" "\<not> m_has_failed m"
    using assms(8,10,11) takeover_flags [of leader follower] by simp_all
  then show ?thesis by (rule takeover_returns [OF f assms(3-7,9) _ _ assms(12)])
qed

text \<open>
  Failover is not stuck: from every state the new leader's map phase can reach it can return,
  provided at least one shard was left to do, a client is registered, the workers can answer and the
  new leader is not set to fail.
\<close>

theorem takeover_completes:
  assumes "\<forall>s \<in> set (m_shards leader). shard_wire_safe s" "\<forall>r \<in> set (g_repl_list leader). successful r"
    and "indexed_shards leader" "distinct (map mr_shardId (g_repl_list leader))"
    and "\<forall>r \<in> set (g_repl_list leader). shard_index leader (mr_shardId r)"
    and "unsigned_of_int (m_nmappers leader) = length (m_shards leader)"
    and "length (g_repl_list leader) < length (m_shards leader)"
    and "m = deserialize_data (serialize_data leader) follower" "answerable m answers"
    and "\<not> m_will_fail follower" "\<not> m_has_failed follower"
    and "(map_step answers)\<^sup>*\<^sup>* (start_map_dispatch (replicated_jobs m) m) s"
  shows "\<exists>t. (map_step answers)\<^sup>*\<^sup>* s t \<and> ms_pc t = Returned"
  using assms by (rule takeover_run)

lemma demo_takeover_hyps:
  "distinct (map mr_shardId (g_repl_list demo_leader))"
  "\<forall>r \<in> set (g_repl_list demo_leader). shard_index demo_leader (mr_shardId r)"
  "unsigned_of_int (m_nmappers demo_leader) = length (m_shards demo_leader)"
  "length (g_repl_list demo_leader) < length (m_shards demo_leader)"
  using demo_leader_simps(4)
  by (simp_all add: demo_leader_simps demo_master_simps shard_index_def indexed_shards_def)
     (simp_all add: demo_leader_def demo_master_def unsigned_of_int_def)

lemma takeover_clients: "m_Clients (takeover leader follower) = m_Clients follower"
proof -
  have "m_Clients (fold read_job js m) = m_Clients m" for js m
    by (induction js arbitrary: m) (simp_all add: read_job_def Let_def)
  then show ?thesis by (simp add: deserialize_data_def Let_def)
qed

lemma demo_takeover_answerable: "answerable (takeover demo_leader demo_master) demo_answers"
  by (simp add: answerable_def takeover_clients demo_master_simps demo_answers_def)

theorem takeover_completes_witness:
  "\<exists>t. (map_step demo_answers)\<^sup>*\<^sup>* (start_map_dispatch (replicated_jobs (takeover demo_leader demo_master))
       (takeover demo_leader demo_master)) t \<and> ms_pc t = Returned"
  by (rule takeover_completes [OF demo_leader_simps(1,2,4) demo_takeover_hyps refl demo_takeover_answerable])
     (simp_all add: demo_master_simps)

lemma demo_takeover_run:
  "\<exists>t. (map_step demo_answers)\<^sup>*\<^sup>* (start_map_dispatch (replicated_jobs (takeover demo_leader demo_master))
       (takeover demo_leader demo_master)) t \<and> ms_pc t = Returned"
  by (rule takeover_run [OF demo_leader_simps(1,2,4) demo_takeover_hyps refl demo_takeover_answerable])
     (simp_all add: demo_master_simps)

theorem takeover_complete_witness:
  "\<exists>s. (map_step demo_answers)\<^sup>*\<^sup>* (start_map_dispatch (replicated_jobs (takeover demo_leader demo_master))
       (takeover demo_leader demo_master)) s \<and> ms_pc s = Returned \<and>
     set (map fst (results s)) = {0, 1} \<and> ms_job_q s = []"
proof -
  obtain s where s: "(map_step demo_answers)\<^sup>*\<^sup>* (start_map_dispatch (replicated_jobs (takeover demo_leader demo_master))
       (takeover demo_leader demo_master)) s" "ms_pc s = Returned"
    using demo_takeover_run by blast
  have ga: "good_answers (takeover demo_leader demo_master) demo_answers (\<lambda>_. True)"
    by (simp add: good_answers_def)
  have "\<forall>r \<in> set (g_repl_list demo_leader). shard_index demo_leader (mr_shardId r) \<and> True"
    using demo_takeover_hyps(2) by simp
  note t = takeover_complete [OF demo_leader_simps(1,2,4) demo_takeover_hyps(1) this demo_takeover_hyps(3) refl ga s]
  then have "set (map fst (results s)) = int ` {0..<2}" "ms_job_q s = []"
    by (simp_all add: demo_leader_simps demo_master_simps)
  moreover have "int ` {0..<2} = {0, 1}" by (auto simp: image_iff numeral_2_eq_2 less_Suc_eq)
  ultimately show ?thesis using s by (intro exI [of _ s] conjI) simp_all
qed

section \<open>Limits of the checkpoint\<close>

lemma size_int32_only:
  assumes "unat (x :: size_t) < 2 ^ 63" "size_of_int32 (int32_of_size x) = x"
  shows "unat x < 2 ^ 31"
proof -
  let ?y = "sint (int32_of_size x)"
  have r: "- (2 ^ 31) \<le> ?y" "?y < 2 ^ 31"
    using sint_greater_eq [of "int32_of_size x"] sint_lt [of "int32_of_size x"] by simp_all
  have "uint x = uint (word_of_int ?y :: size_t)" using assms(2) by (simp add: size_of_int32_def)
  also have "\<dots> = ?y mod 2 ^ 64" by (simp only: uint_word_of_int) simp
  finally have u: "uint x = ?y mod 2 ^ 64" .
  have "int (unat x) < int (2 ^ 63)" using assms(1) by (simp only: of_nat_less_iff)
  then have x: "uint x < 2 ^ 63" by simp
  have "0 \<le> ?y"
  proof (rule ccontr)
    assume "\<not> 0 \<le> ?y"
    then have "?y mod 2 ^ 64 = ?y + 2 ^ 64"
      using r by (subst mod_add_self2 [symmetric], intro mod_pos_pos_trivial) simp_all
    with u x r show False by simp
  qed
  then have "?y mod 2 ^ 64 = ?y" using r by (intro mod_pos_pos_trivial) simp_all
  with u r(2) have "uint x < 2 ^ 31" by simp
  then have "int (unat x) < int (2 ^ 31)" by simp
  then show ?thesis by (simp only: of_nat_less_iff)
qed

text \<open>
  A piece survives the wire format, in checkpoints and in map requests, exactly when both of its
  offsets are below two to the 31: the offsets are 64 bits wide in the program and 32 bits in the
  message, so pieces of larger blobs arrive with other offsets.
\<close>

theorem wire_format_exact:
  assumes "unat (sd_begin d) < 2 ^ 63" "unat (sd_end d) < 2 ^ 63"
  shows "data_of_tuple (tuple_of_data d) = d \<longleftrightarrow> unat (sd_begin d) < 2 ^ 31 \<and> unat (sd_end d) < 2 ^ 31"
proof
  assume "unat (sd_begin d) < 2 ^ 31 \<and> unat (sd_end d) < 2 ^ 31"
  then show "data_of_tuple (tuple_of_data d) = d" by (intro wire.dec_enc) (simp add: wire_safe_def)
next
  assume eq: "data_of_tuple (tuple_of_data d) = d"
  have "size_of_int32 (int32_of_size (sd_begin d)) = sd_begin d"
    "size_of_int32 (int32_of_size (sd_end d)) = sd_end d"
    using arg_cong [OF eq, of sd_begin] arg_cong [OF eq, of sd_end]
    by (simp_all add: data_of_tuple_def tuple_of_data_def new_ShardData_def)
  with assms size_int32_only show "unat (sd_begin d) < 2 ^ 31 \<and> unat (sd_end d) < 2 ^ 31" by blast
qed

theorem wire_format_exact_witness:
  "data_of_tuple (tuple_of_data (new_ShardData ''a'' 0 3000000000)) \<noteq> new_ShardData ''a'' 0 3000000000"
  using wire_format_exact [of "new_ShardData ''a'' 0 3000000000"] by (simp add: new_ShardData_def)

text \<open>
  The replication list survives the end of a job. Starting the next map phase does not clear it,
  so a new leader takes the results of the finished job for results of the current one: here it
  dispatches only the second of two shards, although neither was mapped.
\<close>

theorem stale_results_replicated:
  "g_repl_list (ms_master (runMapper demo_leader)) = g_repl_list demo_leader \<and>
   replicated_jobs (PushJobStatus (ms_master (runMapper demo_leader)) 0 demo_master) = [1]"
  by (simp add: runMapper_def start_map_dispatch_def PushJobStatus_def pushCheckPointData_def deserialize_data_def serialize_data_def
      Let_def demo_leader_def demo_master_def replicated_jobs_def shard_set_of_def shard_of_set_def
      new_FileShard_def read_job_def job_status_of_def)

end
