(* ===== verification/Sharding.thy ===== *)
theory Sharding
  imports Helpers
begin

text \<open>
  Splitting the input container into shards: \<^verbatim>\<open>DBConnection::make_shards\<close> of
  \<^verbatim>\<open>w7/src/master/dbconn.h\<close> and the grouping loop of
  \<^verbatim>\<open>Master::create_sharding_data\<close> in \<^verbatim>\<open>w7/src/master/masterimpl.cc\<close>.
  The offsets are 64-bit words as in the code, the inner loop may run forever, so it is a
  partial function. A reference definition on natural numbers (\<open>cut_blob\<close>, \<open>cut_blobs\<close>)
  says where the cuts fall; the word-level code refines it when no offset can wrap around.
\<close>

section \<open>The code\<close>

text \<open>What the storage service lists for a container: blobs with their sizes, and virtual
  directories, which the code skips.\<close>

datatype list_blob_item = BlobItem string size_t | DirectoryItem string

fun is_blob :: "list_blob_item \<Rightarrow> bool" where
  "is_blob (BlobItem n sz) = True"
| "is_blob (DirectoryItem n) = False"

text \<open>The inner \<^verbatim>\<open>while (end <= blob_sz)\<close> loop. It returns the variables the code
  reads afterwards: \<open>rem_shard_sz\<close>, \<open>begin\<close>, \<open>end\<close> and the shard list.\<close>

partial_function (option) shard_loop ::
    "string \<Rightarrow> size_t \<Rightarrow> size_t \<Rightarrow> size_t \<Rightarrow> size_t \<Rightarrow> size_t \<Rightarrow> shard_info list \<Rightarrow>
     (size_t \<times> size_t \<times> size_t \<times> shard_info list) option" where
  "shard_loop nm blob_sz shard_sz rem b e acc =
     (if e \<le> blob_sz then
        (let acc' = acc @ [new_shard_info nm b e False]; rem' = shard_sz in
         if e = blob_sz then Some (rem', b, e, acc')
         else
           (let b' = e; e' = b' + shard_sz in
            if blob_sz < e' then Some (rem', b', e', acc')
            else shard_loop nm blob_sz shard_sz rem' b' e' acc'))
      else Some (rem, b, e, acc))"

text \<open>One iteration of the outer loop, for a blob.\<close>

definition shard_blob ::
    "size_t \<Rightarrow> string \<Rightarrow> size_t \<Rightarrow> size_t \<Rightarrow> shard_info list \<Rightarrow> (size_t \<times> shard_info list) option" where
  "shard_blob shard_sz nm blob_sz rem acc =
     (case shard_loop nm blob_sz shard_sz rem 0 rem acc of
        None \<Rightarrow> None
      | Some (rem', b, e, acc') \<Rightarrow>
          if blob_sz < e
          then Some (rem' - (blob_sz - b), acc' @ [new_shard_info nm b blob_sz True])
          else Some (rem', acc'))"

fun make_shards_loop ::
    "size_t \<Rightarrow> list_blob_item list \<Rightarrow> size_t \<Rightarrow> shard_info list \<Rightarrow> shard_info list option" where
  "make_shards_loop shard_sz [] rem acc = Some acc"
| "make_shards_loop shard_sz (DirectoryItem n # items) rem acc =
     make_shards_loop shard_sz items rem acc"
| "make_shards_loop shard_sz (BlobItem n sz # items) rem acc =
     (case shard_blob shard_sz n sz rem acc of
        None \<Rightarrow> None
      | Some (rem', acc') \<Rightarrow> make_shards_loop shard_sz items rem' acc')"

definition make_shards :: "size_t \<Rightarrow> list_blob_item list \<Rightarrow> shard_info list option" where
  "make_shards shard_sz items = make_shards_loop shard_sz items shard_sz []"

text \<open>The loop of \<^verbatim>\<open>create_sharding_data\<close> that joins partial pieces into one
  \<open>FileShard\<close>; the arguments are the pieces left, the pending set, the shard counter and
  the shards built so far.\<close>

fun join_shards ::
    "shard_info list \<Rightarrow> ShardData list \<Rightarrow> int \<Rightarrow> FileShard list \<Rightarrow> FileShard list" where
  "join_shards [] info_set ctr shards =
     (if length info_set > 0
      then shards @ [new_FileShard (fst (getShardId False ctr)) info_set] else shards)"
| "join_shards (item # items) info_set ctr shards =
     (let info_set' = info_set @ [new_ShardData (si_blob_name item) (si_begin_offset item)
                                    (si_end_offset item)]
      in if si_is_partial item then join_shards items info_set' ctr shards
         else join_shards items [] (snd (getShardId False ctr))
                (shards @ [new_FileShard (fst (getShardId False ctr)) info_set']))"

text \<open>From the shard size to \<open>m_shards\<close>: cut, reset the counter, join.\<close>

definition shards_of :: "size_t \<Rightarrow> list_blob_item list \<Rightarrow> FileShard list option" where
  "shards_of shard_sz items =
     (case make_shards shard_sz items of
        None \<Rightarrow> None
      | Some shardList \<Rightarrow> Some (join_shards shardList [] (snd (getShardId True (- 1))) []))"

section \<open>Reference definition\<close>

text \<open>Cut points on natural numbers: \<open>full_cuts s n b e\<close> are the full pieces from offset
  \<open>b\<close> when the first cut is at \<open>e\<close> and the following ones \<open>s\<close> apart.\<close>

function full_cuts :: "nat \<Rightarrow> nat \<Rightarrow> nat \<Rightarrow> nat \<Rightarrow> (nat \<times> nat) list" where
  "full_cuts s n b e = (if 0 < s \<and> e \<le> n then (b, e) # full_cuts s n e (e + s) else [])"
  by pat_completeness auto
termination
  by (relation "measure (\<lambda>(s, n, b, e). Suc n - e)") auto

declare full_cuts.simps [simp del]

definition cut_end :: "nat \<Rightarrow> (nat \<times> nat) list \<Rightarrow> nat" where
  "cut_end b cs = (if cs = [] then b else snd (last cs))"

text \<open>The pieces of one blob with \<open>r\<close> bytes missing from the current shard, and what is
  missing afterwards.\<close>

definition cut_blob :: "nat \<Rightarrow> nat \<Rightarrow> nat \<Rightarrow> (nat \<times> nat \<times> bool) list \<times> nat" where
  "cut_blob s n r =
     (let cs = full_cuts s n 0 r; b = cut_end 0 cs; fulls = map (\<lambda>(x, y). (x, y, False)) cs in
      if cs \<noteq> [] \<and> b = n then (fulls, s)
      else (fulls @ [(b, n, True)], (if cs = [] then r else s) - (n - b)))"

fun cut_blobs :: "nat \<Rightarrow> nat \<Rightarrow> (string \<times> nat) list \<Rightarrow> (string \<times> nat \<times> nat \<times> bool) list" where
  "cut_blobs s r [] = []"
| "cut_blobs s r ((nm, n) # bs) =
     map (Pair nm) (fst (cut_blob s n r)) @ cut_blobs s (snd (cut_blob s n r)) bs"

definition cut_pieces :: "nat \<Rightarrow> (string \<times> nat) list \<Rightarrow> (string \<times> nat \<times> nat) list" where
  "cut_pieces s bs = map (\<lambda>(nm, x, y, p). (nm, x, y)) (cut_blobs s s bs)"

text \<open>The blobs of a listing with their sizes, and the total number of bytes.\<close>

fun blobs_of :: "list_blob_item list \<Rightarrow> (string \<times> nat) list" where
  "blobs_of [] = []"
| "blobs_of (DirectoryItem n # items) = blobs_of items"
| "blobs_of (BlobItem n sz # items) = (n, unat sz) # blobs_of items"

definition total_bytes :: "list_blob_item list \<Rightarrow> nat" where
  "total_bytes items = sum_list (map snd (blobs_of items))"

definition piece_of :: "string \<times> nat \<times> nat \<times> bool \<Rightarrow> shard_info" where
  "piece_of p = (case p of (nm, b, e, part) \<Rightarrow> new_shard_info nm (of_nat b) (of_nat e) part)"

text \<open>\<open>tiles b e ps\<close>: the non-empty intervals \<open>ps\<close> follow each other without gap or overlap
  from \<open>b\<close> to \<open>e\<close>. An empty blob is covered by one empty interval.\<close>

fun tiles :: "nat \<Rightarrow> nat \<Rightarrow> (nat \<times> nat) list \<Rightarrow> bool" where
  "tiles b e [] = (b = e)"
| "tiles b e ((x, y) # ps) = (x = b \<and> x < y \<and> tiles y e ps)"

definition covers :: "nat \<Rightarrow> (nat \<times> nat) list \<Rightarrow> bool" where
  "covers n ps \<longleftrightarrow> (if n = 0 then ps = [(0, 0)] else tiles 0 n ps)"

text \<open>The size of a piece with its flag, and pieces that fill shards of \<open>s\<close> bytes exactly when
  \<open>r\<close> bytes are missing from the current one.\<close>

fun paced :: "nat \<Rightarrow> nat \<Rightarrow> (nat \<times> bool) list \<Rightarrow> bool" where
  "paced s r [] = True"
| "paced s r ((sz, part) # ps) =
     (if part then sz < r \<and> paced s (r - sz) ps else sz = r \<and> paced s s ps)"

text \<open>No offset of the listing can wrap around when a shard size is added to it.\<close>

definition fits_size_t :: "size_t \<Rightarrow> list_blob_item list \<Rightarrow> bool" where
  "fits_size_t shard_sz items \<longleftrightarrow> (\<forall>(nm, n) \<in> set (blobs_of items). n + unat shard_sz < 2 ^ 64)"

definition data_interval :: "ShardData \<Rightarrow> string \<times> nat \<times> nat" where
  "data_interval d = (sd_blobName d, unat (sd_begin d), unat (sd_end d))"

definition info_size :: "shard_info \<Rightarrow> nat \<times> bool" where
  "info_size p = (unat (si_end_offset p) - unat (si_begin_offset p), si_is_partial p)"

definition data_bytes :: "ShardData \<Rightarrow> nat" where
  "data_bytes d = unat (sd_end d) - unat (sd_begin d)"

definition shard_bytes :: "FileShard \<Rightarrow> nat" where
  "shard_bytes f = sum_list (map data_bytes (fs_sets f))"

section \<open>The cuts of one blob\<close>

lemma tiles_append: "tiles b e (ps @ qs) \<longleftrightarrow> (\<exists>m. tiles b m ps \<and> tiles m e qs)"
  by (induction b e ps rule: tiles.induct) auto

lemma tiles_le: "tiles b e ps \<Longrightarrow> b \<le> e"
  by (induction b e ps rule: tiles.induct) auto

lemma full_cuts_Nil [simp]: "n < e \<Longrightarrow> full_cuts s n b e = []"
  by (simp add: full_cuts.simps)

lemma full_cuts_Cons:
  "0 < s \<Longrightarrow> e \<le> n \<Longrightarrow> full_cuts s n b e = (b, e) # full_cuts s n e (e + s)"
  by (subst full_cuts.simps) simp

lemma full_cuts_eq_Nil: "0 < s \<Longrightarrow> full_cuts s n b e = [] \<longleftrightarrow> n < e"
  by (subst full_cuts.simps) auto

lemma cut_end_Cons: "cut_end b ((x, y) # cs) = cut_end y cs"
  by (simp add: cut_end_def)

lemma full_cuts_tiles:
  "0 < s \<Longrightarrow> b < e \<Longrightarrow> b \<le> n \<Longrightarrow>
     tiles b (cut_end b (full_cuts s n b e)) (full_cuts s n b e) \<and>
     cut_end b (full_cuts s n b e) \<le> n"
proof (induction s n b e rule: full_cuts.induct)
  case (1 s n b e)
  show ?case
  proof (cases "e \<le> n")
    case True
    with "1.prems" "1.IH" show ?thesis by (simp add: full_cuts_Cons cut_end_Cons)
  next
    case False
    with "1.prems" show ?thesis by (simp add: cut_end_def)
  qed
qed

text \<open>What is left after the last full cut is shorter than the distance to the next one.\<close>

lemma full_cuts_rest:
  "0 < s \<Longrightarrow> b < e \<Longrightarrow> b \<le> n \<Longrightarrow>
     n - cut_end b (full_cuts s n b e) <
       (if full_cuts s n b e = [] then e - b else s)"
proof (induction s n b e rule: full_cuts.induct)
  case (1 s n b e)
  show ?case
  proof (cases "e \<le> n")
    case True
    with "1.IH" "1.prems" have "n - cut_end e (full_cuts s n e (e + s)) < s"
      by (cases "full_cuts s n e (e + s) = []") auto
    with True "1.prems" show ?thesis by (simp add: full_cuts_Cons cut_end_Cons)
  next
    case False
    with "1.prems" show ?thesis by (simp add: cut_end_def)
  qed
qed

lemma cut_blob_covers:
  assumes "0 < s" "0 < r"
  shows "covers n (map (\<lambda>(x, y, p). (x, y)) (fst (cut_blob s n r)))"
proof -
  let ?cs = "full_cuts s n 0 r"
  have *: "tiles 0 (cut_end 0 ?cs) ?cs" "cut_end 0 ?cs \<le> n"
    using full_cuts_tiles [of s 0 r n] assms by auto
  have eq: "map (\<lambda>(x, y, p). (x, y)) (map (\<lambda>(x, y). (x, y, False)) ?cs) = ?cs"
    by (simp add: comp_def case_prod_unfold)
  have "full_cuts s 0 0 r = []" using assms by simp
  with * eq assms show ?thesis
    by (cases "n = 0")
       (auto simp: cut_blob_def Let_def tiles_append covers_def cut_end_def le_less)
qed

lemma cut_blob_rem:
  assumes "0 < s" "0 < r" "r \<le> s"
  shows "0 < snd (cut_blob s n r)" "snd (cut_blob s n r) \<le> s"
  using full_cuts_rest [of s 0 r n] assms
  by (auto simp: cut_blob_def Let_def split: if_splits)

section \<open>The code refines the reference\<close>

lemma size_t_le [simp]:
  "x < 2 ^ 64 \<Longrightarrow> y < 2 ^ 64 \<Longrightarrow> (of_nat x :: size_t) \<le> of_nat y \<longleftrightarrow> x \<le> y"
  by (simp add: word_le_nat_alt unat_of_nat)

lemma size_t_less [simp]:
  "x < 2 ^ 64 \<Longrightarrow> y < 2 ^ 64 \<Longrightarrow> (of_nat x :: size_t) < of_nat y \<longleftrightarrow> x < y"
  by (simp add: word_less_nat_alt unat_of_nat)

lemma size_t_eq [simp]:
  "x < 2 ^ 64 \<Longrightarrow> y < 2 ^ 64 \<Longrightarrow> (of_nat x :: size_t) = of_nat y \<longleftrightarrow> x = y"
  by (simp add: word_unat_eq_iff unat_of_nat)

lemma unat_less_64 [simp]: "unat (x :: size_t) < 18446744073709551616"
  using unsigned_less [of x] by simp

lemma shard_loop_refines:
  assumes "0 < s" "b < e" "b \<le> n" "e \<le> n + s" "n + s < 2 ^ 64"
  shows "\<exists>b' e'.
    shard_loop nm (of_nat n) (of_nat s) rem (of_nat b) (of_nat e) acc =
      Some (if full_cuts s n b e = [] then rem else of_nat s, b', e',
            acc @ map (\<lambda>(x, y). new_shard_info nm (of_nat x) (of_nat y) False) (full_cuts s n b e)) \<and>
    (of_nat n < e' \<longleftrightarrow> full_cuts s n b e = [] \<or> cut_end b (full_cuts s n b e) \<noteq> n) \<and>
    (of_nat n < e' \<longrightarrow> b' = of_nat (cut_end b (full_cuts s n b e)))"
  using assms
proof (induction s n b e arbitrary: rem acc rule: full_cuts.induct)
  case (1 s n b e)
  let ?acc = "acc @ [new_shard_info nm (of_nat b) (of_nat e) False]"
  consider (over) "n < e" | (exact) "e = n" | (last) "e < n" "n < e + s" | (more) "e < n" "e + s \<le> n"
    by linarith
  then show ?case
  proof cases
    case over
    with "1.prems" show ?thesis by (subst shard_loop.simps) (simp add: cut_end_def)
  next
    case exact
    with "1.prems" show ?thesis
      by (subst shard_loop.simps) (simp add: full_cuts_Cons cut_end_Cons, simp add: cut_end_def)
  next
    case last
    have "(of_nat e :: size_t) + of_nat s = of_nat (e + s)" by simp
    with last "1.prems" show ?thesis
      by (subst shard_loop.simps)
         (simp add: full_cuts_Cons cut_end_Cons del: of_nat_add, simp add: cut_end_def)
  next
    case more
    from more "1.prems" have cuts: "full_cuts s n b e = (b, e) # full_cuts s n e (e + s)"
      and ne: "full_cuts s n e (e + s) \<noteq> []"
      by (auto simp: full_cuts_Cons full_cuts_eq_Nil)
    have step: "shard_loop nm (of_nat n) (of_nat s) rem (of_nat b) (of_nat e) acc =
        shard_loop nm (of_nat n) (of_nat s) (of_nat s) (of_nat e) (of_nat (e + s)) ?acc"
    proof -
      have "(of_nat e :: size_t) + of_nat s = of_nat (e + s)" by simp
      moreover have "\<not> (of_nat n :: size_t) < of_nat (e + s)"
        using more "1.prems" by (simp del: of_nat_add)
      ultimately show ?thesis
        using more "1.prems" by (subst shard_loop.simps) (simp add: Let_def del: of_nat_add)
    qed
    from "1.IH" [of "of_nat s" ?acc] more "1.prems" ne show ?thesis
      by (simp add: step cuts cut_end_Cons del: of_nat_add)
  qed
qed

lemma shard_blob_refines:
  assumes "0 < s" "0 < r" "r \<le> s" "n + s < 2 ^ 64"
  shows "shard_blob (of_nat s) nm (of_nat n) (of_nat r) acc =
    Some (of_nat (snd (cut_blob s n r)), acc @ map (\<lambda>p. piece_of (nm, p)) (fst (cut_blob s n r)))"
proof -
  let ?cs = "full_cuts s n 0 r"
  obtain b' e' where loop: "shard_loop nm (of_nat n) (of_nat s) (of_nat r) (of_nat 0) (of_nat r) acc =
      Some (if ?cs = [] then of_nat r else of_nat s, b', e',
            acc @ map (\<lambda>(x, y). new_shard_info nm (of_nat x) (of_nat y) False) ?cs)"
    and past: "of_nat n < e' \<longleftrightarrow> ?cs = [] \<or> cut_end 0 ?cs \<noteq> n"
    and b': "of_nat n < e' \<longrightarrow> b' = of_nat (cut_end 0 ?cs)"
    using shard_loop_refines [of s 0 r n nm "of_nat r" acc] assms by fastforce
  have le: "cut_end 0 ?cs \<le> n" "n - cut_end 0 ?cs \<le> (if ?cs = [] then r else s)"
    using full_cuts_tiles [of s 0 r n] full_cuts_rest [of s 0 r n] assms by auto
  have loop0: "shard_loop nm (of_nat n) (of_nat s) (of_nat r) 0 (of_nat r) acc =
      Some (of_nat (if ?cs = [] then r else s), b', e',
            acc @ map (\<lambda>p. piece_of (nm, p)) (map (\<lambda>(x, y). (x, y, False)) ?cs))"
    using loop by (simp add: piece_of_def case_prod_unfold comp_def)
  show ?thesis
  proof (cases "?cs \<noteq> [] \<and> cut_end 0 ?cs = n")
    case True
    with past loop0 show ?thesis by (simp add: shard_blob_def cut_blob_def Let_def)
  next
    case False
    with past b' have *: "of_nat n < e'" "b' = of_nat (cut_end 0 ?cs)" by auto
    have "(of_nat (if ?cs = [] then r else s) :: size_t) - (of_nat n - of_nat (cut_end 0 ?cs)) =
        of_nat ((if ?cs = [] then r else s) - (n - cut_end 0 ?cs))"
      using le by (simp only: of_nat_diff)
    with False * loop0 show ?thesis
      by (simp only: shard_blob_def cut_blob_def Let_def) (simp add: piece_of_def)
  qed
qed

lemma make_shards_loop_refines:
  assumes "0 < s" "0 < r" "r \<le> s" "\<forall>(nm, n) \<in> set (blobs_of items). n + s < 2 ^ 64"
  shows "make_shards_loop (of_nat s) items (of_nat r) acc =
    Some (acc @ map piece_of (cut_blobs s r (blobs_of items)))"
  using assms
proof (induction items arbitrary: r acc)
  case Nil
  then show ?case by simp
next
  case (Cons item items)
  show ?case
  proof (cases item)
    case (DirectoryItem n)
    with Cons show ?thesis by simp
  next
    case (BlobItem nm sz)
    with Cons.prems have "shard_blob (of_nat s) nm (of_nat (unat sz)) (of_nat r) acc =
        Some (of_nat (snd (cut_blob s (unat sz) r)),
              acc @ map (\<lambda>p. piece_of (nm, p)) (fst (cut_blob s (unat sz) r)))"
      by (intro shard_blob_refines) auto
    with BlobItem Cons cut_blob_rem [of s r "unat sz"] show ?thesis
      by (simp add: comp_def)
  qed
qed

lemma make_shards_refines:
  assumes "0 < shard_sz" "fits_size_t shard_sz items"
  shows "make_shards shard_sz items =
    Some (map piece_of (cut_blobs (unat shard_sz) (unat shard_sz) (blobs_of items)))"
proof -
  have "0 < unat shard_sz" using assms(1) by (simp add: word_less_nat_alt)
  then show ?thesis
    using make_shards_loop_refines [of "unat shard_sz" "unat shard_sz" items "[]"] assms(2)
    by (simp add: make_shards_def fits_size_t_def)
qed

text \<open>With a zero shard size and a non-empty blob the loop never returns.\<close>

lemma shard_loop_diverges:
  assumes "0 < blob_sz"
  shows "shard_loop nm blob_sz 0 rem b 0 acc = None"
proof (rule ccontr)
  assume "shard_loop nm blob_sz 0 rem b 0 acc \<noteq> None"
  then obtain r where ret: "shard_loop nm blob_sz 0 rem b 0 acc = Some r" by auto
  have "0 < blob_sz \<longrightarrow> (0::size_t) = 0 \<longrightarrow> (0::size_t) = 0 \<longrightarrow> False"
  proof (rule shard_loop.raw_induct
      [where P = "\<lambda>nm n s rem b e acc r. 0 < n \<longrightarrow> s = 0 \<longrightarrow> e = 0 \<longrightarrow> False", OF _ ret])
    fix loop :: "string \<Rightarrow> size_t \<Rightarrow> size_t \<Rightarrow> size_t \<Rightarrow> size_t \<Rightarrow> size_t \<Rightarrow> shard_info list \<Rightarrow>
      (size_t \<times> size_t \<times> size_t \<times> shard_info list) option"
    fix nm and n s rem b e :: size_t and acc r
    assume IH: "\<And>nm n s rem b e acc r. loop nm n s rem b e acc = Some r \<Longrightarrow>
        0 < n \<longrightarrow> s = 0 \<longrightarrow> e = 0 \<longrightarrow> False"
      and eq: "(if e \<le> n then
        (let acc' = acc @ [new_shard_info nm b e False]; rem' = s in
         if e = n then Some (rem', b, e, acc')
         else
           (let b' = e; e' = b' + s in
            if n < e' then Some (rem', b', e', acc')
            else loop nm n s rem' b' e' acc'))
      else Some (rem, b, e, acc)) = Some r"
    show "0 < n \<longrightarrow> s = 0 \<longrightarrow> e = 0 \<longrightarrow> False"
      using eq IH [of nm n s s e e "acc @ [new_shard_info nm b e False]" r]
      by (auto simp: Let_def split: if_splits)
  qed
  with assms show False by simp
qed

section \<open>Shards: identifiers, contents, sizes\<close>

lemma join_shards_append:
  "join_shards ps info ctr shards = shards @ join_shards ps info ctr []"
proof (induction ps arbitrary: info ctr shards)
  case (Cons p ps)
  show ?case
    using Cons.IH [of _ _ "shards @ [_]"] Cons.IH [of _ _ "[_]"] Cons.IH [of _ _ shards]
    by (simp add: Let_def)
qed simp

lemma join_shards_ids:
  "k < length (join_shards ps info ctr []) \<Longrightarrow>
     fs_shardId (join_shards ps info ctr [] ! k) = ctr + 1 + int k"
proof (induction ps arbitrary: info ctr k)
  case (Cons p ps)
  then show ?case
    by (cases k)
       (auto simp: Let_def getShardId_def join_shards_append [of _ _ _ "[_]"] new_FileShard_def)
qed (auto simp: getShardId_def new_FileShard_def split: if_splits)

lemma join_shards_sets:
  "concat (map fs_sets (join_shards ps info ctr [])) =
     info @ map (\<lambda>p. new_ShardData (si_blob_name p) (si_begin_offset p) (si_end_offset p)) ps"
proof (induction ps arbitrary: info ctr)
  case (Cons p ps)
  then show ?case
    by (simp add: Let_def join_shards_append [of _ _ _ "[_]"] new_FileShard_def)
qed (simp add: new_FileShard_def)

lemma join_shards_nonempty: "f \<in> set (join_shards ps info ctr []) \<Longrightarrow> fs_sets f \<noteq> []"
proof (induction ps arbitrary: info ctr)
  case (Cons p ps)
  then show ?case
    by (auto simp: Let_def join_shards_append [of _ _ _ "[_]"] new_FileShard_def split: if_splits)
qed (auto simp: new_FileShard_def split: if_splits)

lemma join_shards_balanced:
  assumes "paced s r (map info_size ps)" "sum_list (map data_bytes info) + r = s" "0 < r"
  shows "\<exists>full rest. join_shards ps info ctr [] = full @ rest \<and>
    (\<forall>f \<in> set full. shard_bytes f = s) \<and> length rest \<le> 1 \<and> (\<forall>f \<in> set rest. shard_bytes f < s)"
  using assms
proof (induction ps arbitrary: info ctr r)
  case Nil
  then have "shard_bytes (new_FileShard i info) < s" for i
    by (simp add: shard_bytes_def new_FileShard_def)
  then show ?case
    by (cases "info = []") (simp_all add: getShardId_def exI [of _ "[]"])
next
  case (Cons p ps)
  let ?info = "info @ [new_ShardData (si_blob_name p) (si_begin_offset p) (si_end_offset p)]"
  have sz: "data_bytes (new_ShardData (si_blob_name p) (si_begin_offset p) (si_end_offset p)) =
      fst (info_size p)"
    by (simp add: data_bytes_def new_ShardData_def info_size_def)
  have flag: "snd (info_size p) = si_is_partial p" by (simp add: info_size_def)
  show ?case
  proof (cases "si_is_partial p")
    case True
    with Cons.prems have "paced s (r - fst (info_size p)) (map info_size ps)" "fst (info_size p) < r"
      using flag by (cases "info_size p"; simp)+
    with Cons.IH [of "r - fst (info_size p)" ?info ctr] Cons.prems sz True show ?thesis
      by (simp add: Let_def)
  next
    case False
    with Cons.prems have "paced s s (map info_size ps)" and full: "fst (info_size p) = r"
      using flag by (cases "info_size p"; simp)+
    with Cons.IH [of s "[]" "ctr + 1"] Cons.prems obtain full rest where
      *: "join_shards ps [] (ctr + 1) [] = full @ rest" "\<forall>f \<in> set full. shard_bytes f = s"
         "length rest \<le> 1" "\<forall>f \<in> set rest. shard_bytes f < s"
      by auto
    let ?f = "new_FileShard (ctr + 1) ?info"
    have "shard_bytes ?f = s"
      using sz full Cons.prems by (simp add: shard_bytes_def new_FileShard_def)
    with * False show ?thesis
      by (intro exI [of _ "?f # full"] exI [of _ rest])
         (simp add: Let_def getShardId_def join_shards_append [of _ _ _ "[_]"])
  qed
qed

lemma paced_append_fulls:
  "0 < s \<Longrightarrow> b < e \<Longrightarrow> r = e - b \<Longrightarrow>
     paced s r (map (\<lambda>(x, y). (y - x, False)) (full_cuts s n b e) @ ps) \<longleftrightarrow>
     paced s (if full_cuts s n b e = [] then r else s) ps"
proof (induction s n b e arbitrary: r rule: full_cuts.induct)
  case (1 s n b e)
  show ?case
  proof (cases "e \<le> n")
    case True
    with "1.IH" [of s] "1.prems" show ?thesis by (simp add: full_cuts_Cons)
  next
    case False
    then show ?thesis by simp
  qed
qed

lemma cut_blobs_paced:
  "0 < s \<Longrightarrow> 0 < r \<Longrightarrow> r \<le> s \<Longrightarrow>
     paced s r (map (\<lambda>(nm, x, y, p). (y - x, p)) (cut_blobs s r bs))"
proof (induction s r bs rule: cut_blobs.induct)
  case (2 s r nm n bs)
  let ?cs = "full_cuts s n 0 r" and ?r' = "snd (cut_blob s n r)"
  let ?rest = "map (\<lambda>(nm, x, y, p). (y - x, p)) (cut_blobs s ?r' bs)"
  have IH: "paced s ?r' ?rest"
    using 2 cut_blob_rem [of s r n] by simp
  have "n - cut_end 0 ?cs < (if ?cs = [] then r else s)"
    using full_cuts_rest [of s 0 r n] 2(2,3) by (auto split: if_splits)
  then have "paced s r (map (\<lambda>(x, y, p). (y - x, p)) (fst (cut_blob s n r)) @ ?rest)"
    using IH paced_append_fulls [of s 0 r r n] 2(2,3)
    by (auto simp: cut_blob_def Let_def comp_def case_prod_unfold split: if_splits)
  then show ?case by (simp add: comp_def case_prod_unfold)
qed simp

section \<open>The contract of a cutter\<close>

text \<open>
  Whoever reads the pieces relies on one promise: the pieces of each blob cover it. Anything
  additive over adjacent intervals (byte counts, word counts) then has the same total over the
  pieces as over the whole blobs.
\<close>

lemma tiles_bounds: "tiles b e ps \<Longrightarrow> (x, y) \<in> set ps \<Longrightarrow> b \<le> x \<and> x < y \<and> y \<le> e"
proof (induction b e ps rule: tiles.induct)
  case (2 b e x' y' ps)
  then show ?case using tiles_le [of y' e ps] by auto
qed simp

lemma covers_bounds: "covers n ps \<Longrightarrow> (x, y) \<in> set ps \<Longrightarrow> x \<le> y \<and> y \<le> n"
  using tiles_bounds [of 0 n ps x y] by (auto simp: covers_def split: if_splits)

lemma tiles_sum:
  fixes F :: "nat \<Rightarrow> nat \<Rightarrow> 'm::comm_monoid_add"
  assumes "\<And>x m y. x < m \<Longrightarrow> m < y \<Longrightarrow> y \<le> n \<Longrightarrow> F x m + F m y = F x y"
  shows "tiles b e ps \<Longrightarrow> b < e \<Longrightarrow> e \<le> n \<Longrightarrow> sum_list (map (\<lambda>(x, y). F x y) ps) = F b e"
proof (induction b e ps rule: tiles.induct)
  case (2 b e x y ps)
  show ?case
  proof (cases "y = e")
    case True
    with 2 have "ps = []" by (cases ps) (fastforce dest: tiles_le)+
    with True 2 show ?thesis by simp
  next
    case False
    with 2 tiles_le [of y e ps] have "y < e" by auto
    with 2 assms show ?thesis by simp
  qed
qed simp

locale blob_cutter =
  fixes cut :: "'p \<Rightarrow> (string \<times> nat) list \<Rightarrow> (string \<times> nat \<times> nat) list"
    and ok :: "'p \<Rightarrow> bool"
  assumes cut_covers: "ok p \<Longrightarrow> \<exists>pss. list_all2 (\<lambda>(nm, n) ps. covers n ps) bs pss \<and>
      cut p bs = concat (map2 (\<lambda>(nm, n) ps. map (Pair nm) ps) bs pss)"
begin

lemma cut_sum:
  fixes F :: "string \<Rightarrow> nat \<Rightarrow> nat \<Rightarrow> 'm::comm_monoid_add"
  assumes "ok p"
    and add: "\<And>nm n x m y. (nm, n) \<in> set bs \<Longrightarrow> x < m \<Longrightarrow> m < y \<Longrightarrow> y \<le> n \<Longrightarrow>
      F nm x m + F nm m y = F nm x y"
  shows "sum_list (map (\<lambda>(nm, x, y). F nm x y) (cut p bs)) =
    sum_list (map (\<lambda>(nm, n). F nm 0 n) bs)"
proof -
  have blob: "sum_list (map (\<lambda>(x, y). F nm x y) ps) = F nm 0 n"
    if "(nm, n) \<in> set bs" "covers n ps" for nm n ps
    using that tiles_sum [of n "F nm" 0 n ps] add by (auto simp: covers_def split: if_splits)
  obtain pss where pss: "list_all2 (\<lambda>(nm, n) ps. covers n ps) bs pss"
    and cut: "cut p bs = concat (map2 (\<lambda>(nm, n) ps. map (Pair nm) ps) bs pss)"
    using cut_covers [OF assms(1)] by blast
  from pss blob have "sum_list (map (\<lambda>(nm, x, y). F nm x y)
      (concat (map2 (\<lambda>(nm, n) ps. map (Pair nm) ps) bs pss))) = sum_list (map (\<lambda>(nm, n). F nm 0 n) bs)"
  proof (induction rule: list_all2_induct)
    case (Cons b bs ps pss)
    obtain nm n where b: "b = (nm, n)" by (cases b)
    with Cons.hyps Cons.prems [of nm n ps] have "sum_list (map (\<lambda>(x, y). F nm x y) ps) = F nm 0 n"
      by simp
    moreover have "sum_list (map (\<lambda>(nm, x, y). F nm x y)
        (concat (map2 (\<lambda>(nm, n) ps. map (Pair nm) ps) bs pss))) = sum_list (map (\<lambda>(nm, n). F nm 0 n) bs)"
      using Cons by simp
    ultimately show ?case by (simp add: b comp_def case_prod_unfold)
  qed simp
  with cut show ?thesis by simp
qed

lemma cut_bounded:
  assumes "ok p" "(nm, x, y) \<in> set (cut p bs)"
  shows "\<exists>n. (nm, n) \<in> set bs \<and> x \<le> y \<and> y \<le> n"
proof -
  obtain pss where "list_all2 (\<lambda>(nm, n) ps. covers n ps) bs pss"
    and "(nm, x, y) \<in> set (concat (map2 (\<lambda>(nm, n) ps. map (Pair nm) ps) bs pss))"
    using cut_covers [OF assms(1), of bs] assms(2) by metis
  then show ?thesis
  proof (induction rule: list_all2_induct)
    case (Cons b bs ps pss)
    then show ?case using covers_bounds by (cases b) fastforce
  qed simp
qed

end

lemma cut_blobs_covers:
  assumes "0 < s" "0 < r" "r \<le> s"
  shows "\<exists>pss. list_all2 (\<lambda>(nm, n) ps. covers n ps) bs pss \<and>
    map (\<lambda>(nm, x, y, p). (nm, x, y)) (cut_blobs s r bs) =
      concat (map2 (\<lambda>(nm, n) ps. map (Pair nm) ps) bs pss)"
  using assms
proof (induction s r bs rule: cut_blobs.induct)
  case (2 s r nm n bs)
  then obtain pss where "list_all2 (\<lambda>(nm, n) ps. covers n ps) bs pss"
    "map (\<lambda>(nm, x, y, p). (nm, x, y)) (cut_blobs s (snd (cut_blob s n r)) bs) =
      concat (map2 (\<lambda>(nm, n) ps. map (Pair nm) ps) bs pss)"
    using cut_blob_rem [of s r n] by auto
  with 2 cut_blob_covers [of s r n] show ?case
    by (intro exI [of _ "map (\<lambda>(x, y, p). (x, y)) (fst (cut_blob s n r)) # pss"])
       (simp add: comp_def case_prod_unfold)
qed simp

interpretation cutter: blob_cutter cut_pieces "\<lambda>s. 0 < s"
  by unfold_locales (use cut_blobs_covers in \<open>auto simp: cut_pieces_def\<close>)

section \<open>Correctness of the sharding\<close>

lemma unat_pos: "0 < (w :: size_t) \<Longrightarrow> 0 < unat w"
  by (simp add: word_less_nat_alt)

lemma shards_of_eq:
  assumes "0 < shard_sz" "fits_size_t shard_sz items"
  shows "shards_of shard_sz items =
    Some (join_shards (map piece_of (cut_blobs (unat shard_sz) (unat shard_sz) (blobs_of items)))
            [] (- 1) [])"
  using make_shards_refines [OF assms] by (simp add: shards_of_def getShardId_def)

lemma cut_blobs_bounded:
  assumes "0 < s" "(nm, x, y, p) \<in> set (cut_blobs s s (blobs_of items))"
  shows "x \<le> y \<and> y < 2 ^ 64"
proof -
  have "(nm, x, y) \<in> set (cut_pieces s (blobs_of items))"
    using assms(2) by (force simp: cut_pieces_def)
  from cutter.cut_bounded [OF assms(1) this] obtain n
    where n: "(nm, n) \<in> set (blobs_of items)" "x \<le> y" "y \<le> n" by blast
  have "\<forall>(nm, n) \<in> set (blobs_of items). n < 2 ^ 64"
    by (induction items rule: blobs_of.induct) auto
  with n show ?thesis by auto
qed

lemma cut_pieces_interval:
  assumes "0 < s" and "(nm, x, y) \<in> set (cut_pieces s bs)"
  shows "\<exists>n. (nm, n) \<in> set bs \<and> x \<le> y \<and> y \<le> n \<and> (x < y \<or> n = 0)"
proof -
  obtain pss where "list_all2 (\<lambda>(nm, n) ps. covers n ps) bs pss"
    and "(nm, x, y) \<in> set (concat (map2 (\<lambda>(nm, n) ps. map (Pair nm) ps) bs pss))"
    using cutter.cut_covers [OF assms(1), of bs] assms(2) by metis
  then show ?thesis
  proof (induction rule: list_all2_induct)
    case (Cons b bs ps pss)
    then show ?case
      using tiles_bounds [of 0 "snd b" ps x y] covers_bounds [of "snd b" ps x y]
      by (cases b) (auto simp: covers_def split: if_splits)
  qed simp
qed

lemma cut_pieces_nonempty:
  assumes "0 < s" "\<forall>(nm, n) \<in> set bs. 0 < n" "(nm, x, y) \<in> set (cut_pieces s bs)"
  shows "x < y"
proof -
  obtain n where "(nm, n) \<in> set bs" "x < y \<or> n = 0"
    using cut_pieces_interval [OF assms(1,3)] by blast
  with assms(2) show ?thesis by auto
qed

lemma piece_of_interval:
  assumes "0 < s"
  shows "map data_interval (map (\<lambda>p. new_ShardData (si_blob_name p) (si_begin_offset p) (si_end_offset p))
      (map piece_of (cut_blobs s s (blobs_of items)))) = cut_pieces s (blobs_of items)"
    "map info_size (map piece_of (cut_blobs s s (blobs_of items))) =
      map (\<lambda>(nm, x, y, p). (y - x, p)) (cut_blobs s s (blobs_of items))"
proof -
  have "unat (of_nat x :: size_t) = x \<and> unat (of_nat y :: size_t) = y"
    if "(nm, x, y, p) \<in> set (cut_blobs s s (blobs_of items))" for nm x y p
    using cut_blobs_bounded [OF assms that] by (simp add: unat_of_nat)
  then show "map data_interval (map (\<lambda>p. new_ShardData (si_blob_name p) (si_begin_offset p)
      (si_end_offset p)) (map piece_of (cut_blobs s s (blobs_of items)))) = cut_pieces s (blobs_of items)"
    "map info_size (map piece_of (cut_blobs s s (blobs_of items))) =
      map (\<lambda>(nm, x, y, p). (y - x, p)) (cut_blobs s s (blobs_of items))"
    by (force simp: cut_pieces_def piece_of_def data_interval_def info_size_def new_ShardData_def
        new_shard_info_def)+
qed

lemma shards_of_intervals:
  assumes "0 < shard_sz" "fits_size_t shard_sz items" "shards_of shard_sz items = Some shards"
  shows "map data_interval (concat (map fs_sets shards)) = cut_pieces (unat shard_sz) (blobs_of items)"
  using assms piece_of_interval(1) [OF unat_pos [OF assms(1)], of items]
  by (auto simp: shards_of_eq join_shards_sets)

lemma sum_shard_bytes:
  assumes "0 < shard_sz" "fits_size_t shard_sz items" "shards_of shard_sz items = Some shards"
  shows "sum_list (map shard_bytes shards) = total_bytes items"
proof -
  have "sum_list (map shard_bytes shards) = sum_list (map data_bytes (concat (map fs_sets shards)))"
    by (induction shards) (simp_all add: shard_bytes_def)
  also have "map data_bytes (concat (map fs_sets shards)) =
      map (\<lambda>(nm, x, y). y - x) (map data_interval (concat (map fs_sets shards)))"
    by (simp add: data_bytes_def data_interval_def)
  also have "\<dots> = map (\<lambda>(nm, x, y). y - x) (cut_pieces (unat shard_sz) (blobs_of items))"
    using shards_of_intervals [OF assms] by simp
  also have "sum_list \<dots> = sum_list (map (\<lambda>(nm, n). n - 0) (blobs_of items))"
    using unat_pos [OF assms(1)] by (intro cutter.cut_sum) auto
  finally show ?thesis by (simp add: total_bytes_def case_prod_unfold)
qed

text \<open>
  C13: Sharding loses and duplicates nothing. For a positive shard size, and as long as no
  offset can wrap around, \<open>create_sharding_data\<close> returns, and the pieces of its shards, read in
  order, are for every blob of the container an exact cover of the blob by adjacent intervals.
\<close>

theorem shards_cover_input:
  assumes "0 < shard_sz" "fits_size_t shard_sz items"
  shows "\<exists>shards pss. shards_of shard_sz items = Some shards \<and>
    list_all2 (\<lambda>(nm, n) ps. covers n ps) (blobs_of items) pss \<and>
    map data_interval (concat (map fs_sets shards)) =
      concat (map2 (\<lambda>(nm, n) ps. map (Pair nm) ps) (blobs_of items) pss)"
proof -
  obtain shards where "shards_of shard_sz items = Some shards"
    using shards_of_eq [OF assms] by simp
  with shards_of_intervals [OF assms this] cutter.cut_covers [OF unat_pos [OF assms(1)]]
  show ?thesis by metis
qed

theorem shards_cover_input_witness:
  "\<exists>shards pss. shards_of 3 [BlobItem ''a'' 7, DirectoryItem ''d'', BlobItem ''b'' 0, BlobItem ''c'' 2] = Some shards \<and>
    list_all2 (\<lambda>(nm, n) ps. covers n ps) (blobs_of [BlobItem ''a'' 7, DirectoryItem ''d'', BlobItem ''b'' 0, BlobItem ''c'' 2]) pss \<and>
    map data_interval (concat (map fs_sets shards)) =
      concat (map2 (\<lambda>(nm, n) ps. map (Pair nm) ps) (blobs_of [BlobItem ''a'' 7, DirectoryItem ''d'', BlobItem ''b'' 0, BlobItem ''c'' 2]) pss)"
  by (rule shards_cover_input) (simp_all add: fits_size_t_def)

lemma shards_split:
  assumes "0 < shard_sz" "fits_size_t shard_sz items"
  shows "\<exists>full rest. shards_of shard_sz items = Some (full @ rest) \<and>
    (\<forall>f \<in> set full. shard_bytes f = unat shard_sz) \<and>
    length full = total_bytes items div unat shard_sz \<and>
    length rest \<le> 1 \<and> sum_list (map shard_bytes rest) = total_bytes items mod unat shard_sz"
proof -
  let ?s = "unat shard_sz"
  let ?ps = "map piece_of (cut_blobs ?s ?s (blobs_of items))"
  have s: "0 < ?s" using assms(1) by (rule unat_pos)
  then have "paced ?s ?s (map info_size ?ps)"
    using piece_of_interval(2) [OF s, of items] cut_blobs_paced [of ?s ?s "blobs_of items"]
    by (simp only: order_refl)
  with join_shards_balanced [of ?s ?s ?ps "[]" "- 1"] s obtain full rest where
    js: "join_shards ?ps [] (- 1) [] = full @ rest" and full: "\<forall>f \<in> set full. shard_bytes f = ?s"
    and rest: "length rest \<le> 1" "\<forall>f \<in> set rest. shard_bytes f < ?s"
    by auto
  have so: "shards_of shard_sz items = Some (full @ rest)"
    using shards_of_eq [OF assms] js by simp
  have "sum_list (map shard_bytes full) = length full * ?s"
    using full by (induction full) auto
  with sum_shard_bytes [OF assms so]
  have tot: "total_bytes items = length full * ?s + sum_list (map shard_bytes rest)" by simp
  have "sum_list (map shard_bytes rest) < ?s"
    using rest s by (cases rest) auto
  with tot s have "total_bytes items div ?s = length full"
    "total_bytes items mod ?s = sum_list (map shard_bytes rest)"
    by simp_all
  with so full rest(1) show ?thesis by metis
qed

text \<open>
  C14: Every shard but at most the last has exactly the shard size, there are as many full
  shards as fit into the input, and the last one holds the remaining bytes.
\<close>

theorem shards_balanced:
  assumes "0 < shard_sz" "fits_size_t shard_sz items"
  shows "\<exists>full rest. shards_of shard_sz items = Some (full @ rest) \<and>
    (\<forall>f \<in> set full. shard_bytes f = unat shard_sz) \<and>
    length full = total_bytes items div unat shard_sz \<and>
    length rest \<le> 1 \<and> sum_list (map shard_bytes rest) = total_bytes items mod unat shard_sz"
  using assms by (rule shards_split)

theorem shards_balanced_witness:
  "\<exists>full rest. shards_of 3 [BlobItem ''a'' 7, BlobItem ''c'' 4] = Some (full @ rest) \<and>
    (\<forall>f \<in> set full. shard_bytes f = unat (3 :: size_t)) \<and>
    length full = total_bytes [BlobItem ''a'' 7, BlobItem ''c'' 4] div unat (3 :: size_t) \<and>
    length rest \<le> 1 \<and>
    sum_list (map shard_bytes rest) = total_bytes [BlobItem ''a'' 7, BlobItem ''c'' 4] mod unat (3 :: size_t)"
  by (rule shards_balanced) (simp_all add: fits_size_t_def)

text \<open>
  The shard identifiers are the positions in \<open>m_shards\<close>: the dispatcher may use a
  shard identifier as an index and the other way round. This holds for every shard size
  for which the sharding returns.
\<close>

theorem shard_ids_are_indices:
  assumes "shards_of shard_sz items = Some shards" "k < length shards"
  shows "fs_shardId (shards ! k) = int k"
  using assms join_shards_ids [of k _ "[]" "- 1"]
  by (auto simp: shards_of_def getShardId_def split: option.splits)

theorem shard_ids_are_indices_witness:
  "fs_shardId (join_shards [new_shard_info ''a'' 0 2 False, new_shard_info ''a'' 2 3 True] [] (- 1) [] ! 1) = int 1"
proof (rule shard_ids_are_indices)
  show "shards_of 2 [BlobItem ''a'' 3] =
      Some (join_shards [new_shard_info ''a'' 0 2 False, new_shard_info ''a'' 2 3 True] [] (- 1) [])"
    by (simp add: shards_of_def make_shards_def shard_blob_def shard_loop.simps getShardId_def)
  show "1 < length (join_shards [new_shard_info ''a'' 0 2 False, new_shard_info ''a'' 2 3 True] [] (- 1) [])"
    by (simp add: new_shard_info_def)
qed

end
