(* ===== verification/WordBoundary.thy ===== *)
theory WordBoundary
  imports Sharding "HOL-Library.Multiset"
begin

text \<open>
  How a worker turns a piece of a blob into a local file: \<^verbatim>\<open>fix_word_boundary\<close> and
  \<^verbatim>\<open>write_partial_data_to_local_file\<close> of \<^verbatim>\<open>w7/src/worker/worker.h\<close>. The
  worker downloads sixteen bytes more than its piece, blanks the word the piece starts in and
  keeps the word the piece ends in. The theorems say when adjacent pieces count every word of
  the blob exactly once, and that longer runs are cut.
\<close>

section \<open>The code\<close>

definition EXTRA_LEN :: nat where "EXTRA_LEN = 16"

definition is_sep :: "char \<Rightarrow> bool" where
  "is_sep c \<longleftrightarrow> c = CHR '' '' \<or> c = CHR ''.'' \<or> c = CHR '',''"

text \<open>\<open>while (i < EXTRA_LEN)\<close> over the start of the buffer; the first argument counts the
  iterations left. \<open>collection.at(i)\<close> throws past the end.\<close>

fun blank_front :: "nat \<Rightarrow> nat \<Rightarrow> string \<Rightarrow> string result" where
  "blank_front 0 i collection = Inr collection"
| "blank_front (Suc k) i collection =
     (if i < length collection then
        (if is_sep (collection ! i) then Inr collection
         else blank_front k (Suc i) (collection[i := CHR '' '']))
      else Inl OutOfRange)"

text \<open>\<open>while (i < collection.size())\<close> from the end of the piece.\<close>

function skip_word :: "nat \<Rightarrow> string \<Rightarrow> nat" where
  "skip_word i collection =
     (if i < length collection \<and> \<not> is_sep (collection ! i) then skip_word (Suc i) collection else i)"
  by pat_completeness auto
termination
  by (relation "measure (\<lambda>(i, c). length c - i)") auto

declare skip_word.simps [simp del]

text \<open>\<open>endpos\<close> and \<open>eofpos\<close> are \<open>int\<close>; a negative \<open>endpos\<close> fails the loop test as a
  huge \<open>size_t\<close>, and erasing from before the buffer is undefined.\<close>

definition fix_word_boundary :: "size_t \<Rightarrow> size_t \<Rightarrow> string \<Rightarrow> string result" where
  "fix_word_boundary b e collection =
     rbind (if b \<noteq> 0 then blank_front EXTRA_LEN 0 collection else Inr collection) (\<lambda>coll.
       let endpos = to_int32 (int (unat (e - b)));
           eofpos = to_int32 (int (length coll))
       in if endpos < eofpos
          then (if endpos < 0 then Inl UndefinedBehaviour
                else Inr (take (skip_word (nat endpos) coll) coll))
          else Inr coll)"

text \<open>The name of the local file and the local file system after the call; every exception is
  caught and makes the call return \<open>false\<close>, with the name and the files as they were.
  \<open>download\<close> is \<^verbatim>\<open>download_range_to_stream\<close> of the storage client.\<close>

type_synonym local_files = "string \<rightharpoonup> string"
type_synonym downloader = "string \<Rightarrow> size_t \<Rightarrow> size_t \<Rightarrow> string result"

definition shard_file_name :: "size_t \<Rightarrow> size_t \<Rightarrow> string \<Rightarrow> string" where
  "shard_file_name b e address =
     ''sh-'' @ to_string (uint b) @ ''-'' @ to_string (uint e) @ ''-'' @ address"

definition write_partial_data_to_local_file ::
    "downloader \<Rightarrow> string \<Rightarrow> size_t \<Rightarrow> size_t \<Rightarrow> string \<Rightarrow> string \<Rightarrow> local_files \<Rightarrow>
     bool \<times> string \<times> local_files" where
  "write_partial_data_to_local_file download blobname b e address outfile_name files =
     (let len = (e - b) + of_nat EXTRA_LEN in
      case rbind (download blobname b len) (fix_word_boundary b e) of
        Inl err \<Rightarrow> (False, outfile_name, files)
      | Inr coll \<Rightarrow>
          (let name' = shard_file_name b e address in (True, name', files(name' \<mapsto> coll))))"

section \<open>Words\<close>

text \<open>The words of a text, for the separators of \<open>fix_word_boundary\<close>.\<close>

function toks :: "string \<Rightarrow> string list" where
  "toks [] = []"
| "toks (c # cs) =
     (if is_sep c then toks cs
      else takeWhile (\<lambda>x. \<not> is_sep x) (c # cs) # toks (dropWhile (\<lambda>x. \<not> is_sep x) cs))"
  by pat_completeness auto
termination
  by (relation "measure length") (auto simp: less_Suc_eq_le length_dropWhile_le)

text \<open>The words of the local file a piece is turned into: none when the call fails.\<close>

definition piece_words :: "downloader \<Rightarrow> string \<Rightarrow> size_t \<Rightarrow> size_t \<Rightarrow> string list" where
  "piece_words download blobname b e =
     (case write_partial_data_to_local_file download blobname b e [] [] Map.empty of
        (ok, name, files) \<Rightarrow> if ok then toks (the (files name)) else [])"

text \<open>Where the word at a cut ends: the first separator at or after \<open>b\<close>, or the end of the
  text. Nothing precedes offset 0.\<close>

definition word_end :: "string \<Rightarrow> nat \<Rightarrow> nat" where
  "word_end d b = (if b = 0 then 0 else b + length (takeWhile (\<lambda>x. \<not> is_sep x) (drop b d)))"

definition slice :: "string \<Rightarrow> nat \<Rightarrow> nat \<Rightarrow> string" where
  "slice d b e = take (e - b) (drop b d)"

text \<open>What the storage service promises: a range that starts inside the blob is read up to the
  end of the range or of the blob, a range that starts past the end is refused.\<close>

definition serves :: "downloader \<Rightarrow> (string \<Rightarrow> string) \<Rightarrow> bool" where
  "serves download content \<longleftrightarrow>
     (\<forall>nm b len. if unat b < length (content nm)
        then download nm b len = Inr (take (unat len) (drop (unat b) (content nm)))
        else (\<exists>err. download nm b len = Inl err))"

lemma servesD:
  "serves download content \<Longrightarrow> unat b < length (content nm) \<Longrightarrow>
     download nm b len = Inr (take (unat len) (drop (unat b) (content nm)))"
  unfolding serves_def by meson

definition short_words :: "string \<Rightarrow> bool" where
  "short_words d \<longleftrightarrow> (\<forall>w \<in> set (toks d). length w \<le> EXTRA_LEN)"

section \<open>Splitting texts into words\<close>

lemma toks_sep: "is_sep c \<Longrightarrow> toks (xs @ c # ys) = toks xs @ toks ys"
proof (induction xs rule: toks.induct)
  case (2 x xs)
  have "takeWhile (\<lambda>x. \<not> is_sep x) (xs @ c # ys) = takeWhile (\<lambda>x. \<not> is_sep x) xs"
    using 2(3) by (induction xs) auto
  moreover have "dropWhile (\<lambda>x. \<not> is_sep x) (xs @ c # ys) = dropWhile (\<lambda>x. \<not> is_sep x) xs @ c # ys"
    using 2(3) by (induction xs) auto
  ultimately show ?case using 2 by simp
qed simp

lemma toks_blanks: "toks (replicate k (CHR '' '') @ xs) = toks xs"
  by (induction k) (simp_all add: is_sep_def)

lemma toks_append:
  "ys = [] \<or> is_sep (hd ys) \<Longrightarrow> toks (xs @ ys) = toks xs @ toks ys"
  by (cases ys) (simp_all add: toks_sep)

lemma takeWhile_dropWhile_Nil: "takeWhile P (dropWhile P xs) = []"
  by (induction xs) auto

lemma takeWhile_bound:
  "takeWhile (\<lambda>x. \<not> is_sep x) (drop b d) = [] \<or>
     (\<exists>t \<in> set (toks d). length (takeWhile (\<lambda>x. \<not> is_sep x) (drop b d)) \<le> length t)"
proof (induction d arbitrary: b rule: toks.induct)
  case (2 c cs)
  let ?P = "\<lambda>x. \<not> is_sep x"
  show ?case
  proof (cases "is_sep c")
    case True
    with 2(1) show ?thesis by (cases b) auto
  next
    case False
    let ?w = "takeWhile ?P (c # cs)" and ?r = "dropWhile ?P cs"
    have split: "c # cs = ?w @ ?r" using False by simp
    show ?thesis
    proof (cases "b < length ?w")
      case True
      then have "drop b (c # cs) = drop b ?w @ ?r" by (subst split) simp
      moreover have "takeWhile ?P (drop b ?w @ ?r) = drop b ?w"
      proof -
        have "\<not> is_sep x" if "x \<in> set (drop b ?w)" for x
          using in_set_dropD [OF that] by (rule set_takeWhileD [THEN conjunct2])
        then have "takeWhile ?P (drop b ?w @ ?r) = drop b ?w @ takeWhile ?P ?r"
          by (rule takeWhile_append2)
        then show ?thesis by (simp only: takeWhile_dropWhile_Nil append_Nil2)
      qed
      ultimately have "length (takeWhile ?P (drop b (c # cs))) \<le> length ?w" by simp
      with False show ?thesis by auto
    next
      case False': False
      then have "drop b (c # cs) = drop (b - length ?w) ?r" by (subst split) simp
      with 2(2) [of "b - length ?w"] False show ?thesis by auto
    qed
  qed
qed simp

lemma word_end_le: "b \<le> length d \<Longrightarrow> word_end d b \<le> length d"
  using length_takeWhile_le [of "\<lambda>x. \<not> is_sep x" "drop b d"] by (auto simp: word_end_def)

lemma word_end_ge: "b \<le> word_end d b"
  by (simp add: word_end_def)

lemma word_end_length [simp]: "word_end d (length d) = length d"
  by (simp add: word_end_def)

lemma word_end_sep: "0 < b \<Longrightarrow> word_end d b < length d \<Longrightarrow> is_sep (d ! word_end d b)"
  using nth_length_takeWhile [of "\<lambda>x. \<not> is_sep x" "drop b d"]
  by (simp add: word_end_def)

lemma word_end_inside:
  assumes "0 < b" "b \<le> i" "i < word_end d b"
  shows "\<not> is_sep (d ! i)"
proof -
  let ?t = "takeWhile (\<lambda>x. \<not> is_sep x) (drop b d)"
  have "i - b < length ?t" using assms by (simp add: word_end_def)
  then have "?t ! (i - b) = drop b d ! (i - b)" "?t ! (i - b) \<in> set ?t"
    by (rule takeWhile_nth, rule nth_mem)
  moreover have "b \<le> length d" using assms by (cases "b \<le> length d") (simp_all add: word_end_def)
  ultimately show ?thesis using assms(2) by (auto dest: set_takeWhileD)
qed

lemma word_end_mono:
  assumes "b \<le> e" "e \<le> length d"
  shows "word_end d b \<le> word_end d e"
proof (cases "b = 0 \<or> word_end d b \<le> e")
  case True
  then show ?thesis using word_end_ge [of e d] by (auto simp: word_end_def)
next
  case False
  show ?thesis
  proof (rule ccontr)
    assume "\<not> word_end d b \<le> word_end d e"
    then have lt: "word_end d e < word_end d b" by simp
    moreover have "word_end d b \<le> length d" using assms by (intro word_end_le) simp
    ultimately have "is_sep (d ! word_end d e)" using False assms by (intro word_end_sep) auto
    with word_end_inside [of b "word_end d e" d] lt False assms word_end_ge [of e d] show False by simp
  qed
qed

lemma word_end_same:
  assumes "0 < b" "b \<le> e" "e < word_end d b" "e \<le> length d"
  shows "word_end d e = word_end d b"
proof (rule antisym)
  show "word_end d b \<le> word_end d e" using assms by (intro word_end_mono)
  show "word_end d e \<le> word_end d b"
  proof (rule ccontr)
    assume lt: "\<not> word_end d e \<le> word_end d b"
    moreover have "word_end d e \<le> length d" using assms(4) by (rule word_end_le)
    ultimately have "is_sep (d ! word_end d b)" using assms by (intro word_end_sep) auto
    with word_end_inside [of e "word_end d b" d] lt assms show False by simp
  qed
qed

lemma toks_slice_append:
  assumes "0 < m" "b \<le> m" "m \<le> e" "e \<le> length d"
  shows "toks (slice d (word_end d b) (word_end d m)) @ toks (slice d (word_end d m) (word_end d e)) =
    toks (slice d (word_end d b) (word_end d e))"
proof -
  let ?b = "word_end d b" and ?m = "word_end d m" and ?e = "word_end d e"
  have le: "?b \<le> ?m" "?m \<le> ?e" "?e \<le> length d"
    using assms by (auto intro!: word_end_mono word_end_le)
  have "slice d ?b ?e = slice d ?b ?m @ slice d ?m ?e"
    using le take_add [of "?m - ?b" "?e - ?m" "drop ?b d"] by (simp add: slice_def)
  moreover have "slice d ?m ?e = [] \<or> is_sep (hd (slice d ?m ?e))"
    using le word_end_sep [of m d] assms(1)
    by (cases "?m < ?e") (auto simp: slice_def hd_drop_conv_nth)
  ultimately show ?thesis using toks_append by metis
qed

section \<open>The fixed piece\<close>

lemma blank_front_eq:
  "i \<le> length xs \<Longrightarrow> k = length (takeWhile (\<lambda>x. \<not> is_sep x) (drop i xs)) \<Longrightarrow>
   blank_front n i xs =
     (if n \<le> k then Inr (take i xs @ replicate n (CHR '' '') @ drop (i + n) xs)
      else if i + k < length xs then Inr (take i xs @ replicate k (CHR '' '') @ drop (i + k) xs)
      else Inl OutOfRange)"
proof (induction n arbitrary: i xs k)
  case (Suc n)
  show ?case
  proof (cases "i < length xs \<and> \<not> is_sep (xs ! i)")
    case True
    then have d: "drop i xs = xs ! i # drop (Suc i) xs" by (simp add: Cons_nth_drop_Suc)
    let ?xs = "xs[i := CHR '' '']" and ?k = "length (takeWhile (\<lambda>x. \<not> is_sep x) (drop (Suc i) xs))"
    have k: "k = Suc ?k" using Suc.prems d True by simp
    have "take (Suc i) ?xs = take i xs @ [CHR '' '']"
      using True by (simp add: take_Suc_conv_app_nth)
    with Suc.IH [of "Suc i" ?xs ?k] True k show ?thesis by simp
  next
    case False
    show ?thesis
    proof (cases "i < length xs")
      case True
      with False have "is_sep (xs ! i)" by simp
      moreover have "k = 0"
        using Suc.prems True False by (simp add: Cons_nth_drop_Suc [symmetric])
      ultimately show ?thesis using True by simp
    next
      case False
      with Suc.prems show ?thesis by simp
    qed
  qed
qed simp

lemma skip_word_eq: "skip_word i xs = i + length (takeWhile (\<lambda>x. \<not> is_sep x) (drop i xs))"
proof (induction i xs rule: skip_word.induct)
  case (1 i xs)
  show ?case
  proof (cases "i < length xs \<and> \<not> is_sep (xs ! i)")
    case True
    then have "drop i xs = xs ! i # drop (Suc i) xs" by (simp add: Cons_nth_drop_Suc)
    with 1 True show ?thesis by (simp add: skip_word.simps [of i xs])
  next
    case False
    then have "takeWhile (\<lambda>x. \<not> is_sep x) (drop i xs) = []"
      by (cases "i < length xs") (simp_all add: Cons_nth_drop_Suc [symmetric])
    with False show ?thesis by (subst skip_word.simps) auto
  qed
qed

lemma length_takeWhile_take:
  "length (takeWhile P (take n xs)) = min n (length (takeWhile P xs))"
  by (induction xs arbitrary: n) (auto simp: take_Cons split: nat.splits)

text \<open>The buffer after the start was blanked: \<open>k\<close> blanks, then the text from the end of the word
  the piece starts in.\<close>

lemma blanked_piece:
  assumes "b < e" "e \<le> length d" "word_end d b \<le> b + EXTRA_LEN"
  defines "c \<equiv> take (e - b + EXTRA_LEN) (drop b d)" and "k \<equiv> word_end d b - b"
  shows "(if b \<noteq> 0 then blank_front EXTRA_LEN 0 c else Inr c) =
      (if b \<noteq> 0 \<and> k < EXTRA_LEN \<and> length c \<le> k then Inl OutOfRange
       else Inr (replicate k (CHR '' '') @ drop k c))" (is "?l = ?r")
proof (cases "b = 0")
  case True
  then show ?thesis by (simp add: k_def word_end_def)
next
  case False
  have "k = length (takeWhile (\<lambda>x. \<not> is_sep x) (drop b d))" using False by (simp add: k_def word_end_def)
  then have "k = length (takeWhile (\<lambda>x. \<not> is_sep x) (drop 0 c))"
    using assms(1,3) by (simp add: c_def length_takeWhile_take k_def)
  then have "blank_front EXTRA_LEN 0 c =
      (if EXTRA_LEN \<le> k then Inr (replicate EXTRA_LEN (CHR '' '') @ drop EXTRA_LEN c)
       else if k < length c then Inr (replicate k (CHR '' '') @ drop k c) else Inl OutOfRange)"
    using blank_front_eq [of 0 c k EXTRA_LEN] by simp
  moreover have "k \<le> EXTRA_LEN" using assms(3) by (simp add: k_def)
  ultimately show ?thesis using False by (auto simp: not_le)
qed

lemma blank_front_length: "blank_front n i xs = Inr ys \<Longrightarrow> length ys = length xs"
  by (induction n i xs rule: blank_front.induct) (auto split: if_splits)

lemma fix_word_boundary_nat:
  assumes "b \<le> e" "e < 2 ^ 31" "length c < 2 ^ 31"
  shows "fix_word_boundary (of_nat b) (of_nat e) c =
    rbind (if b \<noteq> 0 then blank_front EXTRA_LEN 0 c else Inr c)
      (\<lambda>coll. Inr (if e - b < length coll then take (skip_word (e - b) coll) coll else coll))"
proof -
  have "(of_nat e :: size_t) - of_nat b = of_nat (e - b)" using assms(1) by simp
  then have pos: "to_int32 (int (unat ((of_nat e :: size_t) - of_nat b))) = int (e - b)"
    using assms(2) by (simp only: unat_of_nat) (simp add: to_int32_def)
  have eof: "to_int32 (int (length coll)) = int (length c)"
    if "(if b \<noteq> 0 then blank_front EXTRA_LEN 0 c else Inr c) = Inr coll" for coll
    using that assms(3) by (auto simp: to_int32_def split: if_splits dest!: blank_front_length)
  have b0: "(of_nat b :: size_t) \<noteq> 0 \<longleftrightarrow> b \<noteq> 0"
    using size_t_eq [of b 0] assms(1,2) by simp
  show ?thesis
  proof (cases "if b \<noteq> 0 then blank_front EXTRA_LEN 0 c else Inr c")
    case (Inl err)
    then show ?thesis unfolding fix_word_boundary_def b0 by simp
  next
    case (Inr coll)
    then have "length coll = length c" by (auto split: if_splits dest!: blank_front_length)
    with Inr eof [OF Inr] pos show ?thesis
      unfolding fix_word_boundary_def b0 Inr by (simp add: Let_def)
  qed
qed

lemma piece_tail:
  assumes "b < e" "e \<le> length d" "word_end d b \<le> b + EXTRA_LEN" "word_end d e \<le> e + EXTRA_LEN"
  defines "c \<equiv> take (e - b + EXTRA_LEN) (drop b d)" and "k \<equiv> word_end d b - b"
  defines "coll \<equiv> replicate k (CHR '' '') @ drop k c"
  shows "toks (if e - b < length coll then take (skip_word (e - b) coll) coll else coll) =
    toks (slice d (word_end d b) (word_end d e))"
proof -
  let ?wb = "word_end d b" and ?we = "word_end d e"
  note ge = word_end_ge [of b d] word_end_ge [of e d]
  have le: "?wb \<le> ?we" "?we \<le> length d"
    using assms(1,2) by (auto intro!: word_end_mono word_end_le)
  have wb: "?wb = b + k" using ge by (simp add: k_def)
  have len: "length c = min (e - b + EXTRA_LEN) (length d - b)" by (simp add: c_def)
  have kc: "k \<le> length c" using assms(1-4) le ge wb unfolding len by linarith
  have drop_c: "drop k c = take (length c - k) (drop ?wb d)"
  proof -
    have "c = take (length c) (drop b d)" by (simp add: c_def min_def)
    then have "drop k c = take (length c - k) (drop k (drop b d))" by (metis drop_take)
    then show ?thesis by (simp add: wb add.commute)
  qed
  consider (blank) "e - b < length coll" "e - b < k" | (word) "e - b < length coll" "k \<le> e - b"
    | (whole) "length coll \<le> e - b"
    by linarith
  then show ?thesis
  proof cases
    case blank
    then have "skip_word (e - b) coll = e - b"
      by (subst skip_word.simps) (simp add: coll_def nth_append is_sep_def)
    moreover have "?we = ?wb"
    proof (rule word_end_same)
      show "0 < b" using blank by (cases b) (simp_all add: k_def word_end_def)
    qed (use blank wb assms(1,2) in auto)
    ultimately show ?thesis
      using blank toks_blanks [of "e - b" "[]"] by (simp add: coll_def slice_def)
  next
    case word
    then have "drop (e - b) coll = drop (e - b) c"
      using assms(1) by (simp add: coll_def)
    also have "\<dots> = take EXTRA_LEN (drop e d)" using assms(1) by (simp add: c_def drop_take)
    finally have "skip_word (e - b) coll = ?we - b"
      using assms(1,4) ge by (simp add: skip_word_eq length_takeWhile_take word_end_def)
    moreover have "take (?we - b) coll = replicate k (CHR '' '') @ slice d ?wb ?we"
    proof -
      have we: "?we - b = k + (?we - ?wb)" using le wb by linarith
      have "?we - ?wb \<le> length c - k"
        using le wb ge assms(1,2,4) unfolding len by linarith
      then have "take (?we - ?wb) (drop k c) = slice d ?wb ?we"
        unfolding drop_c slice_def by (simp add: min_def)
      then show ?thesis unfolding we coll_def by simp
    qed
    ultimately show ?thesis using word toks_blanks [of k] by simp
  next
    case whole
    then have "e = length d" using kc len assms(1,2) by (simp add: coll_def EXTRA_LEN_def)
    with wb drop_c len have "drop k c = slice d ?wb ?we" by (simp add: slice_def min_def)
    with whole toks_blanks [of k] show ?thesis by (simp add: coll_def)
  qed
qed

lemma fix_piece_words:
  assumes "b < e" "e \<le> length d" "length d + EXTRA_LEN < 2 ^ 31"
    and "word_end d b \<le> b + EXTRA_LEN" "word_end d e \<le> e + EXTRA_LEN"
  shows "(case fix_word_boundary (of_nat b) (of_nat e) (take (e - b + EXTRA_LEN) (drop b d)) of
      Inl err \<Rightarrow> [] | Inr c \<Rightarrow> toks c) = toks (slice d (word_end d b) (word_end d e))"
proof -
  let ?c = "take (e - b + EXTRA_LEN) (drop b d)" and ?k = "word_end d b - b"
  have nat: "fix_word_boundary (of_nat b) (of_nat e) ?c =
    rbind (if b \<noteq> 0 then blank_front EXTRA_LEN 0 ?c else Inr ?c)
      (\<lambda>coll. Inr (if e - b < length coll then take (skip_word (e - b) coll) coll else coll))"
    using assms(1-3) by (intro fix_word_boundary_nat) auto
  show ?thesis
  proof (cases "b \<noteq> 0 \<and> ?k < EXTRA_LEN \<and> length ?c \<le> ?k")
    case True
    then have "length d \<le> word_end d b" using assms(1,2) by auto
    with True show ?thesis
      unfolding nat blanked_piece [OF assms(1,2,4)] by (simp add: slice_def)
  next
    case False
    then show ?thesis
      unfolding nat blanked_piece [OF assms(1,2,4)] using piece_tail [OF assms(1,2,4,5)]
      by (simp only: if_False rbind_simps sum.case)
  qed
qed

section \<open>Every word is counted once\<close>

lemma short_words_end: "short_words d \<Longrightarrow> word_end d b \<le> b + EXTRA_LEN"
  using takeWhile_bound [of b d] by (auto simp: short_words_def word_end_def)

lemma piece_words_eq:
  "piece_words download nm b e =
     (case rbind (download nm b ((e - b) + of_nat EXTRA_LEN)) (fix_word_boundary b e) of
        Inl err \<Rightarrow> [] | Inr c \<Rightarrow> toks c)"
  by (auto simp: piece_words_def write_partial_data_to_local_file_def Let_def split: sum.splits)

lemma piece_words_slice:
  assumes sv: "serves download content" and sh: "short_words (content nm)"
    and len: "length (content nm) + EXTRA_LEN < 2 ^ 31"
    and be: "b < e \<or> length (content nm) = 0" "b \<le> e" "e \<le> length (content nm)"
  shows "piece_words download nm (of_nat b) (of_nat e) =
    toks (slice (content nm) (word_end (content nm) b) (word_end (content nm) e))"
proof (cases "length (content nm) = 0")
  case True
  with sv have "\<exists>err. download nm 0 (0 + of_nat EXTRA_LEN) = Inl err"
    unfolding serves_def by (metis less_nat_zero_code unat_0)
  with True be show ?thesis by (auto simp: piece_words_eq slice_def)
next
  case False
  with be have lt: "b < e" by simp
  let ?d = "content nm"
  have ub: "unat (of_nat b :: size_t) = b" using be len by (simp add: unat_of_nat)
  have l: "(of_nat e :: size_t) - of_nat b + of_nat EXTRA_LEN = of_nat (e - b + EXTRA_LEN)"
    using be by simp
  have ul: "unat (of_nat (e - b + EXTRA_LEN) :: size_t) = e - b + EXTRA_LEN"
    using be len by (simp only: unat_of_nat) (simp add: EXTRA_LEN_def)
  have "download nm (of_nat b) (of_nat (e - b + EXTRA_LEN)) =
      Inr (take (unat (of_nat (e - b + EXTRA_LEN) :: size_t)) (drop (unat (of_nat b :: size_t)) ?d))"
    using sv lt be(3) ub by (intro servesD) simp_all
  then have "download nm (of_nat b) (of_nat e - of_nat b + of_nat EXTRA_LEN) =
      Inr (take (e - b + EXTRA_LEN) (drop b ?d))"
    unfolding l ul ub .
  then show ?thesis
    unfolding piece_words_eq
    using fix_piece_words [OF lt be(3) len short_words_end [OF sh] short_words_end [OF sh]]
    by (simp only: rbind_simps)
qed

lemma sharded_words:
  assumes "serves download content"
    and "0 < shard_sz" "fits_size_t shard_sz items" "shards_of shard_sz items = Some shards"
    and blobs: "\<forall>(nm, n) \<in> set (blobs_of items). n = length (content nm) \<and>
      n + EXTRA_LEN < 2 ^ 31 \<and> short_words (content nm)"
  shows "sum_list (map (\<lambda>d. mset (piece_words download (sd_blobName d) (sd_begin d) (sd_end d)))
      (concat (map fs_sets shards))) = sum_list (map (\<lambda>(nm, n). mset (toks (content nm))) (blobs_of items))"
proof -
  define F where "F nm x y =
    mset (toks (slice (content nm) (word_end (content nm) x) (word_end (content nm) y)))" for nm x y
  let ?pieces = "cut_pieces (unat shard_sz) (blobs_of items)"
  have pos: "0 < unat shard_sz" using assms(2) by (rule unat_pos)
  have piece: "mset (piece_words download nm (of_nat x) (of_nat y)) = F nm x y"
    if p: "(nm, x, y) \<in> set ?pieces" for nm x y
  proof -
    obtain n where n: "(nm, n) \<in> set (blobs_of items)" "x \<le> y" "y \<le> n" "x < y \<or> n = 0"
      using cut_pieces_interval [OF pos p] by blast
    from blobs n(1) have "n = length (content nm)" "n + EXTRA_LEN < 2 ^ 31" "short_words (content nm)"
      by auto
    with n show ?thesis
      unfolding F_def by (subst piece_words_slice [OF assms(1)]) simp_all
  qed
  have "map (\<lambda>d. mset (piece_words download (sd_blobName d) (sd_begin d) (sd_end d)))
      (concat (map fs_sets shards)) =
      map (\<lambda>(nm, x, y). mset (piece_words download nm (of_nat x) (of_nat y)))
        (map data_interval (concat (map fs_sets shards)))"
    by (simp add: data_interval_def)
  also have "\<dots> = map (\<lambda>(nm, x, y). F nm x y) ?pieces"
    unfolding shards_of_intervals [OF assms(2-4)] using piece by (intro map_cong) auto
  also have "sum_list \<dots> = sum_list (map (\<lambda>(nm, n). F nm 0 n) (blobs_of items))"
    using blobs by (intro cutter.cut_sum [OF pos])
      (auto simp: F_def mset_append [symmetric] toks_slice_append simp del: mset_append)
  also have "map (\<lambda>(nm, n). F nm 0 n) (blobs_of items) =
      map (\<lambda>(nm, n). mset (toks (content nm))) (blobs_of items)"
    using blobs by (auto simp: F_def slice_def word_end_def)
  finally show ?thesis .
qed

text \<open>
  C15: Adjacent shards count every word of the input exactly once. For a storage service that
  serves the listed blobs, shards as \<open>create_sharding_data\<close> makes them, blobs short enough for
  the \<open>int\<close> positions of \<open>fix_word_boundary\<close>, and words of at most sixteen bytes between
  separators, the words of all local files the workers write are, as a multiset, the words of
  all blobs.
\<close>

theorem sharded_words_exact:
  assumes "serves download content"
    and "0 < shard_sz" "fits_size_t shard_sz items" "shards_of shard_sz items = Some shards"
    and blobs: "\<forall>(nm, n) \<in> set (blobs_of items). n = length (content nm) \<and>
      n + EXTRA_LEN < 2 ^ 31 \<and> short_words (content nm)"
  shows "sum_list (map (\<lambda>d. mset (piece_words download (sd_blobName d) (sd_begin d) (sd_end d)))
      (concat (map fs_sets shards))) = sum_list (map (\<lambda>(nm, n). mset (toks (content nm))) (blobs_of items))"
  using assms by (rule sharded_words)

text \<open>A storage service that serves a fixed content for every name.\<close>

definition fixed_download :: "string \<Rightarrow> downloader" where
  "fixed_download d nm b len =
     (if unat b < length d then Inr (take (unat len) (drop (unat b) d)) else Inl StorageException)"

lemma fixed_serves: "serves (fixed_download d) (\<lambda>_. d)"
  by (simp add: serves_def fixed_download_def)

theorem sharded_words_exact_witness:
  "sum_list (map (\<lambda>d. mset (piece_words (fixed_download ''to be, or not'') (sd_blobName d) (sd_begin d) (sd_end d)))
      (concat (map fs_sets (the (shards_of 4 [BlobItem ''a'' 13]))))) =
    {#''to'', ''be'', ''or'', ''not''#}"
proof -
  have "\<exists>shards. shards_of 4 [BlobItem ''a'' 13] = Some shards"
    by (simp add: shards_of_eq fits_size_t_def)
  then have "sum_list (map (\<lambda>d. mset (piece_words (fixed_download ''to be, or not'') (sd_blobName d)
      (sd_begin d) (sd_end d))) (concat (map fs_sets (the (shards_of 4 [BlobItem ''a'' 13]))))) =
    sum_list (map (\<lambda>(nm, n). mset (toks ''to be, or not'')) (blobs_of [BlobItem ''a'' 13]))"
    by (intro sharded_words_exact [OF fixed_serves])
       (auto simp: fits_size_t_def short_words_def EXTRA_LEN_def is_sep_def)
  then show ?thesis by (simp add: is_sep_def)
qed

text \<open>
  The bound of sixteen bytes is needed: a run of twenty letters that two pieces share is
  counted as two words that do not occur in the text. The first piece keeps its seventeen
  bytes, the second blanks sixteen of its bytes and keeps the other three.
\<close>

theorem long_run_split:
  "toks ''aaaaaaaaaaaaaaaaaaaa'' = [''aaaaaaaaaaaaaaaaaaaa''] \<and>
   piece_words (fixed_download ''aaaaaaaaaaaaaaaaaaaa'') ''t'' 0 1 = [''aaaaaaaaaaaaaaaaa''] \<and>
   piece_words (fixed_download ''aaaaaaaaaaaaaaaaaaaa'') ''t'' 1 20 = [''aaa'']"
  by code_simp

end
