(* ===== verification/Worker.thy ===== *)
theory Worker
  imports WordBoundary Client
begin

text \<open>
  The worker: \<^verbatim>\<open>Worker\<close> of \<^verbatim>\<open>w7/src/worker/workerimpl.cc\<close>, the storage
  operations of \<^verbatim>\<open>WorkerDBConnection\<close> (\<^verbatim>\<open>worker.h\<close>) and the handlers of its
  service (\<^verbatim>\<open>mrservice.h\<close>). Blob storage, the user's Python functions and the value of
  \<^verbatim>\<open>std::hash\<close> are parameters.
\<close>

section \<open>State\<close>

text \<open>The storage operations on the state of the storage service: a range of a blob, a whole blob, an
  upload. Each may throw.\<close>

record 'b Storage =
  st_range :: "string \<Rightarrow> 'b \<Rightarrow> downloader"
  st_download :: "string \<Rightarrow> string \<Rightarrow> 'b \<Rightarrow> string result"
  st_upload :: "string \<Rightarrow> string \<Rightarrow> string \<Rightarrow> 'b \<Rightarrow> 'b result"

record WorkerDBConnection =
  db_mstrcontainername :: string
  db_wrkrcontainername :: string

text \<open>\<open>wk_inter_files\<close> and \<open>wk_outstream\<close> are the names of the open streams, \<open>wk_files\<close> the local
  file system.\<close>

record Worker =
  wk_port :: int
  wk_ip :: string
  wk_full_address :: string
  wk_nodepath :: string
  wk_framework_open :: bool
  wk_dbConnection :: "WorkerDBConnection option"
  wk_server :: bool
  wk_has_failed :: bool
  wk_will_fail :: bool
  wk_until_fail :: int
  wk_nreducers :: int
  wk_outstream :: "string option"
  wk_outfile :: string
  wk_inter_files :: "string list"
  wk_files :: local_files

definition new_Worker :: "int \<Rightarrow> local_files \<Rightarrow> Worker" where
  "new_Worker fail_after files =
     \<lparr>wk_port = 0, wk_ip = [], wk_full_address = [], wk_nodepath = [], wk_framework_open = False,
      wk_dbConnection = None, wk_server = False, wk_has_failed = False,
      wk_will_fail = (\<not> fail_after \<le> 0), wk_until_fail = (if fail_after \<le> 0 then 0 else fail_after),
      wk_nreducers = 0, wk_outstream = None, wk_outfile = [], wk_inter_files = [], wk_files = files\<rparr>"

section \<open>Set-up and failure\<close>

definition is_alive :: "Worker \<Rightarrow> bool" where
  "is_alive w \<longleftrightarrow> \<not> wk_has_failed w"

definition new_WorkerDBConnection :: "string \<Rightarrow> WorkerDBConnection" where
  "new_WorkerDBConnection name = \<lparr>db_mstrcontainername = name, db_wrkrcontainername = name @ ''int''\<rparr>"

definition worker_create_connection :: "string \<Rightarrow> Worker \<Rightarrow> Worker" where
  "worker_create_connection containerName w = w\<lparr>wk_dbConnection := Some (new_WorkerDBConnection containerName)\<rparr>"

text \<open>The endless sleep of \<^verbatim>\<open>enter_fail_state\<close> is seen by the handlers from
  \<open>wk_has_failed\<close>.\<close>

definition worker_enter_fail_state :: "Worker \<Rightarrow> Worker" where
  "worker_enter_fail_state w = w\<lparr>wk_has_failed := True, wk_framework_open := False, wk_server := False\<rparr>"

definition worker_check_fail :: "Worker \<Rightarrow> Worker" where
  "worker_check_fail w =
     (if wk_will_fail w then
        (let w' = w\<lparr>wk_until_fail := wk_until_fail w - 1\<rparr>
         in if wk_until_fail w' \<le> 0 then worker_enter_fail_state w' else w')
      else w)"

interpretation worker_fail: fail_counter worker_check_fail wk_will_fail wk_until_fail wk_has_failed
  by unfold_locales (auto simp: worker_check_fail_def worker_enter_fail_state_def Let_def)

definition choose_local_port :: "string \<Rightarrow> int result" where
  "choose_local_port nodepath =
     rbind (substr_from nodepath (nat (int_of_pos (find_char (CHR ''_'') nodepath) + 1)))
       (\<lambda>ident. Inr (to_int32 (50050 + strtol ident)))"

text \<open>With \<open>LOCAL\<close> defined the port comes from the node path, otherwise it is fixed.\<close>

definition set_address_info :: "bool \<Rightarrow> string \<Rightarrow> Worker \<Rightarrow> Worker result" where
  "set_address_info local_build pod_ip w =
     rbind (if local_build then choose_local_port (wk_nodepath w) else Inr 50051) (\<lambda>port.
       let ip = (if local_build then ''localhost'' else pod_ip)
       in Inr (w\<lparr>wk_ip := ip, wk_port := port, wk_full_address := ip @ '':'' @ to_string port\<rparr>))"

section \<open>Intermediate files\<close>

definition int_name :: "string \<Rightarrow> int \<Rightarrow> int \<Rightarrow> int \<Rightarrow> string" where
  "int_name address sid spid i =
     ''int_'' @ address @ ''_'' @ to_string sid @ ''_'' @ to_string spid @ ''_'' @ to_string i"

definition reducer_indices :: "int \<Rightarrow> int list" where
  "reducer_indices n = map int [0..<nat n]"

definition open_intermediate :: "int \<Rightarrow> int \<Rightarrow> int \<Rightarrow> Worker \<Rightarrow> Worker" where
  "open_intermediate sid spid i w =
     (let iname = int_name (wk_full_address w) sid spid i
      in w\<lparr>wk_files := (wk_files w)(iname \<mapsto> []), wk_inter_files := wk_inter_files w @ [iname]\<rparr>)"

definition create_r_intermediate_files :: "int \<Rightarrow> int \<Rightarrow> Worker \<Rightarrow> Worker" where
  "create_r_intermediate_files sid spid w =
     fold (open_intermediate sid spid) (reducer_indices (wk_nreducers w)) w"

definition append_file :: "string \<Rightarrow> string \<Rightarrow> local_files \<Rightarrow> local_files" where
  "append_file name text files =
     files(name \<mapsto> (case files name of None \<Rightarrow> [] | Some old \<Rightarrow> old) @ text)"

definition kv_line :: "string \<Rightarrow> int \<Rightarrow> string" where
  "kv_line word val = word @ '':'' @ to_string val @ [CHR 0x0A]"

text \<open>The file of a word: the hash modulo the number of reducers, in \<open>size_t\<close>. A modulus of zero and an
  index without a file are undefined.\<close>

definition stream_to_file :: "(string \<Rightarrow> size_t) \<Rightarrow> string \<Rightarrow> int \<Rightarrow> bool \<Rightarrow> Worker \<Rightarrow> Worker result" where
  "stream_to_file hash word val ismap w =
     (if ismap then
        (let n = (of_int (wk_nreducers w) :: size_t) in
         if n = 0 then Inl DivisionByZero
         else (let file_num = to_int32 (uint (hash word mod n)) in
               if 0 \<le> file_num \<and> nat file_num < length (wk_inter_files w)
               then Inr (w\<lparr>wk_files := append_file (wk_inter_files w ! nat file_num) (kv_line word val) (wk_files w)\<rparr>)
               else Inl UndefinedBehaviour))
      else
        (case wk_outstream w of
           None \<Rightarrow> Inr w
         | Some name \<Rightarrow> Inr (w\<lparr>wk_files := append_file name (kv_line word val) (wk_files w)\<rparr>)))"

text \<open>The loop over the dictionary the Python function returned, in insertion order. The strings are the
  representations of the keys (\<^verbatim>\<open>PyObject_Repr\<close>), which is what is hashed and written.\<close>

fun stream_all :: "(string \<Rightarrow> size_t) \<Rightarrow> (string \<times> int) list \<Rightarrow> bool \<Rightarrow> Worker \<Rightarrow> Worker result" where
  "stream_all hash [] ismap w = Inr w"
| "stream_all hash ((word, val) # kvs) ismap w =
     rbind (stream_to_file hash word val ismap w) (stream_all hash kvs ismap)"

text \<open>\<^verbatim>\<open>instantiate_py_func\<close>: the function reads a local file and returns a dictionary, or fails;
  a failure is printed and nothing is streamed. A file that does not exist makes it fail.\<close>

definition instantiate_py_func ::
    "(string \<Rightarrow> size_t) \<Rightarrow> (string \<Rightarrow> (string \<times> int) list option) \<Rightarrow> bool \<Rightarrow> string \<Rightarrow> Worker \<Rightarrow> Worker result" where
  "instantiate_py_func hash pyfunc ismap filename w =
     (case wk_files w filename of
        None \<Rightarrow> Inr w
      | Some content \<Rightarrow>
          (case pyfunc content of None \<Rightarrow> Inr w | Some kvs \<Rightarrow> stream_all hash kvs ismap w))"

definition close_r_intermediate_files :: "Worker \<Rightarrow> Worker result" where
  "close_r_intermediate_files w =
     (if wk_nreducers w \<le> int (length (wk_inter_files w)) then Inr (w\<lparr>wk_inter_files := []\<rparr>)
      else Inl UndefinedBehaviour)"

text \<open>The upload of one intermediate file; a missing local file makes opening the stream throw.\<close>

definition add_intermediate_blob ::
    "'b Storage \<Rightarrow> WorkerDBConnection \<Rightarrow> int \<Rightarrow> string \<Rightarrow> int \<Rightarrow> int \<Rightarrow> local_files \<Rightarrow>
     string list \<times> 'b \<Rightarrow> (string list \<times> 'b) result" where
  "add_intermediate_blob st db reducer_id address sid spid files acc =
     (let blobname = int_name address sid spid reducer_id in
      case files blobname of
        None \<Rightarrow> Inl StorageException
      | Some content \<Rightarrow>
          rbind (st_upload st (db_wrkrcontainername db) blobname content (snd acc)) (\<lambda>b.
            Inr (fst acc @ [blobname], b)))"

fun add_intermediate_blobs ::
    "'b Storage \<Rightarrow> WorkerDBConnection \<Rightarrow> int list \<Rightarrow> string \<Rightarrow> int \<Rightarrow> int \<Rightarrow> local_files \<Rightarrow>
     string list \<times> 'b \<Rightarrow> (string list \<times> 'b) result" where
  "add_intermediate_blobs st db [] address sid spid files acc = Inr acc"
| "add_intermediate_blobs st db (i # is) address sid spid files acc =
     rbind (add_intermediate_blob st db i address sid spid files acc)
       (add_intermediate_blobs st db is address sid spid files)"

section \<open>Map\<close>

text \<open>The mutable state of a map task: the worker, the storage, the container of the last upload and the
  blobs so far.\<close>

definition map_shard ::
    "'b Storage \<Rightarrow> (string \<Rightarrow> size_t) \<Rightarrow> (string \<Rightarrow> (string \<times> int) list option) \<Rightarrow>
     string \<Rightarrow> size_t \<Rightarrow> size_t \<Rightarrow> int \<Rightarrow> int \<Rightarrow> int \<Rightarrow>
     Worker \<times> 'b \<times> string \<times> string list \<Rightarrow> (Worker \<times> 'b \<times> string \<times> string list) result" where
  "map_shard st hash pymap blobname begin' end' nReducers sid spid acc =
     (case acc of (w, b, out_container, bloblst) \<Rightarrow>
        (let w1 = create_r_intermediate_files sid spid (w\<lparr>wk_nreducers := nReducers\<rparr>) in
         case wk_dbConnection w1 of
           None \<Rightarrow> Inl UndefinedBehaviour
         | Some db \<Rightarrow>
             (let (ok, outfile, files) =
                    write_partial_data_to_local_file (st_range st (db_mstrcontainername db) b)
                      blobname begin' end' (wk_full_address w1) [] (wk_files w1)
              in rbind (instantiate_py_func hash pymap True outfile (w1\<lparr>wk_files := files\<rparr>)) (\<lambda>w2.
                 rbind (close_r_intermediate_files w2) (\<lambda>w3.
                 rbind (add_intermediate_blobs st db (reducer_indices (wk_nreducers w3)) (wk_full_address w3)
                          sid spid (wk_files w3) (bloblst, b)) (\<lambda>(bloblst', b').
                   Inr (w3, b', if reducer_indices (wk_nreducers w3) = [] then out_container
                                else db_wrkrcontainername db, bloblst')))))))"

fun map_pieces ::
    "'b Storage \<Rightarrow> (string \<Rightarrow> size_t) \<Rightarrow> (string \<Rightarrow> (string \<times> int) list option) \<Rightarrow>
     int \<Rightarrow> int \<Rightarrow> int \<Rightarrow> ShardTuple list \<Rightarrow>
     Worker \<times> 'b \<times> string \<times> string list \<Rightarrow> (Worker \<times> 'b \<times> string \<times> string list) result" where
  "map_pieces st hash pymap nReducers shard_id piece_id [] acc = Inr acc"
| "map_pieces st hash pymap nReducers shard_id piece_id (stuple # stuples) acc =
     rbind (map_shard st hash pymap (st_blobname stuple) (size_of_int32 (st_startoffset stuple))
              (size_of_int32 (st_endoffset stuple)) nReducers shard_id piece_id acc)
       (map_pieces st hash pymap nReducers shard_id (piece_id + 1) stuples)"

text \<open>\<^verbatim>\<open>MapCallData::do_work\<close>. No response: the worker failed and sleeps.\<close>

definition map_do_work ::
    "'b Storage \<Rightarrow> (string \<Rightarrow> size_t) \<Rightarrow> (string \<Rightarrow> (string \<times> int) list option) \<Rightarrow> MapperInput \<Rightarrow>
     Worker \<times> 'b \<Rightarrow> (Worker \<times> 'b \<times> IntermediateResult option) result" where
  "map_do_work st hash pymap request wb =
     (let w = worker_check_fail (fst wb) in
      if wk_has_failed w then Inr (w, snd wb, None)
      else rbind (map_pieces st hash pymap (mi_npartition request) (mi_shard_id request) 0
                    (mi_stuples request) (w, snd wb, [], [])) (\<lambda>(w', b', rescontainer, blobList).
             Inr (w', b', Some \<lparr>ir_containername = rescontainer, ir_blobs = blobList\<rparr>)))"

section \<open>Reduce\<close>

text \<open>\<^verbatim>\<open>prepare_data\<close> appends a blob to the open file; a failed download is swallowed.\<close>

definition prepare_data :: "'b Storage \<Rightarrow> 'b \<Rightarrow> string \<Rightarrow> string \<Rightarrow> string \<Rightarrow> Worker \<Rightarrow> Worker" where
  "prepare_data st b in_container tmp_file in_blob w =
     (case st_download st in_container in_blob b of
        Inl e \<Rightarrow> w
      | Inr content \<Rightarrow> w\<lparr>wk_files := append_file tmp_file content (wk_files w)\<rparr>)"

definition create_output_file :: "int \<Rightarrow> Worker \<Rightarrow> Worker" where
  "create_output_file reducer_id w =
     (let name = ''out_'' @ to_string reducer_id
      in w\<lparr>wk_outfile := name, wk_outstream := Some name, wk_files := (wk_files w)(name \<mapsto> [])\<rparr>)"

definition add_out_blob ::
    "'b Storage \<Rightarrow> WorkerDBConnection \<Rightarrow> string \<Rightarrow> local_files \<Rightarrow> 'b \<Rightarrow> (string \<times> string \<times> 'b) result" where
  "add_out_blob st db outfile_name files b =
     (let containername = db_mstrcontainername db @ ''out'' in
      case files outfile_name of
        None \<Rightarrow> Inl StorageException
      | Some content \<Rightarrow>
          rbind (st_upload st containername outfile_name content b) (\<lambda>b'.
            Inr (outfile_name, containername, b')))"

definition worker_reduce ::
    "'b Storage \<Rightarrow> (string \<Rightarrow> size_t) \<Rightarrow> (string \<Rightarrow> (string \<times> int) list option) \<Rightarrow> string \<Rightarrow> int \<Rightarrow>
     Worker \<times> 'b \<Rightarrow> (Worker \<times> 'b \<times> string \<times> string) result" where
  "worker_reduce st hash pyreduce kvfilename reducer_id wb =
     (let w1 = create_output_file reducer_id (fst wb) in
      rbind (instantiate_py_func hash pyreduce False kvfilename w1) (\<lambda>w2.
        let w3 = w2\<lparr>wk_outstream := None\<rparr> in
        case wk_dbConnection w3 of
          None \<Rightarrow> Inl UndefinedBehaviour
        | Some db \<Rightarrow>
            rbind (add_out_blob st db (wk_outfile w3) (wk_files w3) (snd wb)) (\<lambda>(blob, container, b').
              Inr (w3, b', blob, container))))"

text \<open>\<^verbatim>\<open>ReduceCallData::do_work\<close>: the response carries the container, its blob name is never
  set.\<close>

definition kv_name :: "string \<Rightarrow> int \<Rightarrow> string" where
  "kv_name address reducer_id = ''kv-'' @ address @ ''-'' @ to_string reducer_id"

definition reduce_do_work ::
    "'b Storage \<Rightarrow> (string \<Rightarrow> size_t) \<Rightarrow> (string \<Rightarrow> (string \<times> int) list option) \<Rightarrow> ReducerInput \<Rightarrow>
     Worker \<times> 'b \<Rightarrow> (Worker \<times> 'b \<times> FinalResult option) result" where
  "reduce_do_work st hash pyreduce request wb =
     (let tmp_filename = kv_name (wk_full_address (fst wb)) (ri_reducer_id request);
          w0 = (fst wb)\<lparr>wk_files := (wk_files (fst wb))(tmp_filename \<mapsto> [])\<rparr>;
          w1 = worker_check_fail w0
      in if wk_has_failed w1 then Inr (w1, snd wb, None)
         else
           (let w2 = fold (prepare_data st (snd wb) (ri_containername request) tmp_filename) (ri_blobs request) w1
            in rbind (worker_reduce st hash pyreduce tmp_filename (ri_reducer_id request) (w2, snd wb))
                 (\<lambda>(w3, b', resblob, rescontainer).
                    Inr (w3, b', Some \<lparr>fr_blobname = [], fr_containername = rescontainer\<rparr>))))"

text \<open>\<^verbatim>\<open>ExchangeInfoCallData::do_work\<close>: a connection to the container, and the worker's address
  as the answer.\<close>

definition exchange_do_work :: "string \<Rightarrow> Worker \<Rightarrow> Worker \<times> string" where
  "exchange_do_work containername w =
     (let w' = worker_create_connection containername w in (w', wk_full_address w'))"

section \<open>Names of intermediate blobs\<close>

lemma sep_split:
  assumes "c \<notin> set a" "c \<notin> set b"
  shows "a @ c # x = b @ c # y \<longleftrightarrow> a = b \<and> x = y"
proof
  assume eq: "a @ c # x = b @ c # y"
  then have "takeWhile (\<lambda>z. z \<noteq> c) (a @ c # x) = takeWhile (\<lambda>z. z \<noteq> c) (b @ c # y)" by simp
  moreover have "takeWhile (\<lambda>z. z \<noteq> c) (d @ c # z) = d" if "c \<notin> set d" for d z
    using that by (induction d) auto
  ultimately have "a = b" using assms by metis
  with eq show "a = b \<and> x = y" by simp
qed simp

lemma int_name_inj:
  assumes "CHR ''_'' \<notin> set a" "CHR ''_'' \<notin> set a'"
  shows "int_name a sid spid i = int_name a' sid' spid' i' \<longleftrightarrow> a = a' \<and> sid = sid' \<and> spid = spid' \<and> i = i'"
  using assms by (simp add: int_name_def sep_split to_string_inj)

lemma int_name_same: "int_name a sid spid i = int_name a sid' spid' i' \<longleftrightarrow> sid = sid' \<and> spid = spid' \<and> i = i'"
  by (simp add: int_name_def sep_split to_string_inj)

lemma set_reducer_indices [simp]: "set (reducer_indices n) = {0..<n}"
proof -
  have "x \<in> int ` {0..<nat n}" if "0 \<le> x" "x < n" for x :: int
    using that by (auto simp: image_iff intro!: bexI [of _ "nat x"])
  then show ?thesis by (auto simp: reducer_indices_def)
qed

lemma distinct_reducer_indices [simp]: "distinct (reducer_indices n)"
  by (simp add: reducer_indices_def distinct_map)

lemma length_reducer_indices [simp]: "length (reducer_indices n) = nat n"
  by (simp add: reducer_indices_def)

lemma nth_reducer_indices: "k < nat n \<Longrightarrow> reducer_indices n ! k = int k"
  by (simp add: reducer_indices_def)

definition piece_names :: "string \<Rightarrow> int \<Rightarrow> int \<Rightarrow> int \<Rightarrow> string list" where
  "piece_names address sid spid n = map (int_name address sid spid) (reducer_indices n)"

lemma distinct_piece_names: "distinct (piece_names a sid spid n)"
  by (simp add: piece_names_def distinct_map inj_on_def int_name_same)

lemma set_piece_names: "x \<in> set (piece_names a sid spid n) \<longleftrightarrow> (\<exists>i. 0 \<le> i \<and> i < n \<and> x = int_name a sid spid i)"
  by (auto simp: piece_names_def)

section \<open>What a map task writes\<close>

lemma create_files_eq:
  "fold (open_intermediate sid spid) is w =
    w\<lparr>wk_files := (\<lambda>x. if x \<in> set (map (int_name (wk_full_address w) sid spid) is) then Some [] else wk_files w x),
      wk_inter_files := wk_inter_files w @ map (int_name (wk_full_address w) sid spid) is\<rparr>"
proof (induction "is" arbitrary: w)
  case (Cons i "is")
  let ?w = "open_intermediate sid spid i w"
  have w: "wk_full_address ?w = wk_full_address w" by (simp add: open_intermediate_def Let_def)
  have "(\<lambda>x. if x \<in> int_name (wk_full_address w) sid spid ` set is then Some [] else wk_files ?w x) =
      (\<lambda>x. if x = int_name (wk_full_address w) sid spid i \<or> x \<in> int_name (wk_full_address w) sid spid ` set is
           then Some [] else wk_files w x)"
    by (auto simp: open_intermediate_def Let_def)
  then show ?case
    unfolding fold_simps Cons w by (simp add: open_intermediate_def Let_def)
qed simp

lemma create_r_intermediate_files_eq:
  "create_r_intermediate_files sid spid w =
     w\<lparr>wk_files := (\<lambda>x. if x \<in> set (piece_names (wk_full_address w) sid spid (wk_nreducers w)) then Some [] else wk_files w x),
       wk_inter_files := wk_inter_files w @ piece_names (wk_full_address w) sid spid (wk_nreducers w)\<rparr>"
  by (simp add: create_r_intermediate_files_def create_files_eq piece_names_def)

text \<open>The reducer a word is meant for.\<close>

definition bucket :: "(string \<Rightarrow> size_t) \<Rightarrow> int \<Rightarrow> string \<Rightarrow> int" where
  "bucket hash n word = uint (hash word mod of_int n)"

lemma bucket_range:
  assumes "0 < n" "n < 2 ^ 31"
  shows "0 \<le> bucket hash n word" "bucket hash n word < n" "(of_int n :: size_t) \<noteq> 0"
proof -
  have u: "uint (of_int n :: size_t) = n" using assms by (simp add: uint_word_of_int)
  then show "(of_int n :: size_t) \<noteq> 0" using assms(1) by (metis less_irrefl unsigned_0)
  show "0 \<le> bucket hash n word" by (simp add: bucket_def)
  show "bucket hash n word < n" using u assms(1) by (simp add: bucket_def uint_mod pos_mod_bound)
qed

definition bucket_lines :: "(string \<Rightarrow> size_t) \<Rightarrow> int \<Rightarrow> int \<Rightarrow> (string \<times> int) list \<Rightarrow> string" where
  "bucket_lines hash n i kvs =
     concat (map (\<lambda>(word, val). kv_line word val) (filter (\<lambda>(word, val). bucket hash n word = i) kvs))"

lemma stream_to_file_eq:
  assumes "wk_inter_files w = map f (reducer_indices n)" "wk_nreducers w = n" "0 < n" "n < 2 ^ 31"
  shows "stream_to_file hash word val True w =
    Inr (w\<lparr>wk_files := append_file (f (bucket hash n word)) (kv_line word val) (wk_files w)\<rparr>)"
proof -
  note b = bucket_range(1,2) [OF assms(3,4), of hash word] bucket_range(3) [OF assms(3,4)]
  have "to_int32 (uint (hash word mod of_int n)) = bucket hash n word"
    using b(1,2) assms(4) unfolding bucket_def by (intro to_int32_id) linarith+
  moreover have "nat (bucket hash n word) < nat n" using b by simp
  moreover have "map f (reducer_indices n) ! nat (bucket hash n word) = f (bucket hash n word)"
    using b by (simp add: nth_reducer_indices)
  ultimately show ?thesis
    using assms b by (simp add: stream_to_file_def Let_def)
qed

lemma stream_all_eq:
  assumes "wk_inter_files w = map f (reducer_indices n)" "wk_nreducers w = n" "0 < n" "n < 2 ^ 31"
    and inj: "inj_on f {0..<n}" and "\<forall>i \<in> {0..<n}. \<exists>old. wk_files w (f i) = Some old"
  shows "\<exists>files. stream_all hash kvs True w = Inr (w\<lparr>wk_files := files\<rparr>) \<and>
    (\<forall>i \<in> {0..<n}. files (f i) = Some (the (wk_files w (f i)) @ bucket_lines hash n i kvs)) \<and>
    (\<forall>x. x \<notin> f ` {0..<n} \<longrightarrow> files x = wk_files w x)"
  using assms
proof (induction kvs arbitrary: w)
  case Nil
  then show ?case by (intro exI [of _ "wk_files w"]) (auto simp: bucket_lines_def)
next
  case (Cons kv kvs)
  obtain word val where kv: "kv = (word, val)" by (cases kv)
  let ?b = "bucket hash n word"
  let ?files = "append_file (f ?b) (kv_line word val) (wk_files w)"
  let ?w = "w\<lparr>wk_files := ?files\<rparr>"
  note b = bucket_range(1,2) [OF Cons.prems(3,4), of hash word]
  have at: "?files (f i) = Some (the (wk_files w (f i)) @ (if i = ?b then kv_line word val else []))"
    if "i \<in> {0..<n}" for i
    using bspec [OF Cons.prems(6) that] b inj_onD [OF Cons.prems(5), of i ?b] that
    by (auto simp: append_file_def)
  have off: "?files x = wk_files w x" if "x \<notin> f ` {0..<n}" for x
    using that b by (auto simp: append_file_def)
  have "\<exists>files. stream_all hash kvs True ?w = Inr (?w\<lparr>wk_files := files\<rparr>) \<and>
    (\<forall>i \<in> {0..<n}. files (f i) = Some (the (?files (f i)) @ bucket_lines hash n i kvs)) \<and>
    (\<forall>x. x \<notin> f ` {0..<n} \<longrightarrow> files x = ?files x)"
    using Cons.IH [of ?w] Cons.prems(1-5) at by simp
  then obtain files where f: "stream_all hash kvs True ?w = Inr (?w\<lparr>wk_files := files\<rparr>)"
    "\<forall>i \<in> {0..<n}. files (f i) = Some (the (?files (f i)) @ bucket_lines hash n i kvs)"
    "\<forall>x. x \<notin> f ` {0..<n} \<longrightarrow> files x = ?files x" by blast
  have "stream_all hash (kv # kvs) True w = Inr (w\<lparr>wk_files := files\<rparr>)"
    using f(1) stream_to_file_eq [OF Cons.prems(1-4)] by (simp add: kv)
  moreover have "files (f i) = Some (the (wk_files w (f i)) @ bucket_lines hash n i (kv # kvs))"
    if "i \<in> {0..<n}" for i
    using f(2) that at [OF that] by (auto simp: kv bucket_lines_def)
  ultimately show ?case using f(3) off by auto
qed

text \<open>What the storage service promises: an upload succeeds, is read back, and changes no other blob;
  ranges of other containers are unaffected.\<close>

definition storage_works :: "'b Storage \<Rightarrow> bool" where
  "storage_works st \<longleftrightarrow>
     (\<forall>c nm x b. \<exists>b'. st_upload st c nm x b = Inr b' \<and> st_download st c nm b' = Inr x \<and>
        (\<forall>c' nm'. (c', nm') \<noteq> (c, nm) \<longrightarrow> st_download st c' nm' b' = st_download st c' nm' b) \<and>
        (\<forall>c'. c' \<noteq> c \<longrightarrow> st_range st c' b' = st_range st c' b))"

lemma storage_worksE:
  assumes "storage_works st"
  obtains b' where "st_upload st c nm x b = Inr b'" "st_download st c nm b' = Inr x"
    "\<And>c' nm'. (c', nm') \<noteq> (c, nm) \<Longrightarrow> st_download st c' nm' b' = st_download st c' nm' b"
    "\<And>c'. c' \<noteq> c \<Longrightarrow> st_range st c' b' = st_range st c' b"
  using assms unfolding storage_works_def by blast

lemma add_intermediate_blobs_eq:
  assumes st: "storage_works st" and "\<forall>i \<in> set is. \<exists>x. files (int_name a sid spid i) = Some x"
    and "distinct is"
  shows "\<exists>b'. add_intermediate_blobs st db is a sid spid files (bloblst, b) =
      Inr (bloblst @ map (int_name a sid spid) is, b') \<and>
    (\<forall>i \<in> set is. st_download st (db_wrkrcontainername db) (int_name a sid spid i) b' =
       Inr (the (files (int_name a sid spid i)))) \<and>
    (\<forall>c nm. c \<noteq> db_wrkrcontainername db \<or> nm \<notin> int_name a sid spid ` set is \<longrightarrow>
       st_download st c nm b' = st_download st c nm b) \<and>
    (\<forall>c. c \<noteq> db_wrkrcontainername db \<longrightarrow> st_range st c b' = st_range st c b)"
  using assms(2,3)
proof (induction "is" arbitrary: bloblst b)
  case (Cons i "is")
  let ?nm = "int_name a sid spid i" and ?c = "db_wrkrcontainername db"
  obtain x where x: "files ?nm = Some x" using Cons.prems by auto
  obtain b1 where b1: "st_upload st ?c ?nm x b = Inr b1" "st_download st ?c ?nm b1 = Inr x"
    "\<And>c' nm'. (c', nm') \<noteq> (?c, ?nm) \<Longrightarrow> st_download st c' nm' b1 = st_download st c' nm' b"
    "\<And>c'. c' \<noteq> ?c \<Longrightarrow> st_range st c' b1 = st_range st c' b"
    using storage_worksE [OF st, where c = ?c and nm = ?nm and x = x and b = b] by metis
  have one: "add_intermediate_blob st db i a sid spid files (bloblst, b) = Inr (bloblst @ [?nm], b1)"
    using x b1(1) by (simp add: add_intermediate_blob_def Let_def)
  obtain b' where b': "add_intermediate_blobs st db is a sid spid files (bloblst @ [?nm], b1) =
      Inr ((bloblst @ [?nm]) @ map (int_name a sid spid) is, b')"
    "\<forall>i \<in> set is. st_download st ?c (int_name a sid spid i) b' = Inr (the (files (int_name a sid spid i)))"
    "\<forall>c nm. c \<noteq> ?c \<or> nm \<notin> int_name a sid spid ` set is \<longrightarrow> st_download st c nm b' = st_download st c nm b1"
    "\<forall>c. c \<noteq> ?c \<longrightarrow> st_range st c b' = st_range st c b1"
    using Cons.IH [of "bloblst @ [?nm]" b1] Cons.prems by auto
  have "?nm \<notin> int_name a sid spid ` set is" using Cons.prems(2) by (auto simp: int_name_same)
  with b'(3) b1(2) x have "st_download st ?c ?nm b' = Inr (the (files ?nm))" by simp
  with b' b1 one show ?case by (intro exI [of _ b']) auto
qed simp

text \<open>The dictionary of a piece: what the map function returns on the local file.\<close>

definition piece_dict ::
    "downloader \<Rightarrow> (string \<Rightarrow> (string \<times> int) list option) \<Rightarrow> ShardData \<Rightarrow> (string \<times> int) list" where
  "piece_dict download pymap d =
     (case rbind (download (sd_blobName d) (sd_begin d) (sd_end d - sd_begin d + of_nat EXTRA_LEN))
             (fix_word_boundary (sd_begin d) (sd_end d)) of
        Inl e \<Rightarrow> []
      | Inr c \<Rightarrow> (case pymap c of None \<Rightarrow> [] | Some kvs \<Rightarrow> kvs))"

text \<open>A worker between two tasks: connected, no open streams, no local file without a name.\<close>

definition worker_ready :: "WorkerDBConnection \<Rightarrow> string \<Rightarrow> Worker \<Rightarrow> bool" where
  "worker_ready db address w \<longleftrightarrow>
     wk_dbConnection w = Some db \<and> wk_full_address w = address \<and> wk_inter_files w = [] \<and>
     wk_files w [] = None \<and> db_wrkrcontainername db = db_mstrcontainername db @ ''int''"

lemma shard_file_fresh: "shard_file_name b e a \<noteq> int_name a' sid spid i" "shard_file_name b e a \<noteq> []"
  "[] \<noteq> int_name a' sid spid i"
  by (simp_all add: shard_file_name_def int_name_def)

lemma py_map_files:
  assumes "wk_inter_files w = piece_names a sid spid n" "wk_nreducers w = n" "0 < n" "n < 2 ^ 31"
    and "\<forall>i \<in> {0..<n}. wk_files w (int_name a sid spid i) = Some []"
    and "kvs = (case wk_files w outfile of None \<Rightarrow> [] | Some c \<Rightarrow>
      (case pymap c of None \<Rightarrow> [] | Some kvs \<Rightarrow> kvs))"
  shows "\<exists>files. instantiate_py_func hash pymap True outfile w = Inr (w\<lparr>wk_files := files\<rparr>) \<and>
    (\<forall>i \<in> {0..<n}. files (int_name a sid spid i) = Some (bucket_lines hash n i kvs)) \<and>
    (\<forall>x. (\<forall>i. x \<noteq> int_name a sid spid i) \<longrightarrow> files x = wk_files w x)"
proof -
  have inj: "inj_on (int_name a sid spid) {0..<n}" by (auto simp: inj_on_def int_name_same)
  have "\<exists>files. stream_all hash kvs True w = Inr (w\<lparr>wk_files := files\<rparr>) \<and>
    (\<forall>i \<in> {0..<n}. files (int_name a sid spid i) = Some (bucket_lines hash n i kvs)) \<and>
    (\<forall>x. (\<forall>i. x \<noteq> int_name a sid spid i) \<longrightarrow> files x = wk_files w x)"
    using stream_all_eq [of w "int_name a sid spid" n hash kvs] assms inj
    by (simp add: piece_names_def) (metis (no_types, lifting) append_Nil imageE option.sel)
  moreover have "instantiate_py_func hash pymap True outfile w = stream_all hash kvs True w"
    using assms(6) by (simp add: instantiate_py_func_def split: option.splits)
  ultimately show ?thesis by simp
qed

text \<open>What one piece leaves behind: the blobs of the piece hold the lines of its dictionary, by reducer,
  and nothing else in the storage has changed.\<close>

definition piece_stored ::
    "'b Storage \<Rightarrow> (string \<Rightarrow> size_t) \<Rightarrow> string \<Rightarrow> string \<Rightarrow> int \<Rightarrow> int \<Rightarrow> int \<Rightarrow> (string \<times> int) list \<Rightarrow> 'b \<Rightarrow> bool" where
  "piece_stored st hash container a n sid spid kvs b \<longleftrightarrow>
     (\<forall>i \<in> {0..<n}. st_download st container (int_name a sid spid i) b = Inr (bucket_lines hash n i kvs))"

lemma map_shard_ok:
  assumes st: "storage_works st" and wr: "worker_ready db a w" and n: "0 < n" "n < 2 ^ 31"
  shows "\<exists>w' b'. map_shard st hash pymap nm x y n sid spid (w, b, c, bloblst) =
      Inr (w', b', db_wrkrcontainername db, bloblst @ piece_names a sid spid n) \<and> worker_ready db a w' \<and>
    piece_stored st hash (db_wrkrcontainername db) a n sid spid
      (piece_dict (st_range st (db_mstrcontainername db) b) pymap (new_ShardData nm x y)) b' \<and>
    (\<forall>c nm. c \<noteq> db_wrkrcontainername db \<or> nm \<notin> set (piece_names a sid spid n) \<longrightarrow>
       st_download st c nm b' = st_download st c nm b) \<and>
    st_range st (db_mstrcontainername db) b' = st_range st (db_mstrcontainername db) b"
proof -
  let ?down = "st_range st (db_mstrcontainername db) b"
  define w1 where "w1 = create_r_intermediate_files sid spid (w\<lparr>wk_nreducers := n\<rparr>)"
  have w1: "wk_dbConnection w1 = Some db" "wk_full_address w1 = a" "wk_nreducers w1 = n"
    "wk_inter_files w1 = piece_names a sid spid n"
    "wk_files w1 = (\<lambda>x. if x \<in> set (piece_names a sid spid n) then Some [] else wk_files w x)"
    using wr by (simp_all add: w1_def create_r_intermediate_files_eq worker_ready_def cong: if_cong)
  obtain ok outfile files where wp:
    "write_partial_data_to_local_file ?down nm x y a [] (wk_files w1) = (ok, outfile, files)"
    by (metis surj_pair)
  define w2 where "w2 = w1\<lparr>wk_files := files\<rparr>"
  let ?kvs = "piece_dict ?down pymap (new_ShardData nm x y)"
  have w1nil: "wk_files w1 [] = None"
    using wr w1(5) shard_file_fresh(3) [of a sid spid] by (auto simp: worker_ready_def set_piece_names)
  have names: "files (int_name a sid spid i) = wk_files w1 (int_name a sid spid i)" for i
    using wp shard_file_fresh(1) [of x y a a sid spid i]
    by (auto simp: write_partial_data_to_local_file_def Let_def split: sum.splits)
  have nil: "files [] = None"
    using wp w1nil shard_file_fresh(2) [of x y a]
    by (auto simp: write_partial_data_to_local_file_def Let_def split: sum.splits)
  have kvs: "?kvs = (case wk_files w2 outfile of None \<Rightarrow> [] | Some c \<Rightarrow>
      (case pymap c of None \<Rightarrow> [] | Some kvs \<Rightarrow> kvs))"
    using wp w1nil
    by (auto simp: w2_def piece_dict_def new_ShardData_def write_partial_data_to_local_file_def Let_def
        split: sum.splits)
  have "\<exists>fs. instantiate_py_func hash pymap True outfile w2 = Inr (w2\<lparr>wk_files := fs\<rparr>) \<and>
    (\<forall>i \<in> {0..<n}. fs (int_name a sid spid i) = Some (bucket_lines hash n i ?kvs)) \<and>
    (\<forall>z. (\<forall>i. z \<noteq> int_name a sid spid i) \<longrightarrow> fs z = wk_files w2 z)"
    using names w1 n by (intro py_map_files [OF _ _ n _ kvs]) (auto simp: w2_def set_piece_names)
  then obtain fs where fs: "instantiate_py_func hash pymap True outfile w2 = Inr (w2\<lparr>wk_files := fs\<rparr>)"
    "\<forall>i \<in> {0..<n}. fs (int_name a sid spid i) = Some (bucket_lines hash n i ?kvs)" "fs [] = None"
    using nil shard_file_fresh(3) by (auto simp: w2_def)
  define w3 where "w3 = w2\<lparr>wk_files := fs, wk_inter_files := []\<rparr>"
  have close: "close_r_intermediate_files (w2\<lparr>wk_files := fs\<rparr>) = Inr w3"
    using w1 n by (simp add: close_r_intermediate_files_def w3_def w2_def piece_names_def)
  have "\<forall>i \<in> set (reducer_indices n). \<exists>x. fs (int_name a sid spid i) = Some x" using fs(2) by auto
  from add_intermediate_blobs_eq [OF st this distinct_reducer_indices, of db bloblst b]
  obtain b' where b': "add_intermediate_blobs st db (reducer_indices n) a sid spid fs (bloblst, b) =
      Inr (bloblst @ piece_names a sid spid n, b')"
    "\<forall>i \<in> {0..<n}. st_download st (db_wrkrcontainername db) (int_name a sid spid i) b' =
       Inr (the (fs (int_name a sid spid i)))"
    "\<forall>c nm. c \<noteq> db_wrkrcontainername db \<or> nm \<notin> set (piece_names a sid spid n) \<longrightarrow>
       st_download st c nm b' = st_download st c nm b"
    "\<forall>c. c \<noteq> db_wrkrcontainername db \<longrightarrow> st_range st c b' = st_range st c b"
    by (auto simp: piece_names_def)
  have ri: "reducer_indices n \<noteq> []" using n(1) length_reducer_indices [of n] by (auto simp del: length_reducer_indices)
  have w3: "wk_nreducers w3 = n" "wk_full_address w3 = a" "wk_files w3 = fs"
    using w1 by (simp_all add: w3_def w2_def)
  have "map_shard st hash pymap nm x y n sid spid (w, b, c, bloblst) =
      Inr (w3, b', db_wrkrcontainername db, bloblst @ piece_names a sid spid n)"
    using w1(1,2) wp fs(1) close b'(1) ri
    by (simp add: map_shard_def w1_def [symmetric] w2_def [symmetric] w3)
  moreover have "worker_ready db a w3" using w1 fs(3) wr by (simp add: worker_ready_def w3_def w2_def)
  moreover have "db_mstrcontainername db \<noteq> db_wrkrcontainername db" using wr by (simp add: worker_ready_def)
  ultimately show ?thesis using b' fs(2) by (auto simp: piece_stored_def)
qed

definition task_names :: "string \<Rightarrow> int \<Rightarrow> int \<Rightarrow> int \<Rightarrow> nat \<Rightarrow> string list" where
  "task_names a n sid p k = concat (map (\<lambda>j. piece_names a sid (p + int j) n) [0..<k])"

lemma task_names_Suc: "task_names a n sid p (Suc k) = piece_names a sid p n @ task_names a n sid (p + 1) k"
  unfolding task_names_def map_upt_Suc by (simp add: algebra_simps)

lemma map_pieces_ok:
  assumes st: "storage_works st" and n: "0 < n" "n < 2 ^ 31"
  shows "worker_ready db a w \<Longrightarrow>
    \<exists>w' b'. map_pieces st hash pymap n sid p ts (w, b, c, bloblst) =
      Inr (w', b', if ts = [] then c else db_wrkrcontainername db, bloblst @ task_names a n sid p (length ts)) \<and>
    worker_ready db a w' \<and>
    (\<forall>j < length ts. piece_stored st hash (db_wrkrcontainername db) a n sid (p + int j)
       (piece_dict (st_range st (db_mstrcontainername db) b) pymap (data_of_tuple (ts ! j))) b') \<and>
    (\<forall>c nm. c \<noteq> db_wrkrcontainername db \<or> nm \<notin> set (task_names a n sid p (length ts)) \<longrightarrow>
       st_download st c nm b' = st_download st c nm b) \<and>
    st_range st (db_mstrcontainername db) b' = st_range st (db_mstrcontainername db) b"
proof (induction ts arbitrary: p w b c bloblst)
  case Nil
  then show ?case by (simp add: task_names_def)
next
  case (Cons t ts)
  let ?c = "db_wrkrcontainername db" and ?range = "st_range st (db_mstrcontainername db)"
  have t: "new_ShardData (st_blobname t) (size_of_int32 (st_startoffset t)) (size_of_int32 (st_endoffset t)) =
      data_of_tuple t" by (simp add: data_of_tuple_def)
  obtain w1 b1 where one: "map_shard st hash pymap (st_blobname t) (size_of_int32 (st_startoffset t))
      (size_of_int32 (st_endoffset t)) n sid p (w, b, c, bloblst) = Inr (w1, b1, ?c, bloblst @ piece_names a sid p n)"
    "worker_ready db a w1"
    "piece_stored st hash ?c a n sid p (piece_dict (?range b) pymap (data_of_tuple t)) b1"
    "\<forall>c nm. c \<noteq> ?c \<or> nm \<notin> set (piece_names a sid p n) \<longrightarrow> st_download st c nm b1 = st_download st c nm b"
    "?range b1 = ?range b"
    using map_shard_ok [OF st Cons.prems n, of hash pymap "st_blobname t" "size_of_int32 (st_startoffset t)"
        "size_of_int32 (st_endoffset t)" sid p b c bloblst] unfolding t by blast
  obtain w' b' where rest: "map_pieces st hash pymap n sid (p + 1) ts (w1, b1, ?c, bloblst @ piece_names a sid p n) =
      Inr (w', b', if ts = [] then ?c else ?c, (bloblst @ piece_names a sid p n) @ task_names a n sid (p + 1) (length ts))"
    "worker_ready db a w'"
    "\<forall>j < length ts. piece_stored st hash ?c a n sid (p + 1 + int j) (piece_dict (?range b1) pymap (data_of_tuple (ts ! j))) b'"
    "\<forall>c nm. c \<noteq> ?c \<or> nm \<notin> set (task_names a n sid (p + 1) (length ts)) \<longrightarrow> st_download st c nm b' = st_download st c nm b1"
    "?range b' = ?range b1"
    using Cons.IH [OF one(2), of "p + 1" b1 ?c "bloblst @ piece_names a sid p n"] by blast
  have "int_name a sid p i \<notin> set (task_names a n sid (p + 1) (length ts))" for i
    by (auto simp: task_names_def set_piece_names int_name_same)
  with rest(4) one(3) have head: "piece_stored st hash ?c a n sid p (piece_dict (?range b) pymap (data_of_tuple t)) b'"
    by (auto simp: piece_stored_def)
  have "piece_stored st hash ?c a n sid (p + int j) (piece_dict (?range b) pymap (data_of_tuple ((t # ts) ! j))) b'"
    if "j < length (t # ts)" for j
    using that head rest(3) one(5) by (cases j) (auto simp: algebra_simps)
  moreover have "map_pieces st hash pymap n sid p (t # ts) (w, b, c, bloblst) =
      Inr (w', b', ?c, bloblst @ task_names a n sid p (length (t # ts)))"
    using one(1) rest(1) by (simp add: task_names_Suc)
  moreover have "st_download st c nm b' = st_download st c nm b"
    if "c \<noteq> ?c \<or> nm \<notin> set (task_names a n sid p (length (t # ts)))" for c nm
    using that rest(4) one(4) by (auto simp: task_names_Suc)
  ultimately show ?case using rest(2,5) one(5) by (intro exI [of _ w'] exI [of _ b']) auto
qed

text \<open>A worker may still be counting down to its simulated failure: whenever it answers, the answer
  names the blobs of the task, and they are stored.\<close>

lemma worker_ready_check_fail: "worker_ready db a w \<Longrightarrow> worker_ready db a (worker_check_fail w)"
  by (simp add: worker_ready_def worker_check_fail_def worker_enter_fail_state_def Let_def)

lemma map_reply_stored:
  assumes "storage_works st" "worker_ready db a w" "0 < mi_npartition req" "mi_npartition req < 2 ^ 31"
    and "map_do_work st hash pymap req (w, b) = Inr (w', b', Some reply)"
  shows "ir_blobs reply = task_names a (mi_npartition req) (mi_shard_id req) 0 (length (mi_stuples req)) \<and>
    (mi_stuples req \<noteq> [] \<longrightarrow> ir_containername reply = db_wrkrcontainername db) \<and>
    (\<forall>j < length (mi_stuples req). piece_stored st hash (db_wrkrcontainername db) a (mi_npartition req)
       (mi_shard_id req) (int j)
       (piece_dict (st_range st (db_mstrcontainername db) b) pymap (data_of_tuple (mi_stuples req ! j))) b') \<and>
    (\<forall>c nm. c \<noteq> db_wrkrcontainername db \<or> nm \<notin> set (ir_blobs reply) \<longrightarrow>
       st_download st c nm b' = st_download st c nm b) \<and>
    st_range st (db_mstrcontainername db) b' = st_range st (db_mstrcontainername db) b"
  using map_pieces_ok [OF assms(1,3,4) worker_ready_check_fail [OF assms(2)], of hash pymap
      "mi_shard_id req" 0 "mi_stuples req" b "[]" "[]"] assms(5)
  by (auto simp: map_do_work_def Let_def split: if_splits)

lemma set_task_names:
  "x \<in> set (task_names a n sid p k) \<longleftrightarrow> (\<exists>j < k. \<exists>i. 0 \<le> i \<and> i < n \<and> x = int_name a sid (p + int j) i)"
  by (auto simp: task_names_def set_piece_names)

lemma length_task_names: "length (task_names a n sid p k) = k * nat n"
  by (induction k arbitrary: p) (simp_all add: task_names_Suc piece_names_def, simp add: task_names_def)

lemma distinct_task_names: "distinct (task_names a n sid p k)"
proof (induction k arbitrary: p)
  case (Suc k)
  then show ?case
    by (auto simp: task_names_Suc distinct_piece_names set_piece_names set_task_names int_name_same)
qed (simp add: task_names_def)

lemma map_do_work_answers:
  assumes "storage_works st" "worker_ready db a w" "\<not> wk_will_fail w" "\<not> wk_has_failed w"
    and "0 < mi_npartition req" "mi_npartition req < 2 ^ 31"
  shows "\<exists>w' b' reply. map_do_work st hash pymap req (w, b) = Inr (w', b', Some reply) \<and> worker_ready db a w' \<and>
    ir_blobs reply = task_names a (mi_npartition req) (mi_shard_id req) 0 (length (mi_stuples req)) \<and>
    (\<forall>j < length (mi_stuples req). \<forall>i \<in> {0..<mi_npartition req}.
       st_download st (db_wrkrcontainername db) (int_name a (mi_shard_id req) (int j) i) b' =
         Inr (bucket_lines hash (mi_npartition req) i
           (piece_dict (st_range st (db_mstrcontainername db) b) pymap (data_of_tuple (mi_stuples req ! j))))) \<and>
    (\<forall>c nm. c \<noteq> db_wrkrcontainername db \<or> nm \<notin> set (ir_blobs reply) \<longrightarrow>
       st_download st c nm b' = st_download st c nm b)"
proof -
  have w: "worker_check_fail w = w" using assms(3) by (rule worker_fail.check_off)
  show ?thesis
    using map_pieces_ok [OF assms(1,5,6,2), of hash pymap "mi_shard_id req" 0 "mi_stuples req" b "[]" "[]"] assms(4)
    by (auto simp: map_do_work_def Let_def w piece_stored_def)
qed

text \<open>
  C17: A map task answers with one blob per piece and reducer, named after worker, shard, piece and
  reducer, and each of these blobs holds exactly the lines of the piece's dictionary whose word hashes to
  that reducer, in order. Every other blob of the storage is as before, and the worker is ready for
  the next task.
\<close>

theorem map_task_output:
  assumes "storage_works st" "worker_ready db a w" "\<not> wk_will_fail w" "\<not> wk_has_failed w"
    and "0 < mi_npartition req" "mi_npartition req < 2 ^ 31"
  shows "\<exists>w' b' reply. map_do_work st hash pymap req (w, b) = Inr (w', b', Some reply) \<and> worker_ready db a w' \<and>
    ir_blobs reply = task_names a (mi_npartition req) (mi_shard_id req) 0 (length (mi_stuples req)) \<and>
    (\<forall>j < length (mi_stuples req). \<forall>i \<in> {0..<mi_npartition req}.
       st_download st (db_wrkrcontainername db) (int_name a (mi_shard_id req) (int j) i) b' =
         Inr (bucket_lines hash (mi_npartition req) i
           (piece_dict (st_range st (db_mstrcontainername db) b) pymap (data_of_tuple (mi_stuples req ! j))))) \<and>
    (\<forall>c nm. c \<noteq> db_wrkrcontainername db \<or> nm \<notin> set (ir_blobs reply) \<longrightarrow>
       st_download st c nm b' = st_download st c nm b)"
  using assms by (rule map_do_work_answers)

text \<open>A storage service that is a map from container and blob to content.\<close>

definition demo_storage :: "(string \<times> string \<rightharpoonup> string) Storage" where
  "demo_storage =
     \<lparr>st_range = (\<lambda>c b nm. case b (c, nm) of None \<Rightarrow> \<lambda>x len. Inl StorageException
                           | Some d \<Rightarrow> fixed_download d nm),
      st_download = (\<lambda>c nm b. case b (c, nm) of None \<Rightarrow> Inl StorageException | Some d \<Rightarrow> Inr d),
      st_upload = (\<lambda>c nm d b. Inr (b((c, nm) \<mapsto> d)))\<rparr>"

lemma demo_storage_works: "storage_works demo_storage"
  by (simp add: storage_works_def demo_storage_def)

definition demo_worker :: Worker where
  "demo_worker = worker_create_connection ''books'' ((new_Worker 0 Map.empty)\<lparr>wk_full_address := ''w:1''\<rparr>)"

lemma demo_worker_ready: "worker_ready (new_WorkerDBConnection ''books'') ''w:1'' demo_worker"
  by (simp add: worker_ready_def demo_worker_def worker_create_connection_def new_Worker_def new_WorkerDBConnection_def)

definition demo_request :: MapperInput where
  "demo_request = \<lparr>mi_npartition = 2, mi_shard_id = 0,
     mi_stuples = [tuple_of_data (new_ShardData ''a'' 0 5)], mi_req_id = ''0''\<rparr>"

theorem map_task_output_witness:
  "\<exists>w' b' reply. map_do_work demo_storage (\<lambda>_. 5) (\<lambda>c. Some [(''to'', 1)]) demo_request
      (demo_worker, [(''books'', ''a'') \<mapsto> ''to be'']) = Inr (w', b', Some reply) \<and>
    ir_blobs reply = [int_name ''w:1'' 0 0 0, int_name ''w:1'' 0 0 1]"
proof -
  have "task_names ''w:1'' 2 0 0 1 = [int_name ''w:1'' 0 0 0, int_name ''w:1'' 0 0 1]"
    by (simp add: task_names_def piece_names_def reducer_indices_def numeral_2_eq_2)
  then show ?thesis
    using map_task_output [OF demo_storage_works demo_worker_ready, of demo_request "\<lambda>_. 5" "\<lambda>c. Some [(''to'', 1)]"
        "[(''books'', ''a'') \<mapsto> ''to be'']"]
    by (auto simp: demo_request_def demo_worker_def worker_create_connection_def new_Worker_def)
qed

section \<open>What a reduce task writes\<close>

lemma prepare_all:
  assumes "list_all2 (\<lambda>nm x. st_download st c nm b = Inr x) nms xs" "wk_files w tmp = Some old"
  shows "fold (prepare_data st b c tmp) nms w = w\<lparr>wk_files := (wk_files w)(tmp \<mapsto> old @ concat xs)\<rparr>"
  using assms
proof (induction arbitrary: w old rule: list_all2_induct)
  case Nil
  then have "(wk_files w)(tmp \<mapsto> old) = wk_files w" by auto
  then show ?case by simp
next
  case (Cons nm nms x xs)
  have "prepare_data st b c tmp nm w = w\<lparr>wk_files := (wk_files w)(tmp \<mapsto> old @ x)\<rparr>"
    using Cons.hyps(1) Cons.prems by (simp add: prepare_data_def append_file_def)
  then show ?case using Cons.IH [of "w\<lparr>wk_files := (wk_files w)(tmp \<mapsto> old @ x)\<rparr>" "old @ x"]
    by (simp cong: if_cong)
qed

definition kv_lines :: "(string \<times> int) list \<Rightarrow> string" where
  "kv_lines kvs = concat (map (\<lambda>(word, val). kv_line word val) kvs)"

lemma stream_out:
  "wk_outstream w = Some name \<Longrightarrow> wk_files w name = Some old \<Longrightarrow>
     stream_all hash kvs False w = Inr (w\<lparr>wk_files := (wk_files w)(name \<mapsto> old @ kv_lines kvs)\<rparr>)"
proof (induction kvs arbitrary: w old)
  case Nil
  then have "(wk_files w)(name \<mapsto> old) = wk_files w" by auto
  then show ?case by (simp add: kv_lines_def)
next
  case (Cons kv kvs)
  obtain word val where kv: "kv = (word, val)" by (cases kv)
  let ?w = "w\<lparr>wk_files := (wk_files w)(name \<mapsto> old @ kv_line word val)\<rparr>"
  have "stream_to_file hash word val False w = Inr ?w"
    using Cons.prems by (simp add: stream_to_file_def append_file_def)
  then show ?case using Cons.IH [of ?w "old @ kv_line word val"] Cons.prems
    by (simp add: kv kv_lines_def cong: if_cong)
qed

lemma reduce_do_work_answers:
  assumes "storage_works st" "wk_dbConnection w = Some db" "\<not> wk_has_failed (worker_check_fail w)"
    and "list_all2 (\<lambda>nm x. st_download st (ri_containername req) nm b = Inr x) (ri_blobs req) xs"
  shows "\<exists>w' b'. reduce_do_work st hash pyreduce req (w, b) =
      Inr (w', b', Some \<lparr>fr_blobname = [], fr_containername = db_mstrcontainername db @ ''out''\<rparr>) \<and>
    st_download st (db_mstrcontainername db @ ''out'') (''out_'' @ to_string (ri_reducer_id req)) b' =
      Inr (case pyreduce (concat xs) of None \<Rightarrow> [] | Some kvs \<Rightarrow> kv_lines kvs) \<and>
    (\<forall>c nm. (c, nm) \<noteq> (db_mstrcontainername db @ ''out'', ''out_'' @ to_string (ri_reducer_id req)) \<longrightarrow>
       st_download st c nm b' = st_download st c nm b)"
proof -
  let ?id = "ri_reducer_id req"
  let ?kv = "kv_name (wk_full_address w) ?id" and ?out = "''out_'' @ to_string (ri_reducer_id req)"
  let ?text = "case pyreduce (concat xs) of None \<Rightarrow> [] | Some kvs \<Rightarrow> kv_lines kvs"
  define w0 where "w0 = worker_check_fail (w\<lparr>wk_files := (wk_files w)(?kv \<mapsto> [])\<rparr>)"
  have w0: "\<not> wk_has_failed w0" "wk_dbConnection w0 = Some db" "wk_files w0 = (wk_files w)(?kv \<mapsto> [])"
    using assms(2,3)
    by (auto simp: w0_def worker_check_fail_def worker_enter_fail_state_def Let_def split: if_splits)
  have "fold (prepare_data st b (ri_containername req) ?kv) (ri_blobs req) w0 =
      w0\<lparr>wk_files := (wk_files w0)(?kv \<mapsto> [] @ concat xs)\<rparr>"
    using assms(4) by (rule prepare_all) (simp add: w0(3))
  then have prep: "fold (prepare_data st b (ri_containername req) ?kv) (ri_blobs req) w0 =
      w0\<lparr>wk_files := (wk_files w)(?kv \<mapsto> concat xs)\<rparr>"
    by (simp add: w0(3))
  have neq: "?kv \<noteq> ?out" by (simp add: kv_name_def)
  define w1 where "w1 = create_output_file ?id (w0\<lparr>wk_files := (wk_files w)(?kv \<mapsto> concat xs)\<rparr>)"
  have w1: "wk_outstream w1 = Some ?out" "wk_files w1 ?out = Some []" "wk_files w1 ?kv = Some (concat xs)"
    "wk_dbConnection w1 = Some db" "wk_outfile w1 = ?out"
    using neq w0(2) by (simp_all add: w1_def create_output_file_def Let_def)
  have "(wk_files w1)(?out \<mapsto> []) = wk_files w1" using w1(2) by auto
  then have py: "instantiate_py_func hash pyreduce False ?kv w1 = Inr (w1\<lparr>wk_files := (wk_files w1)(?out \<mapsto> ?text)\<rparr>)"
    using w1(3) stream_out [OF w1(1,2)] by (simp add: instantiate_py_func_def split: option.splits)
  obtain b' where b': "st_upload st (db_mstrcontainername db @ ''out'') ?out ?text b = Inr b'"
    "st_download st (db_mstrcontainername db @ ''out'') ?out b' = Inr ?text"
    "\<And>c' nm'. (c', nm') \<noteq> (db_mstrcontainername db @ ''out'', ?out) \<Longrightarrow> st_download st c' nm' b' = st_download st c' nm' b"
    by (rule storage_worksE [OF assms(1), where c = "db_mstrcontainername db @ ''out''" and nm = ?out and x = ?text
          and b = b]) (rule that)
  have "reduce_do_work st hash pyreduce req (w, b) =
      Inr (w1\<lparr>wk_files := (wk_files w1)(?out \<mapsto> ?text), wk_outstream := None\<rparr>, b',
        Some \<lparr>fr_blobname = [], fr_containername = db_mstrcontainername db @ ''out''\<rparr>)"
    using w0(1) prep py b'(1) w1(4,5)
    by (simp add: reduce_do_work_def Let_def w0_def [symmetric] worker_reduce_def w1_def [symmetric] add_out_blob_def)
  with b'(2,3) show ?thesis by blast
qed

text \<open>
  C18: A reduce task hands the Python function the concatenation of the requested blobs in the order of
  the request, and stores exactly the lines of the dictionary it returns as the output blob of the
  reducer. The response names the output container and leaves the blob name empty.
\<close>

theorem reduce_task_output:
  assumes "storage_works st" "wk_dbConnection w = Some db" "\<not> wk_will_fail w" "\<not> wk_has_failed w"
    and "list_all2 (\<lambda>nm x. st_download st (ri_containername req) nm b = Inr x) (ri_blobs req) xs"
  shows "\<exists>w' b'. reduce_do_work st hash pyreduce req (w, b) =
      Inr (w', b', Some \<lparr>fr_blobname = [], fr_containername = db_mstrcontainername db @ ''out''\<rparr>) \<and>
    st_download st (db_mstrcontainername db @ ''out'') (''out_'' @ to_string (ri_reducer_id req)) b' =
      Inr (case pyreduce (concat xs) of None \<Rightarrow> [] | Some kvs \<Rightarrow> kv_lines kvs)"
proof -
  have "worker_check_fail w = w" using assms(3) by (rule worker_fail.check_off)
  then show ?thesis using reduce_do_work_answers [OF assms(1,2) _ assms(5)] assms(4) by fastforce
qed

theorem reduce_task_output_witness:
  "\<exists>w' b'. reduce_do_work demo_storage (\<lambda>_. 0) (\<lambda>c. Some [(c, 7)])
      \<lparr>ri_req_id = ''0'', ri_containername = ''booksint'', ri_reducer_id = 1, ri_blobs = [''p'', ''q'']\<rparr>
      (demo_worker, [(''booksint'', ''p'') \<mapsto> ''x'', (''booksint'', ''q'') \<mapsto> ''y'']) =
    Inr (w', b', Some \<lparr>fr_blobname = [], fr_containername = ''booksout''\<rparr>) \<and>
    st_download demo_storage ''booksout'' (''out_'' @ to_string 1) b' = Inr (kv_line ''xy'' 7)"
  using reduce_task_output [OF demo_storage_works, of demo_worker "new_WorkerDBConnection ''books''"
      "\<lparr>ri_req_id = ''0'', ri_containername = ''booksint'', ri_reducer_id = 1, ri_blobs = [''p'', ''q'']\<rparr>"
      "[(''booksint'', ''p'') \<mapsto> ''x'', (''booksint'', ''q'') \<mapsto> ''y'']" "[''x'', ''y'']" "\<lambda>_. 0" "\<lambda>c. Some [(c, 7)]"]
  by (simp add: demo_worker_def worker_create_connection_def new_Worker_def new_WorkerDBConnection_def
      demo_storage_def kv_lines_def)

end
