(* ===== verification/Job.thy ===== *)
theory Job
  imports ReduceDispatch Worker
begin

text \<open>
  A job across the dispatchers of the master and the tasks of the workers: what a finished map phase
  hands to the reduce phase when the workers run \<open>map_do_work\<close>, and what the storage holds after a
  history of map and reduce tasks.
\<close>

section \<open>From the map phase to the reduce phase\<close>

text \<open>The answers of real workers: a successful answer to a map call is the response of
  \<open>map_do_work\<close> on some ready worker, whose address holds no underscore, for the request of the
  call.\<close>

definition worker_map_answers ::
    "'b Storage \<Rightarrow> (string \<Rightarrow> size_t) \<Rightarrow> (string \<Rightarrow> (string \<times> int) list option) \<Rightarrow>
     (AsyncClientMapCall \<Rightarrow> int \<Rightarrow> IntermediateResult \<Rightarrow> bool) \<Rightarrow> bool" where
  "worker_map_answers st hash pymap answers \<longleftrightarrow>
     (\<forall>c reply. answers c 0 reply \<longrightarrow>
        (\<exists>db a w b w' b'. worker_ready db a w \<and> CHR ''_'' \<notin> set a \<and>
           map_do_work st hash pymap (mc_query c) (w, b) = Inr (w', b', Some reply)))"

text \<open>What the map phase must hand over for a shard with \<open>k\<close> pieces.\<close>

definition shard_blobs :: "Master \<Rightarrow> MapperResult \<Rightarrow> bool" where
  "shard_blobs m r \<longleftrightarrow>
     (\<exists>a. CHR ''_'' \<notin> set a \<and>
        mr_blobList r = task_names a (m_nreducers m) (mr_shardId r) 0 (length (fs_sets (m_shards m ! nat (mr_shardId r)))))"

lemma worker_answers_good:
  assumes "storage_works st" "worker_map_answers st hash pymap answers" "0 < m_nreducers m" "m_nreducers m < 2 ^ 31"
  shows "good_answers m answers (shard_blobs m)"
  unfolding good_answers_def
proof (intro allI impI, elim conjE)
  fix c reply assume c: "map_call m c" "answers c 0 reply"
  then obtain db a w b w' b' where w: "worker_ready db a w" "CHR ''_'' \<notin> set a"
    "map_do_work st hash pymap (mc_query c) (w, b) = Inr (w', b', Some reply)"
    using assms(2) unfolding worker_map_answers_def by blast
  have q: "mc_query c = map_query m (mc_shardId c)" using c(1) by (simp add: map_call_def)
  have "ir_blobs reply = task_names a (m_nreducers m) (mc_shardId c) 0 (length (fs_sets (m_shards m ! nat (mc_shardId c))))"
    using map_reply_stored [OF assms(1) w(1) _ _ w(3)] assms(3,4) by (simp add: q map_query_def)
  then show "shard_blobs m (map_result c reply)"
    using w(2) unfolding shard_blobs_def by (intro exI [of _ a]) (simp add: map_result_def new_MapperResult_def)
qed

lemma int_name_reducer:
  assumes "0 \<le> i" "i < n" "n < 2 ^ 31"
  shows "blob_reducer (int_name a sid spid i) = Inr i" "names_reducer n (int_name a sid spid i)"
proof -
  show "blob_reducer (int_name a sid spid i) = Inr i"
    using blob_reducer_name [of i "''int_'' @ a @ ''_'' @ to_string sid @ ''_'' @ to_string spid"] assms
    by (simp add: int_name_def)
  then show "names_reducer n (int_name a sid spid i)" using assms by (simp add: names_reducer_def)
qed

lemma distinct_concat_map:
  assumes "distinct xs" "\<forall>x \<in> set xs. distinct (f x)"
    and "\<forall>x \<in> set xs. \<forall>y \<in> set xs. x \<noteq> y \<longrightarrow> set (f x) \<inter> set (f y) = {}"
  shows "distinct (concat (map f xs))"
  using assms by (induction xs) auto

lemma task_names_disjoint:
  assumes "CHR ''_'' \<notin> set a" "CHR ''_'' \<notin> set b" "sid \<noteq> sid'"
  shows "set (task_names a n sid p k) \<inter> set (task_names b n sid' p' k') = {}"
proof -
  have "x \<notin> set (task_names b n sid' p' k')" if "x \<in> set (task_names a n sid p k)" for x
  proof
    assume "x \<in> set (task_names b n sid' p' k')"
    then obtain q' i' where "x = int_name b sid' q' i'" by (auto simp: set_task_names)
    moreover from that obtain q i where "x = int_name a sid q i" by (auto simp: set_task_names)
    ultimately show False using int_name_inj [OF assms(1,2)] assms(3) by auto
  qed
  then show ?thesis by blast
qed

text \<open>The results of a finished map phase.\<close>

definition map_finished :: "Master \<Rightarrow> (int \<times> MapperResult) list \<Rightarrow> string list \<Rightarrow> bool" where
  "map_finished m res blobs \<longleftrightarrow>
     map fst res = map int [0..<length (m_shards m)] \<and>
     (\<forall>(i, r) \<in> set res. mr_shardId r = i \<and> shard_blobs m r) \<and>
     mset blobs = (\<Sum>(i, r) \<leftarrow> res. mset (mr_blobList r))"

lemma map_finished_blobs:
  assumes "map_finished m res blobs"
  shows "mset blobs = mset (concat (map (\<lambda>e. mr_blobList (snd e)) res))"
    "set blobs = (\<Union>e \<in> set res. set (mr_blobList (snd e)))"
proof -
  show eq: "mset blobs = mset (concat (map (\<lambda>e. mr_blobList (snd e)) res))"
  proof -
    have "(\<Sum>(i, r) \<leftarrow> res. mset (mr_blobList r)) = (\<Sum>e \<leftarrow> res. mset (mr_blobList (snd e)))"
      by (induction res) auto
    then show ?thesis using assms by (simp add: map_finished_def mset_concat comp_def)
  qed
  show "set blobs = (\<Union>e \<in> set res. set (mr_blobList (snd e)))"
    using mset_eq_setD [OF eq] by simp
qed

lemma map_finishedE:
  assumes "map_finished m res blobs" "e \<in> set res"
  obtains a k where "k < length (m_shards m)" "fst e = int k" "CHR ''_'' \<notin> set a"
    "mr_blobList (snd e) = task_names a (m_nreducers m) (int k) 0 (length (fs_sets (m_shards m ! k)))"
proof -
  have "fst e \<in> set (map int [0..<length (m_shards m)])"
    using assms unfolding map_finished_def by (metis image_eqI list.set_map)
  then obtain k where k: "k < length (m_shards m)" "fst e = int k" by auto
  moreover have "mr_shardId (snd e) = int k" "shard_blobs m (snd e)"
    using assms k(2) by (auto simp: map_finished_def split_beta)
  ultimately show ?thesis using that by (auto simp: shard_blobs_def)
qed

lemma map_finished_at:
  assumes "map_finished m res blobs" "k < length (m_shards m)"
  obtains e where "e \<in> set res" "fst e = int k"
proof -
  have "int k \<in> set (map fst res)" using assms by (simp add: map_finished_def)
  with that show ?thesis by auto
qed

lemma map_finished_distinct:
  assumes "map_finished m res blobs"
  shows "distinct blobs"
proof -
  have "distinct (map fst res)" using assms by (simp add: map_finished_def distinct_map)
  then have d: "distinct res" "inj_on fst (set res)" by (simp_all add: distinct_map)
  have "distinct (concat (map (\<lambda>e. mr_blobList (snd e)) res))"
  proof (rule distinct_concat_map [OF d(1)]; intro ballI impI)
    fix e assume "e \<in> set res"
    with assms show "distinct (mr_blobList (snd e))" by (rule map_finishedE) (simp add: distinct_task_names)
  next
    fix e e' assume e: "e \<in> set res" "e' \<in> set res" "e \<noteq> e'"
    then have "fst e \<noteq> fst e'" using d(2) by (auto simp: inj_on_def)
    with map_finishedE [OF assms e(1)] map_finishedE [OF assms e(2)]
    show "set (mr_blobList (snd e)) \<inter> set (mr_blobList (snd e')) = {}"
      by (metis task_names_disjoint)
  qed
  then show ?thesis using map_finished_blobs(1) [OF assms] mset_eq_imp_distinct_iff by blast
qed

lemma map_finished_length:
  assumes "map_finished m res blobs"
  shows "length blobs = (\<Sum>f \<leftarrow> m_shards m. length (fs_sets f)) * nat (m_nreducers m)"
proof -
  let ?k = "\<lambda>i. length (fs_sets (m_shards m ! nat i)) * nat (m_nreducers m)"
  have "length (mr_blobList (snd e)) = ?k (fst e)" if "e \<in> set res" for e
    using map_finishedE [OF assms that] by (metis length_task_names nat_int)
  then have "length (concat (map (\<lambda>e. mr_blobList (snd e)) res)) = (\<Sum>e \<leftarrow> res. ?k (fst e))"
    by (simp add: length_concat comp_def cong: map_cong)
  also have "\<dots> = (\<Sum>i \<leftarrow> map fst res. ?k i)" by (simp add: comp_def)
  also have "\<dots> = (\<Sum>k \<leftarrow> [0..<length (m_shards m)]. length (fs_sets (m_shards m ! k)) * nat (m_nreducers m))"
    using assms by (simp add: map_finished_def comp_def)
  also have "\<dots> = (\<Sum>f \<leftarrow> m_shards m. length (fs_sets f) * nat (m_nreducers m))"
    by (subst (3) map_nth [symmetric]) (simp add: comp_def)
  also have "\<dots> = (\<Sum>f \<leftarrow> m_shards m. length (fs_sets f)) * nat (m_nreducers m)"
    by (simp add: sum_list_mult_const)
  finally show ?thesis using map_finished_blobs(1) [OF assms] by (metis size_mset)
qed

lemma map_finished_names:
  assumes "map_finished m res blobs" "m_nreducers m < 2 ^ 31"
  shows "\<forall>item \<in> set blobs. names_reducer (m_nreducers m) item"
proof
  fix item assume "item \<in> set blobs"
  then obtain e where e: "e \<in> set res" "item \<in> set (mr_blobList (snd e))"
    using map_finished_blobs(2) [OF assms(1)] by auto
  obtain a k where "mr_blobList (snd e) = task_names a (m_nreducers m) (int k) 0 (length (fs_sets (m_shards m ! k)))"
    using map_finishedE [OF assms(1) e(1)] by metis
  with e(2) show "names_reducer (m_nreducers m) item"
    using int_name_reducer(2) assms(2) by (auto simp: set_task_names)
qed

lemma map_finished_complete:
  assumes "map_finished m res blobs" "k < length (m_shards m)"
  shows "\<exists>a. \<forall>j < length (fs_sets (m_shards m ! k)). \<forall>i \<in> {0..<m_nreducers m}. int_name a (int k) (int j) i \<in> set blobs"
proof -
  obtain e where e: "e \<in> set res" "fst e = int k" using map_finished_at [OF assms] by blast
  obtain a where "mr_blobList (snd e) = task_names a (m_nreducers m) (int k) 0 (length (fs_sets (m_shards m ! k)))"
    using map_finishedE [OF assms(1) e(1)] e(2) by (metis of_nat_eq_iff)
  then have "int_name a (int k) (int j) i \<in> set (mr_blobList (snd e))"
    if "j < length (fs_sets (m_shards m ! k))" "i \<in> {0..<m_nreducers m}" for i j
    using that by (auto simp: set_task_names)
  then show ?thesis using e(1) map_finished_blobs(2) [OF assms(1)] by blast
qed

lemma map_phase_finished:
  assumes "storage_works st" "worker_map_answers st hash pymap answers" "0 < m_nreducers m" "m_nreducers m < 2 ^ 31"
    and "indexed_shards m" "unsigned_of_int (m_nmappers m) = length (m_shards m)"
    and "(map_step answers)\<^sup>*\<^sup>* (runMapper m) s" "ms_pc s = Returned"
  shows "map_finished m (results s) (m_IntblobList (ms_master s))"
  using map_phase_result [OF assms(5) worker_answers_good [OF assms(1-4)] assms(6-8)]
  by (simp add: map_finished_def)

text \<open>What the reduce phase needs of the master, after the map phase.\<close>

lemma reduce_ready:
  assumes "storage_works st" "worker_map_answers st hash pymap answers" "0 < m_nreducers m" "m_nreducers m < 2 ^ 31"
    and "indexed_shards m" "unsigned_of_int (m_nmappers m) = length (m_shards m)" "0 < length (m_shards m)"
    and "answerable m answers" "\<forall>c. \<exists>reply. reduce_answers c 0 reply" "\<not> m_will_fail m" "\<not> m_has_failed m"
    and "(map_step answers)\<^sup>*\<^sup>* (runMapper m) s" "ms_pc s = Returned"
  shows "m_nreducers (ms_master s) < 2 ^ 31" "\<forall>item \<in> set (m_IntblobList (ms_master s)). names_reducer (m_nreducers (ms_master s)) item"
    "reduce_answerable (ms_master s) reduce_answers" "\<not> m_will_fail (ms_master s)" "\<not> m_has_failed (ms_master s)"
    "m_nreducers (ms_master s) = m_nreducers m" "good_reduce_answers (ms_master s) reduce_answers (\<lambda>_. True)"
proof -
  have keep: "m_nreducers (ms_master s) = m_nreducers m" "m_Clients (ms_master s) = m_Clients m"
    "\<not> m_will_fail (ms_master s)" "\<not> m_has_failed (ms_master s)"
    using map_run_keeps [OF assms(5,12,10,11)] assms(6,7) by auto
  then show "m_nreducers (ms_master s) = m_nreducers m" "\<not> m_will_fail (ms_master s)" "\<not> m_has_failed (ms_master s)"
    "m_nreducers (ms_master s) < 2 ^ 31"
    using assms(4) by simp_all
  show "\<forall>item \<in> set (m_IntblobList (ms_master s)). names_reducer (m_nreducers (ms_master s)) item"
    using map_finished_names [OF map_phase_finished [OF assms(1-6,12,13)] assms(4)] keep(1) by simp
  show "reduce_answerable (ms_master s) reduce_answers" "good_reduce_answers (ms_master s) reduce_answers (\<lambda>_. True)"
    using assms(8,9) keep(2) by (simp_all add: reduce_answerable_def answerable_def good_reduce_answers_def)
qed

section \<open>Histories of tasks\<close>

text \<open>The map tasks that ran to their end, in the order in which they did, each on some worker that is
  connected to the container; a shard may have been mapped several times. A worker that fails answers
  nothing and has written nothing. The log holds the answers.\<close>

inductive map_history ::
    "'b Storage \<Rightarrow> (string \<Rightarrow> size_t) \<Rightarrow> (string \<Rightarrow> (string \<times> int) list option) \<Rightarrow> string \<Rightarrow> Master \<Rightarrow> 'b \<Rightarrow>
     'b \<Rightarrow> (int \<times> IntermediateResult) list \<Rightarrow> bool"
  for st hash pymap container m b0 where
  start: "map_history st hash pymap container m b0 b0 []"
| task: "\<lbrakk>map_history st hash pymap container m b0 b log; 0 \<le> i; nat i < length (m_shards m);
      worker_ready (new_WorkerDBConnection container) a w; CHR ''_'' \<notin> set a;
      map_do_work st hash pymap (map_query m i) (w, b) = Inr (w', b', Some reply)\<rbrakk> \<Longrightarrow>
    map_history st hash pymap container m b0 b' ((i, reply) # log)"

text \<open>The dictionary of piece \<open>j\<close> of shard \<open>i\<close>, on the blobs of the input container.\<close>

definition shard_dict ::
    "downloader \<Rightarrow> (string \<Rightarrow> (string \<times> int) list option) \<Rightarrow> Master \<Rightarrow> int \<Rightarrow> nat \<Rightarrow> (string \<times> int) list" where
  "shard_dict download pymap m i j =
     piece_dict download pymap (data_of_tuple (tuple_of_data (fs_sets (m_shards m ! nat i) ! j)))"

definition answer_stored ::
    "'b Storage \<Rightarrow> (string \<Rightarrow> size_t) \<Rightarrow> (string \<Rightarrow> (string \<times> int) list option) \<Rightarrow> string \<Rightarrow> Master \<Rightarrow> downloader \<Rightarrow>
     'b \<Rightarrow> int \<Rightarrow> IntermediateResult \<Rightarrow> string \<Rightarrow> bool" where
  "answer_stored st hash pymap container m download b i reply a \<longleftrightarrow>
     CHR ''_'' \<notin> set a \<and>
     ir_blobs reply = task_names a (m_nreducers m) i 0 (length (fs_sets (m_shards m ! nat i))) \<and>
     (fs_sets (m_shards m ! nat i) \<noteq> [] \<longrightarrow> ir_containername reply = container @ ''int'') \<and>
     (\<forall>j < length (fs_sets (m_shards m ! nat i)).
        piece_stored st hash (container @ ''int'') a (m_nreducers m) i (int j) (shard_dict download pymap m i j) b)"

lemma new_db_names [simp]:
  "db_mstrcontainername (new_WorkerDBConnection c) = c" "db_wrkrcontainername (new_WorkerDBConnection c) = c @ ''int''"
  by (simp_all add: new_WorkerDBConnection_def)

lemma map_history_stored:
  assumes "map_history st hash pymap container m b0 b log" "storage_works st" "0 < m_nreducers m" "m_nreducers m < 2 ^ 31"
  shows "st_range st container b = st_range st container b0 \<and>
    (\<forall>(i, reply) \<in> set log. \<exists>a. answer_stored st hash pymap container m (st_range st container b0) b i reply a)"
  using assms(1)
proof (induction rule: map_history.induct)
  case (task b log i a w w' b' reply)
  let ?q = "map_query m i" and ?n = "m_nreducers m" and ?down = "st_range st container b0"
  have q: "mi_npartition ?q = ?n" "mi_shard_id ?q = i" "length (mi_stuples ?q) = length (fs_sets (m_shards m ! nat i))"
    "mi_stuples ?q = map tuple_of_data (fs_sets (m_shards m ! nat i))"
    by (simp_all add: map_query_def)
  note new = map_reply_stored [OF assms(2) task(4) _ _ task(6), unfolded q(1,2,3) new_db_names, OF assms(3,4)]
  have range: "st_range st container b' = ?down" using new task(7) by simp
  have "answer_stored st hash pymap container m ?down b' i reply a"
    using new task(5,7) by (auto simp: answer_stored_def shard_dict_def q(4))
  moreover have "\<exists>a'. answer_stored st hash pymap container m ?down b' i' reply' a'" if log: "(i', reply') \<in> set log" for i' reply'
  proof -
    obtain a' where a': "answer_stored st hash pymap container m ?down b i' reply' a'" using task(7) log by blast
    have "piece_stored st hash (container @ ''int'') a' ?n i' (int j) (shard_dict ?down pymap m i' j) b'"
      if j: "j < length (fs_sets (m_shards m ! nat i'))" for j
    proof (cases "a' = a \<and> i' = i")
      case True
      then show ?thesis using \<open>answer_stored st hash pymap container m ?down b' i reply a\<close> j
        by (simp add: answer_stored_def)
    next
      case False
      have "int_name a' i' (int j) r \<notin> set (ir_blobs reply)" for r
        using False a' task(5) new int_name_inj [of a' a] by (auto simp: answer_stored_def set_task_names)
      then have "st_download st (container @ ''int'') (int_name a' i' (int j) r) b' =
          st_download st (container @ ''int'') (int_name a' i' (int j) r) b" for r
        using new by blast
      moreover have "piece_stored st hash (container @ ''int'') a' ?n i' (int j) (shard_dict ?down pymap m i' j) b"
        using a' j by (simp add: answer_stored_def)
      ultimately show ?thesis by (simp add: piece_stored_def)
    qed
    with a' show ?thesis unfolding answer_stored_def by blast
  qed
  ultimately show ?case using range by auto
qed simp

text \<open>Answers that come from the log; a call may also fail at any time.\<close>

definition logged_answers :: "(int \<times> IntermediateResult) list \<Rightarrow> AsyncClientMapCall \<Rightarrow> int \<Rightarrow> IntermediateResult \<Rightarrow> bool" where
  "logged_answers log c code reply \<longleftrightarrow> (code = 0 \<longrightarrow> (mc_shardId c, reply) \<in> set log)"

definition from_log :: "(int \<times> IntermediateResult) list \<Rightarrow> MapperResult \<Rightarrow> bool" where
  "from_log log r \<longleftrightarrow> (\<exists>reply. (mr_shardId r, reply) \<in> set log \<and> mr_blobList r = ir_blobs reply \<and>
     mr_cname r = ir_containername reply)"

lemma logged_good: "good_answers m (logged_answers log) (from_log log)"
  by (auto simp: good_answers_def logged_answers_def from_log_def map_result_def)

text \<open>The container the reduce phase reads from is that of a result.\<close>

lemma map_emplace_new: "map_find m k = None \<Longrightarrow> (k, v) \<in> set (map_emplace k v m)"
  by (induction k v m rule: map_emplace.induct) (auto split: if_splits)

lemma container_step:
  assumes "map_step answers s t"
    and "results s \<noteq> [] \<longrightarrow> m_intcontainer (ms_master s) \<in> (\<lambda>e. mr_cname (snd e)) ` set (results s)"
  shows "results t \<noteq> [] \<longrightarrow> m_intcontainer (ms_master t) \<in> (\<lambda>e. mr_cname (snd e)) ` set (results t)"
  using assms
proof (induction rule: map_step.induct)
  case (drain s)
  let ?res = "hd (ms_responseList s)"
  show ?case
  proof (cases "mr_status ?res = SUCCESS \<and> map_find (results s) (mr_shardId ?res) = None")
    case True
    then have "(mr_shardId ?res, ?res) \<in> set (map_emplace (mr_shardId ?res) ?res (results s))"
      by (intro map_emplace_new) simp
    with True show ?thesis by (force simp: process_map_response_def Let_def)
  next
    case False
    with drain(3) show ?thesis by (auto simp: process_map_response_def Let_def)
  qed
qed (auto simp: send_map_task_def test_map_done_def push_map_response_def record_map_success_def
    task_assigned_check_fail_def enter_fail_state_def stop_ping_def Let_def split: prod.splits)

lemma container_run:
  assumes "(map_step answers)\<^sup>*\<^sup>* s0 s"
    and "results s0 \<noteq> [] \<longrightarrow> m_intcontainer (ms_master s0) \<in> (\<lambda>e. mr_cname (snd e)) ` set (results s0)"
  shows "results s \<noteq> [] \<longrightarrow> m_intcontainer (ms_master s) \<in> (\<lambda>e. mr_cname (snd e)) ` set (results s)"
  using assms
proof (induction rule: rtranclp_induct)
  case (step s t)
  show ?case by (rule container_step [OF step(2)]) (use step in blast)
qed

lemma container_of_result:
  assumes "(map_step answers)\<^sup>*\<^sup>* (runMapper m) s" "results s \<noteq> []"
  shows "m_intcontainer (ms_master s) \<in> (\<lambda>e. mr_cname (snd e)) ` set (results s)"
  using container_run [OF assms(1)] assms(2) by (simp add: runMapper_def start_map_dispatch_def)

text \<open>What a finished map phase leaves behind: an address per shard under which its pieces are stored, and
  the list of all their blobs.\<close>

definition map_phase_stored ::
    "'b Storage \<Rightarrow> (string \<Rightarrow> size_t) \<Rightarrow> (string \<Rightarrow> (string \<times> int) list option) \<Rightarrow> string \<Rightarrow> Master \<Rightarrow> downloader \<Rightarrow>
     'b \<Rightarrow> (nat \<Rightarrow> string) \<Rightarrow> string list \<Rightarrow> bool" where
  "map_phase_stored st hash pymap container m download b a blobs \<longleftrightarrow>
     mset blobs = mset (concat (map (\<lambda>k. task_names (a k) (m_nreducers m) (int k) 0 (length (fs_sets (m_shards m ! k))))
       [0..<length (m_shards m)])) \<and>
     (\<forall>k < length (m_shards m). CHR ''_'' \<notin> set (a k) \<and>
       (\<forall>j < length (fs_sets (m_shards m ! k)).
          piece_stored st hash (container @ ''int'') (a k) (m_nreducers m) (int k) (int j)
            (shard_dict download pymap m (int k) j) b))"

lemma results_stored:
  assumes hist: "map_history st hash pymap container m b0 b log" and st: "storage_works st"
    and n: "0 < m_nreducers m" "m_nreducers m < 2 ^ 31"
    and ne: "\<forall>f \<in> set (m_shards m). fs_sets f \<noteq> []"
    and ids: "map fst res = map int [0..<length (m_shards m)]"
    and logs: "\<forall>(i, r) \<in> set res. mr_shardId r = i \<and> from_log log r"
    and blobs: "mset blobs = (\<Sum>(i, r) \<leftarrow> res. mset (mr_blobList r))"
  shows "\<exists>a. map_phase_stored st hash pymap container m (st_range st container b0) b a blobs"
    "\<And>e. e \<in> set res \<Longrightarrow> mr_cname (snd e) = container @ ''int''"
proof -
  let ?N = "length (m_shards m)" and ?down = "st_range st container b0"
  from ids have len: "length res = ?N" by (metis length_map length_upt diff_zero)
  have nth: "fst (res ! k) = int k" if "k < ?N" for k
    using that len arg_cong [OF ids, of "\<lambda>xs. xs ! k"] by simp
  have logged: "from_log log (snd (res ! k)) \<and> mr_shardId (snd (res ! k)) = int k" if "k < ?N" for k
    using logs nth [OF that] that len nth_mem [of k "res"] by (auto simp: split_beta)
  have each: "\<exists>a. CHR ''_'' \<notin> set a \<and> mr_cname (snd (res ! k)) = container @ ''int'' \<and>
      mr_blobList (snd (res ! k)) = task_names a (m_nreducers m) (int k) 0 (length (fs_sets (m_shards m ! k))) \<and>
      (\<forall>j < length (fs_sets (m_shards m ! k)). piece_stored st hash (container @ ''int'') a (m_nreducers m) (int k) (int j)
         (shard_dict ?down pymap m (int k) j) b)" if k: "k < ?N" for k
  proof -
    obtain reply where r: "(int k, reply) \<in> set log" "mr_blobList (snd (res ! k)) = ir_blobs reply"
      "mr_cname (snd (res ! k)) = ir_containername reply"
      using logged [OF k] by (auto simp: from_log_def)
    obtain a where "answer_stored st hash pymap container m ?down b (int k) reply a"
      using map_history_stored [OF hist st n] r(1) by blast
    with r ne k show ?thesis by (auto simp: answer_stored_def)
  qed
  then obtain a where a: "\<And>k. k < ?N \<Longrightarrow> CHR ''_'' \<notin> set (a k) \<and>
      mr_blobList (snd (res ! k)) = task_names (a k) (m_nreducers m) (int k) 0 (length (fs_sets (m_shards m ! k))) \<and>
      (\<forall>j < length (fs_sets (m_shards m ! k)). piece_stored st hash (container @ ''int'') (a k) (m_nreducers m) (int k) (int j)
         (shard_dict ?down pymap m (int k) j) b)"
    by metis
  have "mset blobs = (\<Sum>(i, r) \<leftarrow> res. mset (mr_blobList r))" by (rule blobs)
  also have "\<dots> = (\<Sum>k \<leftarrow> [0..<?N]. mset (mr_blobList (snd (res ! k))))"
    by (subst map_nth [of "res", symmetric, unfolded len]) (simp add: comp_def split_beta)
  also have "\<dots> = (\<Sum>k \<leftarrow> [0..<?N]. mset (task_names (a k) (m_nreducers m) (int k) 0 (length (fs_sets (m_shards m ! k)))))"
    using a by (intro arg_cong [of _ _ sum_list] map_cong) auto
  finally have "mset blobs =
      mset (concat (map (\<lambda>k. task_names (a k) (m_nreducers m) (int k) 0 (length (fs_sets (m_shards m ! k)))) [0..<?N]))"
    by (simp add: mset_concat comp_def)
  with a show "\<exists>a. map_phase_stored st hash pymap container m ?down b a blobs"
    unfolding map_phase_stored_def by blast
  show "mr_cname (snd e) = container @ ''int''" if "e \<in> set res" for e
    using that each len by (auto simp: in_set_conv_nth)
qed

lemma finished_map_stored:
  assumes hist: "map_history st hash pymap container m b0 b log" and st: "storage_works st"
    and n: "0 < m_nreducers m" "m_nreducers m < 2 ^ 31"
    and idx: "indexed_shards m" "unsigned_of_int (m_nmappers m) = length (m_shards m)" "0 < length (m_shards m)"
    and ne: "\<forall>f \<in> set (m_shards m). fs_sets f \<noteq> []"
    and run: "(map_step (logged_answers log))\<^sup>*\<^sup>* (runMapper m) s" "ms_pc s = Returned"
  shows "\<exists>a. map_phase_stored st hash pymap container m (st_range st container b0) b a (m_IntblobList (ms_master s))"
    "m_intcontainer (ms_master s) = container @ ''int''"
proof -
  note res = map_phase_result [OF idx(1) logged_good idx(2) run]
  note stored = results_stored [OF hist st n ne, of "results s" "m_IntblobList (ms_master s)"]
  show "\<exists>a. map_phase_stored st hash pymap container m (st_range st container b0) b a (m_IntblobList (ms_master s))"
    using res by (intro stored(1)) blast+
  have "results s \<noteq> []" using res idx(3) by auto
  then obtain e where "e \<in> set (results s)" "m_intcontainer (ms_master s) = mr_cname (snd e)"
    using container_of_result [OF run(1)] by auto
  then show "m_intcontainer (ms_master s) = container @ ''int''" using stored(2) res by auto
qed

text \<open>The blobs of one reducer.\<close>

lemma filter_piece_names:
  assumes "0 \<le> j" "j < n" "n < 2 ^ 31"
  shows "filter (\<lambda>item. reducer_of item = j) (piece_names a sid p n) = [int_name a sid p j]"
proof -
  have "reducer_of (int_name a sid p i) = i" if "i \<in> set (reducer_indices n)" for i
    using that assms(3) int_name_reducer(1) [of i n a sid p] by (simp add: reducer_of_def)
  then have "filter (\<lambda>item. reducer_of item = j) (piece_names a sid p n) =
      map (int_name a sid p) (filter (\<lambda>i. i = j) (reducer_indices n))"
    unfolding piece_names_def filter_map comp_def by (intro arg_cong [of _ _ "map _"] filter_cong) auto
  also have "filter (\<lambda>i. i = j) (reducer_indices n) = [j]"
  proof -
    have "filter (\<lambda>i. i = j) xs = (if j \<in> set xs then [j] else [])" if "distinct xs" for xs
      using that by (induction xs) auto
    with assms show ?thesis by simp
  qed
  finally show ?thesis by simp
qed

lemma filter_task_names:
  assumes "0 \<le> j" "j < n" "n < 2 ^ 31"
  shows "filter (\<lambda>item. reducer_of item = j) (task_names a n sid p k) = map (\<lambda>i. int_name a sid (p + int i) j) [0..<k]"
  unfolding task_names_def filter_concat map_map comp_def
  by (induction k) (simp_all add: filter_piece_names [OF assms])

lemma reducer_blobs:
  assumes "map_phase_stored st hash pymap container m download b a blobs"
    and "0 \<le> j" "j < m_nreducers m" "m_nreducers m < 2 ^ 31"
  shows "mset (filter (\<lambda>item. reducer_of item = j) blobs) =
    mset (concat (map (\<lambda>k. map (\<lambda>i. int_name (a k) (int k) (int i) j) [0..<length (fs_sets (m_shards m ! k))])
      [0..<length (m_shards m)]))"
proof -
  have "mset (filter (\<lambda>item. reducer_of item = j) blobs) = mset (filter (\<lambda>item. reducer_of item = j)
      (concat (map (\<lambda>k. task_names (a k) (m_nreducers m) (int k) 0 (length (fs_sets (m_shards m ! k)))) [0..<length (m_shards m)])))"
    using assms(1) by (simp only: map_phase_stored_def mset_filter)
  also have "\<dots> = mset (concat (map (\<lambda>k. map (\<lambda>i. int_name (a k) (int k) (int i) j) [0..<length (fs_sets (m_shards m ! k))])
      [0..<length (m_shards m)]))"
    by (simp only: filter_concat map_map comp_def filter_task_names [OF assms(2-4)] add_0)
  finally show ?thesis .
qed

text \<open>The reduce tasks that ran to their end on the requests of the dispatcher, with the reducers they
  were for.\<close>

inductive reduce_history ::
    "'b Storage \<Rightarrow> (string \<Rightarrow> size_t) \<Rightarrow> (string \<Rightarrow> (string \<times> int) list option) \<Rightarrow> string \<Rightarrow> Master \<Rightarrow> 'b \<Rightarrow>
     'b \<Rightarrow> int list \<Rightarrow> bool"
  for st hash pyreduce container m b0 where
  start: "reduce_history st hash pyreduce container m b0 b0 []"
| task: "\<lbrakk>reduce_history st hash pyreduce container m b0 b log; 0 \<le> j; j < m_nreducers m;
      wk_dbConnection w = Some (new_WorkerDBConnection container);
      reduce_do_work st hash pyreduce (reduce_query m j) (w, b) = Inr (w', b', Some reply)\<rbrakk> \<Longrightarrow>
    reduce_history st hash pyreduce container m b0 b' (j # log)"

definition reduce_logged :: "int list \<Rightarrow> AsyncClientReduceCall \<Rightarrow> int \<Rightarrow> FinalResult \<Rightarrow> bool" where
  "reduce_logged log c code reply \<longleftrightarrow> (code = 0 \<longrightarrow> rc_jobid c \<in> set log)"

text \<open>The output of a reducer, for the contents of the blobs it was sent.\<close>

definition output_text :: "(string \<Rightarrow> (string \<times> int) list option) \<Rightarrow> string list \<Rightarrow> string" where
  "output_text pyreduce xs = (case pyreduce (concat xs) of None \<Rightarrow> [] | Some kvs \<Rightarrow> kv_lines kvs)"

lemma reduce_history_stored:
  assumes "reduce_history st hash pyreduce container m b0 b log" "storage_works st"
    and "m_intcontainer m = container @ ''int''"
    and read: "\<And>j. j \<in> set log \<Longrightarrow>
      list_all2 (\<lambda>nm x. st_download st (container @ ''int'') nm b0 = Inr x) (ri_blobs (reduce_query m j)) (xs j)"
  shows "(\<forall>nm. st_download st (container @ ''int'') nm b = st_download st (container @ ''int'') nm b0) \<and>
    (\<forall>j \<in> set log. st_download st (container @ ''out'') (''out_'' @ to_string j) b = Inr (output_text pyreduce (xs j)))"
  using assms(1) read
proof (induction rule: reduce_history.induct)
  case (task b log j w w' b' reply)
  have IH: "\<forall>nm. st_download st (container @ ''int'') nm b = st_download st (container @ ''int'') nm b0"
    "\<forall>j \<in> set log. st_download st (container @ ''out'') (''out_'' @ to_string j) b = Inr (output_text pyreduce (xs j))"
    using task(6,7) by auto
  have live: "\<not> wk_has_failed (worker_check_fail w)"
    using task(5) by (auto simp: reduce_do_work_def worker_check_fail_def worker_enter_fail_state_def Let_def split: if_splits)
  have q: "ri_containername (reduce_query m j) = container @ ''int''" "ri_reducer_id (reduce_query m j) = j"
    using assms(3) by (simp_all add: reduce_query_def)
  have "list_all2 (\<lambda>nm x. st_download st (ri_containername (reduce_query m j)) nm b = Inr x)
      (ri_blobs (reduce_query m j)) (xs j)"
    using task(7) [of j] IH(1) by (simp add: q(1))
  from reduce_do_work_answers [OF assms(2) task(4) live this, of hash pyreduce] task(5)
  have out: "st_download st (container @ ''out'') (''out_'' @ to_string j) b' = Inr (output_text pyreduce (xs j))"
    and frame: "\<And>c nm. (c, nm) \<noteq> (container @ ''out'', ''out_'' @ to_string j) \<Longrightarrow>
      st_download st c nm b' = st_download st c nm b"
    by (auto simp: q(2) output_text_def)
  have "st_download st (container @ ''out'') (''out_'' @ to_string i) b' = Inr (output_text pyreduce (xs i))"
    if "i \<in> set (j # log)" for i
    using that out frame [of "container @ ''out''" "''out_'' @ to_string i"] IH(2)
    by (cases "i = j") (auto simp: to_string_inj)
  moreover have "st_download st (container @ ''int'') nm b' = st_download st (container @ ''int'') nm b0" for nm
    using frame [of "container @ ''int''" nm] IH(1) by simp
  ultimately show ?case by blast
qed simp

lemma reduce_history_ids:
  "reduce_history st hash pyreduce container m b0 b log \<Longrightarrow> \<forall>j \<in> set log. 0 \<le> j \<and> j < m_nreducers m"
  by (induction rule: reduce_history.induct) simp_all

lemma reduce_all_logged:
  assumes "m_nreducers m < 2 ^ 31" "\<forall>item \<in> set (m_IntblobList m). names_reducer (m_nreducers m) item"
    and "(reduce_step (reduce_logged log))\<^sup>*\<^sup>* (runReducer m) t" "rs_pc t = RReturned"
    and "0 \<le> j" "j < m_nreducers m"
  shows "j \<in> set log"
proof -
  have "good_reduce_answers m (reduce_logged log) (\<lambda>r. rr_jobid r \<in> set log)"
    by (auto simp: good_reduce_answers_def reduce_logged_def reduce_result_def new_ReduceResult_def)
  note r = reduce_phase_result [OF assms(1,2) this assms(3,4)]
  have "j \<in> set (map int [0..<nat (m_nreducers m)])"
    using assms(5,6) by (auto simp: image_iff intro!: bexI [of _ "nat j"])
  then have "j \<in> set (map fst (m_OutputResultMap (rs_master t)))" using r by metis
  then obtain out where "(j, out) \<in> set (m_OutputResultMap (rs_master t))" by auto
  with r show ?thesis by fastforce
qed

lemma stored_names:
  assumes "map_phase_stored st hash pymap container m download b a blobs" "m_nreducers m < 2 ^ 31"
  shows "\<forall>item \<in> set blobs. names_reducer (m_nreducers m) item"
proof
  fix item assume "item \<in> set blobs"
  moreover have "set blobs = set (concat (map (\<lambda>k. task_names (a k) (m_nreducers m) (int k) 0
      (length (fs_sets (m_shards m ! k)))) [0..<length (m_shards m)]))"
    using assms(1) unfolding map_phase_stored_def by (blast dest: mset_eq_setD)
  ultimately show "names_reducer (m_nreducers m) item"
    using assms(2) by (auto simp: set_task_names int_name_reducer(2))
qed

section \<open>Histories exist\<close>

text \<open>One worker that is not set to fail is enough to map every shard and to reduce every reducer's blobs.\<close>

lemma map_history_exists:
  assumes "storage_works st" "0 < m_nreducers m" "m_nreducers m < 2 ^ 31"
    and "worker_ready (new_WorkerDBConnection container) a w" "CHR ''_'' \<notin> set a" "\<not> wk_will_fail w" "\<not> wk_has_failed w"
    and "k \<le> length (m_shards m)"
  shows "\<exists>b log. map_history st hash pymap container m b0 b log \<and> (\<forall>i < k. \<exists>reply. (int i, reply) \<in> set log)"
  using assms(8)
proof (induction k)
  case 0
  show ?case using map_history.start by fastforce
next
  case (Suc k)
  then obtain b log where h: "map_history st hash pymap container m b0 b log" "\<forall>i < k. \<exists>reply. (int i, reply) \<in> set log"
    by auto
  obtain w' b' reply where "map_do_work st hash pymap (map_query m (int k)) (w, b) = Inr (w', b', Some reply)"
    using map_do_work_answers [OF assms(1,4,6,7), of "map_query m (int k)" hash pymap b] assms(2,3)
    by (auto simp: map_query_def)
  then have "map_history st hash pymap container m b0 b' ((int k, reply) # log)"
    using map_history.task [OF h(1) _ _ assms(4,5)] Suc.prems by simp
  moreover have "\<exists>r. (int i, r) \<in> set ((int k, reply) # log)" if "i < Suc k" for i
    using that h(2) by (cases "i = k") auto
  ultimately show ?case by blast
qed

lemma reduce_history_exists:
  assumes "storage_works st" "m_intcontainer m = container @ ''int''"
    and "wk_dbConnection w = Some (new_WorkerDBConnection container)" "\<not> wk_has_failed (worker_check_fail w)"
    and reads: "\<And>j. 0 \<le> j \<Longrightarrow> j < m_nreducers m \<Longrightarrow>
      list_all2 (\<lambda>nm x. st_download st (container @ ''int'') nm b0 = Inr x) (ri_blobs (reduce_query m j)) (xs j)"
    and "int k \<le> m_nreducers m"
  shows "\<exists>b log. reduce_history st hash pyreduce container m b0 b log \<and> (\<forall>i < k. int i \<in> set log)"
  using assms(6)
proof (induction k)
  case 0
  show ?case using reduce_history.start by fastforce
next
  case (Suc k)
  then obtain b log where h: "reduce_history st hash pyreduce container m b0 b log" "\<forall>i < k. int i \<in> set log" by auto
  have "st_download st (container @ ''int'') nm b = st_download st (container @ ''int'') nm b0" for nm
    using reduce_history_stored [OF h(1) assms(1,2), of xs] reads reduce_history_ids [OF h(1)] by blast
  then have "list_all2 (\<lambda>nm x. st_download st (ri_containername (reduce_query m (int k))) nm b = Inr x)
      (ri_blobs (reduce_query m (int k))) (xs (int k))"
    using reads [of "int k"] Suc.prems assms(2) by (simp add: reduce_query_def)
  then obtain w' b' reply where "reduce_do_work st hash pyreduce (reduce_query m (int k)) (w, b) = Inr (w', b', Some reply)"
    using reduce_do_work_answers [OF assms(1,3,4)] by blast
  then have "reduce_history st hash pyreduce container m b0 b' (int k # log)"
    using reduce_history.task [OF h(1) _ _ assms(3)] Suc.prems by simp
  moreover have "int i \<in> set (int k # log)" if "i < Suc k" for i
    using that h(2) by (cases "i = k") auto
  ultimately show ?case by blast
qed

end
