(* ===== verification/WordCount.thy ===== *)
theory WordCount
  imports Worker
begin

text \<open>
  The user's functions for word count: \<^verbatim>\<open>mapfunc\<close> of \<^verbatim>\<open>w7/src/python/map.py\<close> and
  \<^verbatim>\<open>reducefunc\<close> of \<^verbatim>\<open>w7/src/python/reduce.py\<close>, with the parts of Python's strings
  they use, on ASCII text. A dictionary is an association list in insertion order. The lemmas relate
  them to the words of a text and to sums over lines, independent of order.
\<close>

section \<open>Python strings\<close>

abbreviation ordc :: "char \<Rightarrow> nat" where
  "ordc c \<equiv> of_char c"

definition py_space :: "char \<Rightarrow> bool" where
  "py_space c \<longleftrightarrow> c = CHR '' '' \<or> (9 \<le> ordc c \<and> ordc c \<le> 13) \<or> (28 \<le> ordc c \<and> ordc c \<le> 31)"

definition strip :: "string \<Rightarrow> string" where
  "strip s = rev (dropWhile py_space (rev (dropWhile py_space s)))"

definition lower :: "char \<Rightarrow> char" where
  "lower c = (if 65 \<le> ordc c \<and> ordc c \<le> 90 then char_of (ordc c + 32) else c)"

text \<open>\<^verbatim>\<open>string.punctuation\<close>: the printable ASCII characters that are neither letters nor
  digits nor the space.\<close>

definition punct :: "char \<Rightarrow> bool" where
  "punct c \<longleftrightarrow> (33 \<le> ordc c \<and> ordc c \<le> 47) \<or> (58 \<le> ordc c \<and> ordc c \<le> 64) \<or>
     (91 \<le> ordc c \<and> ordc c \<le> 96) \<or> (123 \<le> ordc c \<and> ordc c \<le> 126)"

text \<open>\<^verbatim>\<open>split\<close> at every separator; there is always one part more than separators.\<close>

fun split_at :: "(char \<Rightarrow> bool) \<Rightarrow> string \<Rightarrow> string list" where
  "split_at P [] = [[]]"
| "split_at P (c # cs) =
     (if P c then [] # split_at P cs
      else (case split_at P cs of [] \<Rightarrow> [[c]] | w # ws \<Rightarrow> (c # w) # ws))"

text \<open>Reading in text mode: a carriage return, alone or before a line feed, is read as a line
  feed; a line keeps its end.\<close>

fun universal :: "string \<Rightarrow> string" where
  "universal [] = []"
| "universal [c] = (if c = CHR 0x0D then [CHR 0x0A] else [c])"
| "universal (c # d # cs) =
     (if c = CHR 0x0D \<and> d = CHR 0x0A then CHR 0x0A # universal cs
      else (if c = CHR 0x0D then CHR 0x0A else c) # universal (d # cs))"

fun readlines :: "string \<Rightarrow> string list" where
  "readlines [] = []"
| "readlines (c # cs) =
     (if c = CHR 0x0A then [c] # readlines cs
      else (case readlines cs of [] \<Rightarrow> [[c]] | l # ls \<Rightarrow> (c # l) # ls))"

definition file_lines :: "string \<Rightarrow> string list" where
  "file_lines content = readlines (universal content)"

text \<open>\<^verbatim>\<open>repr\<close> of a string.\<close>

definition hex_digit :: "nat \<Rightarrow> char" where
  "hex_digit d = (if d < 10 then char_of (48 + d) else char_of (87 + d))"

definition repr_char :: "char \<Rightarrow> char \<Rightarrow> string" where
  "repr_char q c =
     (if c = q \<or> c = CHR 0x5C then [CHR 0x5C, c]
      else if c = CHR 0x09 then [CHR 0x5C, CHR ''t'']
      else if c = CHR 0x0A then [CHR 0x5C, CHR ''n'']
      else if c = CHR 0x0D then [CHR 0x5C, CHR ''r'']
      else if ordc c < 32 \<or> ordc c = 127
      then [CHR 0x5C, CHR ''x'', hex_digit (ordc c div 16), hex_digit (ordc c mod 16)]
      else [c])"

definition py_repr :: "string \<Rightarrow> string" where
  "py_repr s =
     (let q = (if CHR 0x27 \<in> set s \<and> CHR 0x22 \<notin> set s then CHR 0x22 else CHR 0x27)
      in q # concat (map (repr_char q) s) @ [q])"

text \<open>\<^verbatim>\<open>int\<close> of a string: surrounding white space, a sign, digits with single underscores
  between them. \<open>None\<close>: \<^verbatim>\<open>ValueError\<close>.\<close>

fun digit_groups :: "string \<Rightarrow> bool" where
  "digit_groups [] = False"
| "digit_groups [c] = is_digit c"
| "digit_groups (c # d # cs) =
     (is_digit c \<and> (if d = CHR ''_'' then digit_groups cs else digit_groups (d # cs)))"

definition py_int :: "string \<Rightarrow> int option" where
  "py_int s =
     (let t = strip s;
          u = (case t of [] \<Rightarrow> [] | c # cs \<Rightarrow> if c = CHR ''-'' \<or> c = CHR ''+'' then cs else t);
          v = int (digits_val (filter is_digit u))
      in if digit_groups u then Some (if take 1 t = ''-'' then - v else v) else None)"

section \<open>Dictionaries\<close>

fun dict_add :: "string \<Rightarrow> int \<Rightarrow> (string \<times> int) list \<Rightarrow> (string \<times> int) list" where
  "dict_add k n [] = [(k, n)]"
| "dict_add k n ((k', n') # d) = (if k' = k then (k', n' + n) # d else (k', n') # dict_add k n d)"

section \<open>The scripts\<close>

definition line_words :: "string \<Rightarrow> string list" where
  "line_words line =
     filter (\<lambda>word. word \<noteq> [])
       (split_at (\<lambda>c. c = CHR '' '') (map (\<lambda>c. if punct c then CHR '' '' else c) (map lower (strip line))))"

definition map_words :: "string \<Rightarrow> string list" where
  "map_words content = concat (map line_words (file_lines content))"

definition mapfunc :: "string \<Rightarrow> (string \<times> int) list" where
  "mapfunc content = fold (\<lambda>word. dict_add word 1) (map_words content) []"

text \<open>A line without exactly one colon or without a number raises an exception.\<close>

definition parse_line :: "string \<Rightarrow> (string \<times> int) option" where
  "parse_line line =
     (case split_at (\<lambda>c. c = CHR '':'') line of
        [key, value] \<Rightarrow>
          (case py_int value of
             None \<Rightarrow> None
           | Some n \<Rightarrow> Some (filter (\<lambda>c. \<not> punct c) key, n))
      | _ \<Rightarrow> None)"

fun reduce_lines :: "string list \<Rightarrow> (string \<times> int) list \<Rightarrow> (string \<times> int) list option" where
  "reduce_lines [] d = Some d"
| "reduce_lines (line # lines) d =
     (case parse_line line of None \<Rightarrow> None | Some (k, n) \<Rightarrow> reduce_lines lines (dict_add k n d))"

definition reducefunc :: "string \<Rightarrow> (string \<times> int) list option" where
  "reducefunc content = reduce_lines (sort (file_lines content)) []"

text \<open>What the worker sees: the keys of a dictionary are passed on as their \<^verbatim>\<open>repr\<close>.\<close>

definition with_repr :: "(string \<times> int) list \<Rightarrow> (string \<times> int) list" where
  "with_repr d = map (\<lambda>(k, n). (py_repr k, n)) d"

definition py_mapfunc :: "string \<Rightarrow> (string \<times> int) list option" where
  "py_mapfunc content = Some (with_repr (mapfunc content))"

definition py_reducefunc :: "string \<Rightarrow> (string \<times> int) list option" where
  "py_reducefunc content = map_option with_repr (reducefunc content)"

section \<open>Words\<close>

definition words :: "(char \<Rightarrow> bool) \<Rightarrow> string \<Rightarrow> string list" where
  "words P s = filter (\<lambda>w. w \<noteq> []) (split_at P s)"

lemma split_at_ne [simp]: "split_at P s \<noteq> []"
  by (induction s) (auto split: list.splits)

lemma split_at_append:
  assumes "P c"
  shows "split_at P (xs @ c # ys) = split_at P xs @ split_at P ys"
proof (induction xs)
  case Nil
  with assms show ?case by simp
next
  case (Cons x xs)
  then show ?case by (cases "split_at P xs") auto
qed

lemma split_at_none: "\<forall>c \<in> set s. \<not> P c \<Longrightarrow> split_at P s = [s]"
  by (induction s) auto

lemma split_at_cong: "\<forall>c \<in> set s. P c \<longleftrightarrow> Q c \<Longrightarrow> split_at P s = split_at Q s"
  by (induction s) (auto split: list.splits)

lemma split_at_map: "split_at P (map f s) = map (map f) (split_at (\<lambda>c. P (f c)) s)"
  by (induction s) (auto split: list.splits)

lemma split_at_parts: "w \<in> set (split_at P s) \<Longrightarrow> set w \<subseteq> set s \<and> (\<forall>c \<in> set w. \<not> P c)"
proof (induction s arbitrary: w)
  case (Cons c s)
  obtain v vs where v: "split_at P s = v # vs" by (cases "split_at P s") auto
  then show ?case using Cons.IH [of v] Cons.IH [of w] Cons.prems by (fastforce split: if_splits)
qed simp

lemma words_Nil [simp]: "words P [] = []"
  by (simp add: words_def)

lemma words_append: "P c \<Longrightarrow> words P (xs @ c # ys) = words P xs @ words P ys"
  by (simp add: words_def split_at_append)

lemma words_Cons_sep: "P c \<Longrightarrow> words P (c # s) = words P s"
  using words_append [of P c "[]"] by simp

lemma words_seps_left: "\<forall>c \<in> set xs. P c \<Longrightarrow> words P (xs @ s) = words P s"
  by (induction xs) (auto simp: words_Cons_sep)

lemma words_seps_right: "\<forall>c \<in> set ys. P c \<Longrightarrow> words P (s @ ys) = words P s"
proof (cases ys)
  case (Cons c cs)
  moreover assume "\<forall>c \<in> set ys. P c"
  ultimately show ?thesis using words_append [of P c s cs] words_seps_left [of cs P "[]"] by simp
qed simp

lemma words_cong: "\<forall>c \<in> set s. P c \<longleftrightarrow> Q c \<Longrightarrow> words P s = words Q s"
  unfolding words_def by (subst split_at_cong [of s P Q]) simp_all

lemma words_map: "words P (map f s) = map (map f) (words (\<lambda>c. P (f c)) s)"
  by (simp add: words_def split_at_map filter_map comp_def)

lemma words_parts: "w \<in> set (words P s) \<Longrightarrow> w \<noteq> [] \<and> set w \<subseteq> set s \<and> (\<forall>c \<in> set w. \<not> P c)"
  using split_at_parts [of w P s] by (auto simp: words_def)

text \<open>A text is its first word, a separator, and the rest.\<close>

lemma split_first:
  obtains "\<forall>c \<in> set s. \<not> P c"
  | w c t where "s = w @ c # t" "P c" "\<forall>c \<in> set w. \<not> P c"
  by (metis split_list_first_prop_iff)

lemma words_refine:
  assumes "\<And>c. P c \<Longrightarrow> Q c"
  shows "words Q s = concat (map (words Q) (split_at P s))"
proof (induction s rule: measure_induct_rule [of length])
  case (less s)
  show ?case
  proof (cases rule: split_first [of s P])
    case 1
    then show ?thesis by (simp add: split_at_none)
  next
    case (2 w c t)
    then show ?thesis
      using less [of t] assms by (simp add: split_at_append split_at_none words_append)
  qed
qed

lemma concat_map_filter_ne: "f [] = [] \<Longrightarrow> concat (map f (filter (\<lambda>w. w \<noteq> []) xs)) = concat (map f xs)"
  by (induction xs) auto

lemma words_words: "(\<And>c. P c \<Longrightarrow> Q c) \<Longrightarrow> words Q s = concat (map (words Q) (words P s))"
  using words_refine [of P Q s] by (simp add: words_def [of P] concat_map_filter_ne)

lemma toks_words: "toks s = words is_sep s"
proof (induction s rule: measure_induct_rule [of length])
  case (less s)
  show ?case
  proof (cases rule: split_first [of s is_sep])
    case 1
    show ?thesis
    proof (cases s)
      case (Cons c cs)
      with 1 have "dropWhile (\<lambda>x. \<not> is_sep x) cs = []" "takeWhile (\<lambda>x. \<not> is_sep x) cs = cs" by auto
      with 1 Cons show ?thesis by (simp add: words_def split_at_none del: dropWhile_eq_Nil_conv)
    qed simp
  next
    case (2 w c t)
    then have "toks s = toks w @ toks t" by (simp add: toks_sep)
    moreover have "toks w = words is_sep w" "toks t = words is_sep t"
      using less [of w] less [of t] 2 by simp_all
    ultimately show ?thesis using 2 by (simp add: words_append)
  qed
qed

section \<open>What the map function counts\<close>

definition alnum :: "char \<Rightarrow> bool" where
  "alnum c \<longleftrightarrow> (48 \<le> ordc c \<and> ordc c \<le> 57) \<or> (65 \<le> ordc c \<and> ordc c \<le> 90) \<or> (97 \<le> ordc c \<and> ordc c \<le> 122)"

definition tokens :: "string \<Rightarrow> string list" where
  "tokens s = map (map lower) (words (\<lambda>c. \<not> alnum c) s)"

text \<open>Printable ASCII and line feeds.\<close>

definition clean :: "string \<Rightarrow> bool" where
  "clean s \<longleftrightarrow> (\<forall>c \<in> set s. c = CHR 0x0A \<or> (32 \<le> ordc c \<and> ordc c \<le> 126))"

lemma char_code: "c = d \<longleftrightarrow> ordc c = ordc d"
  by simp

lemma lower_code: "ordc (lower c) = (if 65 \<le> ordc c \<and> ordc c \<le> 90 then ordc c + 32 else ordc c)"
  by (simp add: lower_def)

lemma translate_sep:
  assumes "32 \<le> ordc c" "ordc c \<le> 126"
  shows "(if punct (lower c) then CHR '' '' else lower c) = CHR '' '' \<longleftrightarrow> \<not> alnum c"
  using assms unfolding char_code [of "lower c"] punct_def lower_code alnum_def
  by (auto simp: char_code [of "lower c"] lower_code)

lemma translate_alnum: "alnum c \<Longrightarrow> (if punct (lower c) then CHR '' '' else lower c) = lower c"
  by (auto simp: punct_def alnum_def lower_code)

lemma py_space_not_alnum: "py_space c \<Longrightarrow> \<not> alnum c"
  by (auto simp: py_space_def alnum_def)

lemma strip_snoc: "py_space c \<Longrightarrow> strip (s @ [c]) = strip s"
proof (cases "\<forall>x \<in> set s. py_space x")
  case True
  moreover assume "py_space c"
  ultimately have "dropWhile py_space s = []" "dropWhile py_space (s @ [c]) = []" by auto
  then show ?thesis by (simp add: strip_def del: dropWhile_eq_Nil_conv dropWhile_append)
next
  case False
  moreover assume "py_space c"
  ultimately show ?thesis by (auto simp: strip_def dropWhile_append)
qed

lemma strip_parts: "\<exists>pre post. s = pre @ strip s @ post \<and> (\<forall>c \<in> set pre \<union> set post. py_space c)"
proof (intro exI conjI)
  let ?t = "dropWhile py_space s"
  have "?t = strip s @ rev (takeWhile py_space (rev ?t))"
    unfolding strip_def by (metis rev_append rev_rev_ident takeWhile_dropWhile_id)
  then show "s = takeWhile py_space s @ strip s @ rev (takeWhile py_space (rev ?t))"
    using takeWhile_dropWhile_id [of py_space s] by simp
qed (auto dest: set_takeWhileD)

lemma words_strip: "words (\<lambda>c. \<not> alnum c) (strip s) = words (\<lambda>c. \<not> alnum c) s"
proof -
  obtain pre post where s: "s = pre @ strip s @ post" "\<forall>c \<in> set pre \<union> set post. py_space c"
    using strip_parts by blast
  then have "words (\<lambda>c. \<not> alnum c) (pre @ strip s @ post) = words (\<lambda>c. \<not> alnum c) (strip s)"
    using py_space_not_alnum by (subst words_seps_left) (auto intro!: words_seps_right)
  then show ?thesis unfolding s(1) [symmetric] by simp
qed

lemma set_strip: "set (strip s) \<subseteq> set s"
  by (auto simp: strip_def dest!: set_dropWhileD)

lemma line_words_tokens:
  assumes "clean l" "CHR 0x0A \<notin> set l"
  shows "line_words l = tokens l"
proof -
  let ?f = "\<lambda>c. if punct (lower c) then CHR '' '' else lower c"
  have "line_words l = words (\<lambda>c. c = CHR '' '') (map ?f (strip l))"
    by (simp add: line_words_def words_def comp_def)
  also have "\<dots> = map (map ?f) (words (\<lambda>c. ?f c = CHR '' '') (strip l))"
    by (rule words_map)
  also have "words (\<lambda>c. ?f c = CHR '' '') (strip l) = words (\<lambda>c. \<not> alnum c) (strip l)"
  proof (intro words_cong ballI)
    fix c assume "c \<in> set (strip l)"
    then have "c \<in> set l" using set_strip by blast
    with assms have "32 \<le> ordc c" "ordc c \<le> 126" by (metis clean_def)+
    then show "?f c = CHR '' '' \<longleftrightarrow> \<not> alnum c" by (rule translate_sep)
  qed
  also have "\<dots> = words (\<lambda>c. \<not> alnum c) l" by (rule words_strip)
  also have "map (map ?f) \<dots> = tokens l"
    unfolding tokens_def
  proof (intro map_cong refl)
    fix w c assume "w \<in> set (words (\<lambda>c. \<not> alnum c) l)" "c \<in> set w"
    then show "?f c = lower c" using words_parts [of w] by (intro translate_alnum) blast
  qed
  finally show ?thesis .
qed

definition chomp :: "string \<Rightarrow> string" where
  "chomp l = (if l \<noteq> [] \<and> last l = CHR 0x0A then butlast l else l)"

lemma readlines_ne: "l \<in> set (readlines s) \<Longrightarrow> l \<noteq> []"
  by (induction s arbitrary: l) (auto split: if_splits list.splits)

lemma readlines_Nil [simp]: "readlines s = [] \<longleftrightarrow> s = []"
  by (cases s) (auto split: list.splits)

lemma split_readlines:
  "split_at (\<lambda>c. c = CHR 0x0A) s =
     map chomp (readlines s) @ (if s = [] \<or> last s = CHR 0x0A then [[]] else [])"
proof (induction s)
  case (Cons c cs)
  show ?case
  proof (cases "c = CHR 0x0A \<or> cs = []")
    case True
    with Cons show ?thesis by (auto simp: chomp_def)
  next
    case False
    then obtain l ls where l: "readlines cs = l # ls" by (cases "readlines cs") auto
    then have "l \<noteq> []" using readlines_ne [of l cs] by simp
    with False have "chomp (c # l) = c # chomp l" by (auto simp: chomp_def)
    with False Cons l show ?thesis by simp
  qed
qed simp

lemma universal_id: "CHR 0x0D \<notin> set s \<Longrightarrow> universal s = s"
  by (induction s rule: universal.induct) auto

lemma clean_universal: "clean s \<Longrightarrow> universal s = s"
proof (rule universal_id, rule notI)
  assume s: "clean s" "CHR 0x0D \<in> set s"
  from bspec [OF s(1) [unfolded clean_def] s(2)] show False by simp
qed

lemma strip_chomp: "strip (chomp l) = strip l"
proof (cases "l \<noteq> [] \<and> last l = CHR 0x0A")
  case True
  then have "l = butlast l @ [CHR 0x0A]" by (metis append_butlast_last_id)
  moreover have "py_space (CHR 0x0A)" by (simp add: py_space_def)
  ultimately show ?thesis using True strip_snoc [of "CHR 0x0A" "butlast l"] by (simp add: chomp_def)
qed (auto simp: chomp_def)

lemma line_words_chomp: "line_words (chomp l) = line_words l"
  by (simp add: line_words_def strip_chomp)

lemma map_words_tokens:
  assumes "clean s"
  shows "map_words s = tokens s"
proof -
  let ?parts = "split_at (\<lambda>c. c = CHR 0x0A) s"
  have nil: "line_words [] = []" by (simp add: line_words_def strip_def)
  have "map_words s = concat (map line_words (map chomp (readlines s)))"
    using assms by (simp add: map_words_def file_lines_def clean_universal line_words_chomp comp_def)
  also have "\<dots> = concat (map line_words ?parts)"
    by (simp add: split_readlines nil)
  also have "map line_words ?parts = map tokens ?parts"
  proof (intro map_cong refl)
    fix l assume "l \<in> set ?parts"
    from split_at_parts [OF this] assms show "line_words l = tokens l"
      by (intro line_words_tokens) (auto simp: clean_def)
  qed
  also have "concat (map tokens ?parts) = map (map lower) (concat (map (words (\<lambda>c. \<not> alnum c)) ?parts))"
    by (simp add: tokens_def [abs_def] map_concat comp_def)
  also have "\<dots> = tokens s"
    unfolding tokens_def by (subst words_refine [of "\<lambda>c. c = CHR 0x0A" _ s]) (simp_all add: alnum_def)
  finally show ?thesis .
qed

text \<open>The tokens of a text are the tokens of its runs between the separators of the worker.\<close>

lemma tokens_toks: "tokens s = concat (map tokens (toks s))"
proof -
  have "words (\<lambda>c. \<not> alnum c) s = concat (map (words (\<lambda>c. \<not> alnum c)) (words is_sep s))"
    by (rule words_words) (auto simp: is_sep_def alnum_def)
  then show ?thesis by (simp add: tokens_def [abs_def] toks_words map_concat comp_def)
qed

text \<open>A token: lower-case letters and digits.\<close>

definition plain_word :: "string \<Rightarrow> bool" where
  "plain_word w \<longleftrightarrow> (\<forall>c \<in> set w. (48 \<le> ordc c \<and> ordc c \<le> 57) \<or> (97 \<le> ordc c \<and> ordc c \<le> 122))"

lemma tokens_plain: "w \<in> set (tokens s) \<Longrightarrow> plain_word w"
proof -
  have low: "(48 \<le> ordc (lower c) \<and> ordc (lower c) \<le> 57) \<or> (97 \<le> ordc (lower c) \<and> ordc (lower c) \<le> 122)"
    if "alnum c" for c
    using that by (auto simp: lower_code alnum_def)
  assume "w \<in> set (tokens s)"
  then obtain v where "w = map lower v" "\<forall>c \<in> set v. alnum c"
    by (auto simp: tokens_def dest!: words_parts)
  then show ?thesis using low by (simp add: plain_word_def)
qed

section \<open>Dictionaries count\<close>

definition total :: "(string \<times> int) list \<Rightarrow> string \<Rightarrow> int" where
  "total kvs w = (\<Sum>(k, n) \<leftarrow> kvs. if k = w then n else 0)"

definition dict_get :: "(string \<times> int) list \<Rightarrow> string \<Rightarrow> int" where
  "dict_get d w = (case map_of d w of None \<Rightarrow> 0 | Some n \<Rightarrow> n)"

definition add_all :: "(string \<times> int) list \<Rightarrow> (string \<times> int) list \<Rightarrow> (string \<times> int) list" where
  "add_all kvs d = fold (\<lambda>(k, n). dict_add k n) kvs d"

lemma dict_add_lookup:
  "map_of (dict_add k n d) w = (if w = k then Some (dict_get d k + n) else map_of d w)"
  by (induction k n d rule: dict_add.induct) (auto simp: dict_get_def)

lemma dict_add_keys: "map fst (dict_add k n d) = (if k \<in> fst ` set d then map fst d else map fst d @ [k])"
  by (induction k n d rule: dict_add.induct) auto

lemma add_all_distinct: "distinct (map fst d) \<Longrightarrow> distinct (map fst (add_all kvs d))"
  by (induction kvs arbitrary: d) (auto simp: add_all_def dict_add_keys)

lemma total_absent: "w \<notin> fst ` set kvs \<Longrightarrow> total kvs w = 0"
  by (induction kvs) (auto simp: total_def)

lemma add_all_lookup:
  "map_of (add_all kvs d) w =
     (if w \<in> fst ` set kvs then Some (dict_get d w + total kvs w) else map_of d w)"
proof (induction kvs arbitrary: d)
  case (Cons kv kvs)
  obtain k n where kv: "kv = (k, n)" by (cases kv)
  show ?case
    using Cons [of "dict_add k n d"] total_absent [of w kvs]
    by (auto simp: add_all_def kv total_def dict_add_lookup dict_get_def)
qed (simp add: add_all_def)

lemma total_append: "total (xs @ ys) w = total xs w + total ys w"
  by (simp add: total_def)

lemma total_concat: "total (concat xss) w = (\<Sum>xs \<leftarrow> xss. total xs w)"
  by (induction xss) (simp_all add: total_append, simp add: total_def)

lemma total_mset: "mset xs = mset ys \<Longrightarrow> total xs w = total ys w"
  unfolding total_def by (simp only: sum_mset_sum_list [symmetric] mset_map)

lemma total_dict: "distinct (map fst d) \<Longrightarrow> total d w = dict_get d w"
proof (induction d)
  case (Cons kv d)
  obtain k n where kv: "kv = (k, n)" by (cases kv)
  have "total (kv # d) w = (if k = w then n else 0) + total d w" by (simp add: total_def kv)
  moreover have "total d k = 0" using Cons.prems kv by (simp add: total_absent)
  ultimately show ?case using Cons kv by (auto simp: dict_get_def)
qed (simp add: total_def dict_get_def)

lemma mapfunc_add_all: "mapfunc s = add_all (map (\<lambda>w. (w, 1)) (map_words s)) []"
  by (simp add: mapfunc_def add_all_def fold_map comp_def)

lemma mapfunc_lookup:
  "map_of (mapfunc s) w = (if w \<in> set (map_words s) then Some (int (count (mset (map_words s)) w)) else None)"
proof -
  have "total (map (\<lambda>w. (w, 1)) ws) w = int (count (mset ws) w)" for ws
    by (induction ws) (auto simp: total_def)
  then show ?thesis by (auto simp: mapfunc_add_all add_all_lookup dict_get_def image_iff)
qed

lemma mapfunc_distinct: "distinct (map fst (mapfunc s))"
  unfolding mapfunc_add_all by (rule add_all_distinct) simp

section \<open>What the reduce function reads\<close>

lemma plain_word_chars:
  assumes "plain_word w" "c \<in> set w"
  shows "\<not> punct c" "c \<noteq> CHR '':''" "c \<noteq> CHR 0x0A" "c \<noteq> CHR 0x0D" "c \<noteq> CHR 0x27" "repr_char (CHR 0x27) c = [c]"
proof -
  have r: "(48 \<le> ordc c \<and> ordc c \<le> 57) \<or> (97 \<le> ordc c \<and> ordc c \<le> 122)"
    using assms unfolding plain_word_def by blast
  have ne: "c \<noteq> d" if "ordc d < 48 \<or> (57 < ordc d \<and> ordc d < 97)" for d
    using r that by auto
  show "\<not> punct c" using r by (auto simp: punct_def)
  show "c \<noteq> CHR '':''" "c \<noteq> CHR 0x0A" "c \<noteq> CHR 0x0D" "c \<noteq> CHR 0x27" by (rule ne; simp)+
  moreover have "c \<noteq> CHR 0x5C" "c \<noteq> CHR 0x09" by (rule ne; simp)+
  moreover have "\<not> ordc c < 32" "ordc c \<noteq> 127" using r by auto
  ultimately show "repr_char (CHR 0x27) c = [c]" unfolding repr_char_def by (simp only: if_False simp_thms)
qed

lemma repr_plain:
  assumes "plain_word w"
  shows "py_repr w = CHR 0x27 # w @ [CHR 0x27]"
proof -
  have "concat (map (repr_char (CHR 0x27)) w) = concat (map (\<lambda>c. [c]) w)"
    using plain_word_chars(6) [OF assms] by (intro arg_cong [of _ _ concat] map_cong refl) blast
  moreover have "CHR 0x27 \<notin> set w" using plain_word_chars(5) [OF assms] by blast
  ultimately show ?thesis by (simp add: py_repr_def Let_def)
qed

lemma repr_inj: "plain_word v \<Longrightarrow> plain_word w \<Longrightarrow> py_repr v = py_repr w \<longleftrightarrow> v = w"
  by (simp add: repr_plain)

lemma digits_groups: "\<forall>c \<in> set s. is_digit c \<Longrightarrow> s \<noteq> [] \<Longrightarrow> digit_groups s"
  by (induction s rule: digit_groups.induct) (auto dest: digit_not_special)

lemma digit_not_space: "is_digit c \<Longrightarrow> \<not> py_space c"
  by (auto simp: is_digit_def py_space_def)

lemma strip_id: "s \<noteq> [] \<Longrightarrow> \<not> py_space (hd s) \<Longrightarrow> \<not> py_space (last s) \<Longrightarrow> strip s = s"
proof -
  assume s: "s \<noteq> []" "\<not> py_space (hd s)" "\<not> py_space (last s)"
  then have "dropWhile py_space s = s" by (cases s) auto
  moreover have "dropWhile py_space (rev s) = rev s" using s by (cases "rev s") (auto simp: hd_rev [symmetric])
  ultimately show ?thesis by (simp add: strip_def)
qed

lemma py_int_line:
  assumes "0 \<le> n"
  shows "py_int (to_string n @ [CHR 0x0A]) = Some n"
proof -
  let ?s = "nat_to_string (nat n)"
  have s: "to_string n = ?s" using assms by (simp add: to_string_def)
  have d: "\<forall>c \<in> set ?s. is_digit c" "?s \<noteq> []" by (rule nat_to_string_digits nat_to_string_nonempty)+
  then obtain c cs where c: "?s = c # cs" "is_digit c" by (cases ?s) auto
  have "\<not> py_space (hd ?s)" "\<not> py_space (last ?s)" using d digit_not_space by auto
  then have "strip (to_string n @ [CHR 0x0A]) = ?s"
    using strip_snoc [of "CHR 0x0A" ?s] strip_id [OF d(2)] by (simp add: s py_space_def)
  moreover have "filter is_digit ?s = ?s" using d(1) by simp
  moreover have "digit_groups ?s" using d by (rule digits_groups)
  moreover have "c \<noteq> CHR ''-''" "c \<noteq> CHR ''+''" using digit_not_special [OF c(2)] by auto
  ultimately show ?thesis
    using assms digits_val_nat_to_string [of "nat n"] by (simp add: py_int_def Let_def c(1))
qed

lemma parse_kv_line:
  assumes "plain_word w" "0 \<le> n"
  shows "parse_line (kv_line (py_repr w) n) = Some (w, n)"
proof -
  let ?P = "\<lambda>c. c = CHR '':''"
  have key: "\<forall>c \<in> set (py_repr w). \<not> ?P c"
    using plain_word_chars(2) [OF assms(1)] by (auto simp: repr_plain [OF assms(1)])
  have val: "\<forall>c \<in> set (to_string n @ [CHR 0x0A]). \<not> ?P c" using to_string_no_special(2) [of n] by auto
  have "kv_line (py_repr w) n = py_repr w @ CHR '':'' # to_string n @ [CHR 0x0A]" by (simp add: kv_line_def)
  then have "split_at ?P (kv_line (py_repr w) n) = [py_repr w, to_string n @ [CHR 0x0A]]"
    using split_at_append [of ?P "CHR '':''"] split_at_none [OF key] split_at_none [OF val] by simp
  moreover have "filter (\<lambda>c. \<not> punct c) (py_repr w) = w"
    using plain_word_chars(1) [OF assms(1)] by (simp add: repr_plain [OF assms(1)] punct_def filter_id_conv)
  ultimately show ?thesis using py_int_line [OF assms(2)] by (simp add: parse_line_def)
qed

lemma readlines_append:
  "CHR 0x0A \<notin> set l \<Longrightarrow> readlines (l @ CHR 0x0A # s) = (l @ [CHR 0x0A]) # readlines s"
  by (induction l) auto

text \<open>A list of words with counts, as the map tasks write it.\<close>

definition plain_kvs :: "(string \<times> int) list \<Rightarrow> bool" where
  "plain_kvs kvs \<longleftrightarrow> (\<forall>(w, n) \<in> set kvs. plain_word w \<and> 0 \<le> n)"

lemma kv_line_body:
  assumes "plain_word w"
  shows "\<exists>l. kv_line (py_repr w) n = l @ [CHR 0x0A] \<and> CHR 0x0A \<notin> set l \<and> CHR 0x0D \<notin> set l"
proof (intro exI conjI)
  let ?l = "py_repr w @ '':'' @ to_string n"
  show "kv_line (py_repr w) n = ?l @ [CHR 0x0A]" by (simp add: kv_line_def)
  have "is_digit c \<or> c = CHR ''-''" if "c \<in> set (to_string n)" for c
    using that nat_to_string_digits by (auto simp: to_string_def split: if_splits)
  then have "CHR 0x0A \<notin> set (to_string n)" "CHR 0x0D \<notin> set (to_string n)" by (force simp: is_digit_def)+
  then show "CHR 0x0A \<notin> set ?l" "CHR 0x0D \<notin> set ?l"
    using plain_word_chars(3,4) [OF assms] by (auto simp: repr_plain [OF assms])
qed

lemma kv_lines_read:
  assumes "plain_kvs kvs"
  shows "file_lines (kv_lines (with_repr kvs)) = map (\<lambda>(w, n). kv_line (py_repr w) n) kvs"
proof -
  have "CHR 0x0D \<notin> set (kv_lines (with_repr kvs)) \<and>
      readlines (kv_lines (with_repr kvs)) = map (\<lambda>(w, n). kv_line (py_repr w) n) kvs"
    using assms
  proof (induction kvs)
    case (Cons kv kvs)
    obtain w n where kv: "kv = (w, n)" by (cases kv)
    then obtain l where l: "kv_line (py_repr w) n = l @ [CHR 0x0A]" "CHR 0x0A \<notin> set l" "CHR 0x0D \<notin> set l"
      using kv_line_body [of w n] Cons.prems by (auto simp: plain_kvs_def)
    have "kv_lines (with_repr (kv # kvs)) = l @ CHR 0x0A # kv_lines (with_repr kvs)"
      by (simp add: kv_lines_def with_repr_def kv l(1))
    then show ?case using Cons l by (auto simp: readlines_append kv plain_kvs_def)
  qed (simp add: kv_lines_def with_repr_def)
  then show ?thesis by (simp add: file_lines_def universal_id)
qed

lemma reduce_lines_plain:
  "plain_kvs kvs \<Longrightarrow> reduce_lines (map (\<lambda>(w, n). kv_line (py_repr w) n) kvs) d = Some (add_all kvs d)"
  by (induction kvs arbitrary: d) (auto simp: plain_kvs_def parse_kv_line add_all_def)

text \<open>Sorting the lines permutes the entries.\<close>

lemma sort_lines:
  obtains kvs' where "mset kvs' = mset kvs"
    "sort (map (\<lambda>(w, n). kv_line (py_repr w) n) kvs) = map (\<lambda>(w, n). kv_line (py_repr w) n) kvs'"
proof -
  let ?f = "\<lambda>(w, n). kv_line (py_repr w) n"
  have "sort (map ?f kvs) = map ?f (sort_key ?f kvs)"
    by (rule properties_for_sort) (simp_all only: mset_map mset_sort sorted_sort_key)
  with that [of "sort_key ?f kvs"] show ?thesis by simp
qed

text \<open>The reduce function on the lines of a list of counts: the sums, whatever the order.\<close>

lemma reducefunc_sums:
  assumes "plain_kvs kvs"
  obtains d where "reducefunc (kv_lines (with_repr kvs)) = Some d" "distinct (map fst d)"
    "\<And>w. map_of d w = (if w \<in> fst ` set kvs then Some (total kvs w) else None)"
proof -
  obtain kvs' where k: "mset kvs' = mset kvs"
    "sort (map (\<lambda>(w, n). kv_line (py_repr w) n) kvs) = map (\<lambda>(w, n). kv_line (py_repr w) n) kvs'"
    by (rule sort_lines)
  have set: "set kvs' = set kvs" using k(1) by (rule mset_eq_setD)
  then have "plain_kvs kvs'" using assms by (simp add: plain_kvs_def)
  then have "reducefunc (kv_lines (with_repr kvs)) = Some (add_all kvs' [])"
    unfolding reducefunc_def kv_lines_read [OF assms] k(2) by (rule reduce_lines_plain)
  moreover have "distinct (map fst (add_all kvs' []))" by (rule add_all_distinct) simp
  moreover have "map_of (add_all kvs' []) w = (if w \<in> fst ` set kvs then Some (total kvs w) else None)" for w
    by (simp add: add_all_lookup set total_mset [OF k(1)] dict_get_def)
  ultimately show ?thesis by (rule that)
qed

text \<open>
  A tabulator in the text is not a separator for the map function, but \<^verbatim>\<open>repr\<close> writes it as two
  characters and the reduce function removes the backslash with the other punctuation: two words
  that a tabulator separates are counted as one word that does not occur in the text.
\<close>

lemma tab_joined:
  "map_option (map fst) (reducefunc (kv_lines (with_repr (mapfunc (''a'' @ [CHR 0x09] @ ''b c''))))) =
   Some [''atb'', ''c'']"
  by code_simp

end
