(* ===== verification/WordCountJob.thy ===== *)
theory WordCountJob
  imports Job WordCount
begin

text \<open>
  Word count as a whole: the scripts run by the workers on the shards the master cut. The lemmas count a
  word in a piece, over all pieces, and in the lines a reducer is sent.
\<close>

section \<open>The words of a piece\<close>

text \<open>The text of a piece, as the worker leaves it in the local file.\<close>

definition piece_text :: "downloader \<Rightarrow> ShardData \<Rightarrow> string result" where
  "piece_text download d =
     rbind (download (sd_blobName d) (sd_begin d) (sd_end d - sd_begin d + of_nat EXTRA_LEN))
       (fix_word_boundary (sd_begin d) (sd_end d))"

definition piece_tokens :: "downloader \<Rightarrow> ShardData \<Rightarrow> string list" where
  "piece_tokens download d = (case piece_text download d of Inl e \<Rightarrow> [] | Inr c \<Rightarrow> map_words c)"

definition piece_map :: "downloader \<Rightarrow> ShardData \<Rightarrow> (string \<times> int) list" where
  "piece_map download d = (case piece_text download d of Inl e \<Rightarrow> [] | Inr c \<Rightarrow> mapfunc c)"

lemma piece_dict_map: "piece_dict download py_mapfunc d = with_repr (piece_map download d)"
  by (auto simp: piece_dict_def piece_map_def piece_text_def py_mapfunc_def with_repr_def split: sum.splits)

lemma piece_map_keys: "fst ` set (piece_map download d) = set (piece_tokens download d)"
proof -
  have "fst ` set (mapfunc c) = set (map_words c)" for c
  proof -
    have "w \<in> fst ` set (mapfunc c) \<longleftrightarrow> w \<in> set (map_words c)" for w
      using map_of_eq_None_iff [of "mapfunc c" w] mapfunc_lookup [of c w] by (metis option.distinct(1))
    then show ?thesis by blast
  qed
  then show ?thesis by (cases "piece_text download d") (simp_all add: piece_map_def piece_tokens_def)
qed

lemma piece_map_total: "total (piece_map download d) w = int (count (mset (piece_tokens download d)) w)"
proof (cases "piece_text download d")
  case (Inr c)
  then show ?thesis
    using total_dict [OF mapfunc_distinct, of c w]
    by (auto simp: piece_map_def piece_tokens_def dict_get_def mapfunc_lookup count_eq_zero_iff)
qed (simp add: piece_map_def piece_tokens_def total_def)

lemma piece_map_nonneg: "(w, n) \<in> set (piece_map download d) \<Longrightarrow> 0 \<le> n"
proof (cases "piece_text download d")
  case (Inr c)
  moreover assume "(w, n) \<in> set (piece_map download d)"
  ultimately have "map_of (mapfunc c) w = Some n" using mapfunc_distinct by (simp add: piece_map_def)
  then show ?thesis by (auto simp: mapfunc_lookup split: if_splits)
qed (simp add: piece_map_def)

section \<open>Clean pieces\<close>

lemma blank_front_set: "blank_front k i xs = Inr ys \<Longrightarrow> set ys \<subseteq> insert (CHR '' '') (set xs)"
proof (induction k i xs rule: blank_front.induct)
  case (2 k i xs)
  then show ?case using set_update_subset_insert [of xs i "CHR '' ''"] by (fastforce split: if_splits)
qed auto

lemma fix_word_boundary_set: "fix_word_boundary b e xs = Inr ys \<Longrightarrow> set ys \<subseteq> insert (CHR '' '') (set xs)"
proof -
  assume eq: "fix_word_boundary b e xs = Inr ys"
  then obtain coll where "(if b \<noteq> 0 then blank_front EXTRA_LEN 0 xs else Inr xs) = Inr coll" "set ys \<subseteq> set coll"
    by (auto simp: fix_word_boundary_def rbind_Inr_iff Let_def split: if_splits dest: in_set_takeD)
  then show ?thesis using blank_front_set [of EXTRA_LEN 0 xs coll] by (auto split: if_splits)
qed

lemma clean_subset: "clean s \<Longrightarrow> set t \<subseteq> insert (CHR '' '') (set s) \<Longrightarrow> clean t"
  unfolding clean_def by fastforce

lemma piece_text_clean:
  assumes "serves download content" "clean (content (sd_blobName d))" "piece_text download d = Inr c"
  shows "clean c"
proof -
  let ?len = "sd_end d - sd_begin d + of_nat EXTRA_LEN"
  from assms(3) obtain x where x: "download (sd_blobName d) (sd_begin d) ?len = Inr x"
    "fix_word_boundary (sd_begin d) (sd_end d) x = Inr c"
    by (auto simp: piece_text_def rbind_Inr_iff)
  have "unat (sd_begin d) < length (content (sd_blobName d))"
  proof (rule ccontr)
    assume "\<not> ?thesis"
    with assms(1) x(1) show False unfolding serves_def by (metis sum.distinct(1))
  qed
  with servesD [OF assms(1)] x(1) have "x = take (unat ?len) (drop (unat (sd_begin d)) (content (sd_blobName d)))" by simp
  then have "set x \<subseteq> set (content (sd_blobName d))" by (auto dest: in_set_takeD in_set_dropD)
  with fix_word_boundary_set [OF x(2)] show ?thesis by (intro clean_subset [OF assms(2)]) blast
qed

text \<open>The tokens of a list of runs, as a multiset.\<close>

definition run_tokens :: "string multiset \<Rightarrow> string multiset" where
  "run_tokens M = (\<Sum>t \<in># M. mset (tokens t))"

lemma run_tokens_add [simp]: "run_tokens {#} = {#}" "run_tokens (M + N) = run_tokens M + run_tokens N"
  by (simp_all add: run_tokens_def)

lemma run_tokens_sum: "run_tokens (sum_list (map f xs)) = (\<Sum>x \<leftarrow> xs. run_tokens (f x))"
  by (induction xs) simp_all

lemma run_tokens_toks: "run_tokens (mset (toks s)) = mset (tokens s)"
proof -
  have "mset (concat (map tokens ts)) = run_tokens (mset ts)" for ts
    by (induction ts) (simp_all add: run_tokens_def)
  then show ?thesis using tokens_toks [of s] by simp
qed

lemma piece_tokens_words:
  assumes "serves download content" "clean (content (sd_blobName d))"
  shows "mset (piece_tokens download d) =
    run_tokens (mset (piece_words download (sd_blobName d) (sd_begin d) (sd_end d)))"
proof (cases "piece_text download d")
  case (Inl e)
  then show ?thesis by (simp add: piece_tokens_def piece_words_eq piece_text_def)
next
  case (Inr c)
  then show ?thesis
    using map_words_tokens [OF piece_text_clean [OF assms Inr]]
    by (simp add: piece_tokens_def piece_words_eq piece_text_def run_tokens_toks)
qed

section \<open>All pieces\<close>

definition input_tokens :: "(string \<Rightarrow> string) \<Rightarrow> list_blob_item list \<Rightarrow> string list" where
  "input_tokens content items = concat (map (\<lambda>(nm, n). tokens (content nm)) (blobs_of items))"

text \<open>An input the workers read exactly: what the storage serves is what the listing says, small enough for
  the \<open>int\<close> positions, printable ASCII, and no run of more than sixteen bytes.\<close>

definition countable_input :: "downloader \<Rightarrow> (string \<Rightarrow> string) \<Rightarrow> list_blob_item list \<Rightarrow> bool" where
  "countable_input download content items \<longleftrightarrow>
     serves download content \<and>
     (\<forall>(nm, n) \<in> set (blobs_of items). n = length (content nm) \<and> n + EXTRA_LEN < 2 ^ 31 \<and>
        short_words (content nm) \<and> clean (content nm))"

lemma piece_of_blob:
  assumes "countable_input download content items" "0 < shard_sz" "fits_size_t shard_sz items"
    and "shards_of shard_sz items = Some shards" "f \<in> set shards" "d \<in> set (fs_sets f)"
  shows "clean (content (sd_blobName d))" "data_of_tuple (tuple_of_data d) = d" "wire_safe d"
proof -
  have "data_interval d \<in> set (map data_interval (concat (map fs_sets shards)))" using assms(5,6) by auto
  then have "(sd_blobName d, unat (sd_begin d), unat (sd_end d)) \<in> set (cut_pieces (unat shard_sz) (blobs_of items))"
    using shards_of_intervals [OF assms(2-4)] by (simp add: data_interval_def)
  then obtain n where n: "(sd_blobName d, n) \<in> set (blobs_of items)" "unat (sd_begin d) \<le> unat (sd_end d)"
    "unat (sd_end d) \<le> n"
    using cut_pieces_interval [OF unat_pos [OF assms(2)]] by blast
  then show "clean (content (sd_blobName d))" using assms(1) by (auto simp: countable_input_def)
  have "n + EXTRA_LEN < 2 ^ 31" using n(1) assms(1) by (auto simp: countable_input_def)
  with n show "wire_safe d" by (simp add: wire_safe_def)
  then show "data_of_tuple (tuple_of_data d) = d" by (rule wire.dec_enc)
qed

lemma all_pieces_tokens:
  assumes "countable_input download content items" "0 < shard_sz" "fits_size_t shard_sz items"
    and "shards_of shard_sz items = Some shards"
  shows "(\<Sum>d \<leftarrow> concat (map fs_sets shards). mset (piece_tokens download d)) = mset (input_tokens content items)"
proof -
  let ?ds = "concat (map fs_sets shards)"
  let ?pw = "\<lambda>d. mset (piece_words download (sd_blobName d) (sd_begin d) (sd_end d))"
  have sv: "serves download content" using assms(1) by (simp add: countable_input_def)
  have "mset (piece_tokens download d) = run_tokens (?pw d)" if "d \<in> set ?ds" for d
    using that piece_of_blob(1) [OF assms] piece_tokens_words [OF sv] by auto
  then have "(\<Sum>d \<leftarrow> ?ds. mset (piece_tokens download d)) = run_tokens (\<Sum>d \<leftarrow> ?ds. ?pw d)"
    unfolding run_tokens_sum by (intro arg_cong [of _ _ sum_list] map_cong refl)
  also have "(\<Sum>d \<leftarrow> ?ds. ?pw d) = (\<Sum>(nm, n) \<leftarrow> blobs_of items. mset (toks (content nm)))"
    using assms(1) by (intro sharded_words [OF sv assms(2-4)]) (auto simp: countable_input_def)
  also have "run_tokens \<dots> = (\<Sum>(nm, n) \<leftarrow> blobs_of items. mset (tokens (content nm)))"
    unfolding run_tokens_sum by (intro arg_cong [of _ _ sum_list] map_cong refl) (auto simp: run_tokens_toks)
  also have "\<dots> = mset (input_tokens content items)"
  proof -
    have "(\<Sum>(nm, n) \<leftarrow> bs. mset (tokens (content nm))) = mset (concat (map (\<lambda>(nm, n). tokens (content nm)) bs))" for bs
      by (induction bs) auto
    then show ?thesis by (simp only: input_tokens_def)
  qed
  finally show ?thesis .
qed

section \<open>The input of a reducer\<close>

definition bucket_part :: "(string \<Rightarrow> size_t) \<Rightarrow> int \<Rightarrow> int \<Rightarrow> (string \<times> int) list \<Rightarrow> (string \<times> int) list" where
  "bucket_part hash n j kvs = filter (\<lambda>(w, c). bucket hash n (py_repr w) = j) kvs"

lemma bucket_lines_repr: "bucket_lines hash n j (with_repr kvs) = kv_lines (with_repr (bucket_part hash n j kvs))"
  by (induction kvs) (auto simp: bucket_lines_def kv_lines_def with_repr_def bucket_part_def)

lemma kv_lines_concat: "concat (map (\<lambda>kvs. kv_lines (with_repr kvs)) kvss) = kv_lines (with_repr (concat kvss))"
  by (induction kvss) (auto simp: kv_lines_def with_repr_def)

lemma total_bucket_part:
  "total (bucket_part hash n j kvs) w = (if bucket hash n (py_repr w) = j then total kvs w else 0)"
  by (induction kvs) (auto simp: bucket_part_def total_def)

lemma bucket_part_keys: "w \<in> fst ` set (bucket_part hash n j kvs) \<longleftrightarrow> w \<in> fst ` set kvs \<and> bucket hash n (py_repr w) = j"
  by (force simp: bucket_part_def)

lemma concat_nth: "concat (map (\<lambda>k. map (\<lambda>i. f (xss k ! i)) [0..<length (xss k)]) ks) = map f (concat (map xss ks))"
proof (induction ks)
  case (Cons k ks)
  have "map (\<lambda>i. f (xss k ! i)) [0..<length (xss k)] = map f (xss k)"
    by (metis (no_types, lifting) map_nth map_map comp_def map_cong)
  with Cons show ?case by simp
qed simp

lemma fs_sets_nth: "map (\<lambda>k. fs_sets (fs ! k)) [0..<length fs] = map fs_sets fs"
  by (metis (no_types, lifting) map_nth map_map comp_def map_cong)

lemma reducer_entries:
  assumes stored: "map_phase_stored st hash py_mapfunc container m download b a blobs"
    and inp: "countable_input download content items" "0 < shard_sz" "fits_size_t shard_sz items"
      "shards_of shard_sz items = Some (m_shards m)"
    and j: "0 \<le> j" "j < m_nreducers m" "m_nreducers m < 2 ^ 31"
  defines "vec \<equiv> filter (\<lambda>item. reducer_of item = j) blobs"
  obtains g where
    "\<And>nm. nm \<in> set vec \<Longrightarrow> st_download st (container @ ''int'') nm b = Inr (kv_lines (with_repr (g nm)))"
    "mset (map g vec) = mset (map (\<lambda>d. bucket_part hash (m_nreducers m) j (piece_map download d))
      (concat (map fs_sets (m_shards m))))"
proof -
  let ?n = "m_nreducers m" and ?N = "length (m_shards m)"
  let ?sets = "\<lambda>k. fs_sets (m_shards m ! k)"
  let ?h = "\<lambda>d. bucket_part hash ?n j (piece_map download d)"
  let ?name = "\<lambda>k i. int_name (a k) (int k) (int i) j"
  let ?L = "concat (map (\<lambda>k. map (?name k) [0..<length (?sets k)]) [0..<?N])"
  have addr: "CHR ''_'' \<notin> set (a k)" if "k < ?N" for k using stored that by (simp add: map_phase_stored_def)
  have mset_L: "mset vec = mset ?L" unfolding vec_def by (rule reducer_blobs [OF stored j])
  have inj: "?name k i = ?name k' i' \<Longrightarrow> k = k' \<and> i = i'" if "k < ?N" "k' < ?N" for k i k' i'
    using int_name_inj [OF addr [OF that(1)] addr [OF that(2)]] by simp
  have "\<forall>nm \<in> set ?L. \<exists>kvs. \<exists>k i. k < ?N \<and> i < length (?sets k) \<and> nm = ?name k i \<and> kvs = ?h (?sets k ! i)"
  proof
    fix nm assume "nm \<in> set ?L"
    then obtain k i where "k < ?N" "i < length (?sets k)" "nm = ?name k i" by auto
    then show "\<exists>kvs. \<exists>k i. k < ?N \<and> i < length (?sets k) \<and> nm = ?name k i \<and> kvs = ?h (?sets k ! i)" by blast
  qed
  then obtain g where g: "\<forall>nm \<in> set ?L. \<exists>k i. k < ?N \<and> i < length (?sets k) \<and> nm = ?name k i \<and> g nm = ?h (?sets k ! i)"
    by (rule bchoice [THEN exE])
  have g_name: "g (?name k i) = ?h (?sets k ! i)" if ki: "k < ?N" "i < length (?sets k)" for k i
  proof -
    have "?name k i \<in> set ?L" using ki by (auto intro!: bexI [of _ k])
    with g obtain k' i' where "k' < ?N" "?name k i = ?name k' i'" "g (?name k i) = ?h (?sets k' ! i')" by blast
    with inj [OF ki(1)] show ?thesis by blast
  qed
  have "st_download st (container @ ''int'') nm b = Inr (kv_lines (with_repr (g nm)))" if "nm \<in> set vec" for nm
  proof -
    from that mset_eq_setD [OF mset_L] have "nm \<in> set ?L" by blast
    then obtain k i where ki: "k < ?N" "i < length (?sets k)" "nm = ?name k i" by auto
    have d: "data_of_tuple (tuple_of_data (?sets k ! i)) = ?sets k ! i"
      by (rule piece_of_blob(2) [OF inp nth_mem [OF ki(1)] nth_mem [OF ki(2)]])
    have "piece_stored st hash (container @ ''int'') (a k) ?n (int k) (int i)
        (shard_dict download py_mapfunc m (int k) i) b"
      using stored ki by (simp add: map_phase_stored_def)
    then have "st_download st (container @ ''int'') nm b =
        Inr (bucket_lines hash ?n j (with_repr (piece_map download (?sets k ! i))))"
      using j ki(3) by (simp add: piece_stored_def shard_dict_def d piece_dict_map)
    then show ?thesis using g_name [OF ki(1,2)] ki(3) by (simp add: bucket_lines_repr)
  qed
  moreover have L: "map g ?L = map ?h (concat (map fs_sets (m_shards m)))"
  proof -
    have "map g ?L = concat (map (\<lambda>k. map (\<lambda>i. ?h (?sets k ! i)) [0..<length (?sets k)]) [0..<?N])"
      unfolding map_concat map_map comp_def using g_name
      by (intro arg_cong [of _ _ concat] map_cong refl) auto
    also have "\<dots> = map ?h (concat (map ?sets [0..<?N]))" by (rule concat_nth)
    finally show ?thesis by (simp only: fs_sets_nth)
  qed
  have "mset (map g vec) = mset (map g ?L)" by (simp only: mset_map mset_L)
  then have "mset (map g vec) = mset (map ?h (concat (map fs_sets (m_shards m))))" by (simp only: L)
  ultimately show ?thesis by (rule that)
qed

lemma count_sum_tokens:
  "(\<Sum>d \<leftarrow> ds. int (count (mset (piece_tokens download d)) w)) = int (count (\<Sum>d \<leftarrow> ds. mset (piece_tokens download d)) w)"
  by (induction ds) auto

lemma pieces_token_set:
  assumes "countable_input download content items" "0 < shard_sz" "fits_size_t shard_sz items" "shards_of shard_sz items = Some shards"
  shows "(\<Union>d \<in> set (concat (map fs_sets shards)). set (piece_tokens download d)) = set (input_tokens content items)"
proof -
  have "set_mset (\<Sum>d \<leftarrow> xs. mset (piece_tokens download d)) = (\<Union>d \<in> set xs. set (piece_tokens download d))" for xs
    by (induction xs) auto
  then show ?thesis using all_pieces_tokens [OF assms] by (metis set_mset_mset)
qed

text \<open>The entries for a reducer, over all pieces and in any order.\<close>

lemma bucket_entries:
  assumes inp: "countable_input download content items" "0 < shard_sz" "fits_size_t shard_sz items" "shards_of shard_sz items = Some shards"
    and gs: "mset gs = mset (map (\<lambda>d. bucket_part hash n j (piece_map download d)) (concat (map fs_sets shards)))"
  shows "w \<in> fst ` set (concat gs) \<longleftrightarrow> w \<in> set (input_tokens content items) \<and> bucket hash n (py_repr w) = j"
    and "plain_kvs (concat gs)"
    and "bucket hash n (py_repr w) = j \<Longrightarrow> total (concat gs) w = int (count (mset (input_tokens content items)) w)"
proof -
  let ?ds = "concat (map fs_sets shards)" and ?h = "\<lambda>d. bucket_part hash n j (piece_map download d)"
  have set: "set (concat gs) = (\<Union>d \<in> set ?ds. set (?h d))"
    using mset_eq_setD [OF gs] by (metis set_concat set_map image_image)
  show keys: "w \<in> fst ` set (concat gs) \<longleftrightarrow> w \<in> set (input_tokens content items) \<and> bucket hash n (py_repr w) = j" for w
  proof -
    have "w \<in> fst ` set (concat gs) \<longleftrightarrow> (\<exists>d \<in> set ?ds. w \<in> fst ` set (?h d))" unfolding set by blast
    also have "\<dots> \<longleftrightarrow> w \<in> (\<Union>d \<in> set ?ds. set (piece_tokens download d)) \<and> bucket hash n (py_repr w) = j"
      by (auto simp: bucket_part_keys piece_map_keys)
    finally show ?thesis unfolding pieces_token_set [OF inp] .
  qed
  have "plain_word w \<and> 0 \<le> c" if "(w, c) \<in> set (concat gs)" for w c
  proof -
    have "w \<in> set (input_tokens content items)" using keys [of w] that by force
    then have "plain_word w" using tokens_plain by (auto simp: input_tokens_def)
    moreover have "0 \<le> c" using that piece_map_nonneg unfolding set by (auto simp: bucket_part_def)
    ultimately show ?thesis by blast
  qed
  then show "plain_kvs (concat gs)" by (auto simp: plain_kvs_def)
  assume w: "bucket hash n (py_repr w) = j"
  have "total (concat gs) w = sum_mset (image_mset (\<lambda>kvs. total kvs w) (mset gs))"
    by (simp add: total_concat sum_mset_sum_list flip: mset_map)
  also have "\<dots> = (\<Sum>d \<leftarrow> ?ds. int (count (mset (piece_tokens download d)) w))"
    unfolding gs using w by (simp add: sum_mset_sum_list comp_def total_bucket_part piece_map_total flip: mset_map)
  also have "\<dots> = int (count (mset (input_tokens content items)) w)"
    unfolding count_sum_tokens all_pieces_tokens [OF inp] ..
  finally show "total (concat gs) w = int (count (mset (input_tokens content items)) w)" .
qed

lemma reducer_input:
  assumes stored: "map_phase_stored st hash py_mapfunc container m download b a blobs"
    and inp: "countable_input download content items" "0 < shard_sz" "fits_size_t shard_sz items"
      "shards_of shard_sz items = Some (m_shards m)"
    and j: "0 \<le> j" "j < m_nreducers m" "m_nreducers m < 2 ^ 31"
  shows "\<exists>xs kvs. list_all2 (\<lambda>nm x. st_download st (container @ ''int'') nm b = Inr x)
      (filter (\<lambda>item. reducer_of item = j) blobs) xs \<and>
    concat xs = kv_lines (with_repr kvs) \<and> plain_kvs kvs \<and>
    (\<forall>w. w \<in> fst ` set kvs \<longleftrightarrow> w \<in> set (input_tokens content items) \<and> bucket hash (m_nreducers m) (py_repr w) = j) \<and>
    (\<forall>w. bucket hash (m_nreducers m) (py_repr w) = j \<longrightarrow>
       total kvs w = int (count (mset (input_tokens content items)) w))"
proof -
  let ?vec = "filter (\<lambda>item. reducer_of item = j) blobs"
  obtain g where g: "\<And>nm. nm \<in> set ?vec \<Longrightarrow> st_download st (container @ ''int'') nm b = Inr (kv_lines (with_repr (g nm)))"
    "mset (map g ?vec) = mset (map (\<lambda>d. bucket_part hash (m_nreducers m) j (piece_map download d)) (concat (map fs_sets (m_shards m))))"
    by (rule reducer_entries [OF assms]) (rule that)
  let ?xs = "map (\<lambda>nm. kv_lines (with_repr (g nm))) ?vec" and ?kvs = "concat (map g ?vec)"
  have "list_all2 (\<lambda>nm x. st_download st (container @ ''int'') nm b = Inr x) ?vec ?xs"
    unfolding list_all2_map2 list_all2_same using g(1) by blast
  moreover have "concat ?xs = kv_lines (with_repr ?kvs)"
    using kv_lines_concat [of "map g ?vec"] by (simp add: comp_def)
  ultimately show ?thesis using bucket_entries [OF inp g(2)] by blast
qed

section \<open>The output of a job\<close>

text \<open>The dictionary of reducer \<open>j\<close>: the words of the input that hash to it, each with the number of its
  occurrences.\<close>

definition counts_of :: "(string \<Rightarrow> size_t) \<Rightarrow> int \<Rightarrow> int \<Rightarrow> string list \<Rightarrow> string \<rightharpoonup> int" where
  "counts_of hash n j ws w =
     (if w \<in> set ws \<and> bucket hash n (py_repr w) = j then Some (int (count (mset ws) w)) else None)"

lemma reducer_output:
  assumes stored: "map_phase_stored st hash py_mapfunc container m download b a blobs"
    and inp: "countable_input download content items" "0 < shard_sz" "fits_size_t shard_sz items"
      "shards_of shard_sz items = Some (m_shards m)"
    and j: "0 \<le> j" "j < m_nreducers m" "m_nreducers m < 2 ^ 31"
  shows "\<exists>xs d. list_all2 (\<lambda>nm x. st_download st (container @ ''int'') nm b = Inr x)
      (filter (\<lambda>item. reducer_of item = j) blobs) xs \<and>
    output_text py_reducefunc xs = kv_lines (with_repr d) \<and> distinct (map fst d) \<and>
    map_of d = counts_of hash (m_nreducers m) j (input_tokens content items)"
proof -
  let ?ws = "input_tokens content items" and ?n = "m_nreducers m"
  obtain xs kvs where x: "list_all2 (\<lambda>nm x. st_download st (container @ ''int'') nm b = Inr x)
      (filter (\<lambda>item. reducer_of item = j) blobs) xs" "concat xs = kv_lines (with_repr kvs)" "plain_kvs kvs"
    and keys: "\<And>w. w \<in> fst ` set kvs \<longleftrightarrow> w \<in> set ?ws \<and> bucket hash ?n (py_repr w) = j"
    and totals: "\<And>w. bucket hash ?n (py_repr w) = j \<Longrightarrow> total kvs w = int (count (mset ?ws) w)"
    using reducer_input [OF assms] by blast
  obtain d where d: "reducefunc (kv_lines (with_repr kvs)) = Some d" "distinct (map fst d)"
    "\<And>w. map_of d w = (if w \<in> fst ` set kvs then Some (total kvs w) else None)"
    using reducefunc_sums [OF x(3)] by blast
  have "output_text py_reducefunc xs = kv_lines (with_repr d)"
    by (simp add: output_text_def x(2) py_reducefunc_def d(1))
  moreover have "map_of d = counts_of hash ?n j ?ws"
    by (rule ext) (auto simp: d(3) keys counts_of_def totals)
  ultimately show ?thesis using x(1) d(2) by blast
qed

lemma shards_of_nonempty:
  assumes "0 < shard_sz" "fits_size_t shard_sz items" "shards_of shard_sz items = Some shards"
  shows "\<forall>f \<in> set shards. fs_sets f \<noteq> []"
  using assms join_shards_nonempty by (auto simp: shards_of_eq)

text \<open>The reduce phase of a master \<open>m'\<close> that has the blobs of a finished map phase for the job of \<open>m\<close>.\<close>

lemma reduce_phase_counts:
  assumes st: "storage_works st"
    and inp: "countable_input download content items" "0 < shard_sz" "fits_size_t shard_sz items"
      "shards_of shard_sz items = Some (m_shards m)" "m_nreducers m < 2 ^ 31"
    and stored: "map_phase_stored st hash py_mapfunc container m download b1 a (m_IntblobList m')"
    and m': "m_intcontainer m' = container @ ''int''" "m_nreducers m' = m_nreducers m"
    and red: "reduce_history st hash py_reducefunc container m' b1 b2 rlog"
      "(reduce_step (reduce_logged rlog))\<^sup>*\<^sup>* (runReducer m') t" "rs_pc t = RReturned"
    and j: "0 \<le> j" "j < m_nreducers m"
  shows "\<exists>d. st_download st (container @ ''out'') (''out_'' @ to_string j) b2 = Inr (kv_lines (with_repr d)) \<and>
    distinct (map fst d) \<and> map_of d = counts_of hash (m_nreducers m) j (input_tokens content items)"
proof -
  let ?ws = "input_tokens content items" and ?n = "m_nreducers m"
  let ?reads = "\<lambda>i. list_all2 (\<lambda>nm x. st_download st (container @ ''int'') nm b1 = Inr x) (ri_blobs (reduce_query m' i))"
  have nr: "m_nreducers m' < 2 ^ 31" using m'(2) inp(5) by simp
  have names: "\<forall>item \<in> set (m_IntblobList m'). names_reducer (m_nreducers m') item"
    using stored_names [OF stored inp(5)] m'(2) by simp
  have "\<exists>xs d. ?reads i xs \<and> output_text py_reducefunc xs = kv_lines (with_repr d) \<and> distinct (map fst d) \<and>
      map_of d = counts_of hash ?n i ?ws" if "0 \<le> i" "i < ?n" for i
    using reducer_output [OF stored inp(1-4) that inp(5)] by (simp add: reduce_query_def)
  then obtain xs where xs: "\<And>i. 0 \<le> i \<Longrightarrow> i < ?n \<Longrightarrow> ?reads i (xs i) \<and>
      (\<exists>d. output_text py_reducefunc (xs i) = kv_lines (with_repr d) \<and> distinct (map fst d) \<and>
         map_of d = counts_of hash ?n i ?ws)"
    by metis
  have "j \<in> set rlog" using reduce_all_logged [OF nr names red(2,3) j(1)] j(2) m'(2) by simp
  moreover have "0 \<le> i \<and> i < ?n" if "i \<in> set rlog" for i
    using reduce_history_ids [OF red(1)] that m'(2) by simp
  ultimately show ?thesis
    using reduce_history_stored [OF red(1) st m'(1), of xs] xs j by metis
qed

lemma word_count_output:
  assumes st: "storage_works st"
    and inp: "countable_input (st_range st container b0) content items" "0 < shard_sz" "fits_size_t shard_sz items"
      "shards_of shard_sz items = Some (m_shards m)"
    and m: "indexed_shards m" "unsigned_of_int (m_nmappers m) = length (m_shards m)" "0 < length (m_shards m)"
      "0 < m_nreducers m" "m_nreducers m < 2 ^ 31"
    and map: "map_history st hash py_mapfunc container m b0 b1 log"
      "(map_step (logged_answers log))\<^sup>*\<^sup>* (runMapper m) s" "ms_pc s = Returned"
    and red: "reduce_history st hash py_reducefunc container (ms_master s) b1 b2 rlog"
      "(reduce_step (reduce_logged rlog))\<^sup>*\<^sup>* (runReducer (ms_master s)) t" "rs_pc t = RReturned"
    and j: "0 \<le> j" "j < m_nreducers m"
  shows "\<exists>d. st_download st (container @ ''out'') (''out_'' @ to_string j) b2 = Inr (kv_lines (with_repr d)) \<and>
    distinct (map fst d) \<and> map_of d = counts_of hash (m_nreducers m) j (input_tokens content items)"
proof -
  note fin = finished_map_stored [OF map(1) st m(4,5) m(1-3) shards_of_nonempty [OF inp(2-4)] map(2,3)]
  obtain a where stored: "map_phase_stored st hash py_mapfunc container m (st_range st container b0) b1 a
      (m_IntblobList (ms_master s))"
    using fin(1) by blast
  show ?thesis
    by (rule reduce_phase_counts [OF st inp m(5) stored fin(2) map_run_job(1) [OF m(1) map(2) m(2)] red j])
qed

text \<open>The runs the output is about exist: one worker that does not fail is enough.\<close>

definition word_count_run ::
    "'b Storage \<Rightarrow> (string \<Rightarrow> size_t) \<Rightarrow> string \<Rightarrow> Master \<Rightarrow> 'b \<Rightarrow> 'b \<Rightarrow> bool" where
  "word_count_run st hash container m b0 b2 \<longleftrightarrow>
     (\<exists>b1 log s rlog t. map_history st hash py_mapfunc container m b0 b1 log \<and>
        (map_step (logged_answers log))\<^sup>*\<^sup>* (runMapper m) s \<and> ms_pc s = Returned \<and>
        reduce_history st hash py_reducefunc container (ms_master s) b1 b2 rlog \<and>
        (reduce_step (reduce_logged rlog))\<^sup>*\<^sup>* (runReducer (ms_master s)) t \<and> rs_pc t = RReturned)"

lemma reduce_phase_runs:
  assumes st: "storage_works st"
    and inp: "countable_input download content items" "0 < shard_sz" "fits_size_t shard_sz items"
      "shards_of shard_sz items = Some (m_shards m)" "0 < m_nreducers m" "m_nreducers m < 2 ^ 31"
    and stored: "map_phase_stored st hash py_mapfunc container m download b1 a' (m_IntblobList m')"
    and m': "m_intcontainer m' = container @ ''int''" "m_nreducers m' = m_nreducers m"
      "m_Clients m' \<noteq> []" "\<not> m_will_fail m'" "\<not> m_has_failed m'"
    and w: "worker_ready (new_WorkerDBConnection container) a w" "\<not> wk_will_fail w" "\<not> wk_has_failed w"
  shows "\<exists>b2 rlog t. reduce_history st hash py_reducefunc container m' b1 b2 rlog \<and>
    (reduce_step (reduce_logged rlog))\<^sup>*\<^sup>* (runReducer m') t \<and> rs_pc t = RReturned"
proof -
  let ?reads = "\<lambda>i. list_all2 (\<lambda>nm x. st_download st (container @ ''int'') nm b1 = Inr x) (ri_blobs (reduce_query m' i))"
  have "\<exists>xs. ?reads i xs" if "0 \<le> i" "i < m_nreducers m'" for i
    using reducer_output [OF stored inp(1-4), of i] that inp(6) m'(2) by (auto simp: reduce_query_def)
  then obtain xs where xs: "\<And>i. 0 \<le> i \<Longrightarrow> i < m_nreducers m' \<Longrightarrow> ?reads i (xs i)" by metis
  have db: "wk_dbConnection w = Some (new_WorkerDBConnection container)" "\<not> wk_has_failed (worker_check_fail w)"
    using w by (simp_all add: worker_ready_def worker_fail.check_off)
  obtain b2 rlog where r: "reduce_history st hash py_reducefunc container m' b1 b2 rlog"
    "\<forall>i < nat (m_nreducers m). int i \<in> set rlog"
    using reduce_history_exists [OF st m'(1) db xs, where k = "nat (m_nreducers m)", of hash py_reducefunc]
      inp(5) m'(2) by auto
  have "rc_jobid c \<in> set rlog" if "0 \<le> rc_jobid c" "rc_jobid c < m_nreducers m'" for c :: AsyncClientReduceCall
    using that r(2) m'(2) by (auto dest: spec [of _ "nat (rc_jobid c)"])
  then have "reduce_answerable m' (reduce_logged rlog)" using m'(3)
    by (auto simp: reduce_answerable_def reduce_logged_def)
  moreover have "\<forall>item \<in> set (m_IntblobList m'). names_reducer (m_nreducers m') item"
    using stored_names [OF stored inp(6)] m'(2) by simp
  ultimately obtain t where "(reduce_step (reduce_logged rlog))\<^sup>*\<^sup>* (runReducer m') t" "rs_pc t = RReturned"
    using reduce_dispatch_completes [OF _ _ _ m'(4,5)] inp(6) m'(2) by (metis rtranclp.rtrancl_refl)
  with r(1) show ?thesis by blast
qed

lemma logged_answerable:
  assumes "\<And>i. i < length (m_shards m) \<Longrightarrow> \<exists>reply. (int i, reply) \<in> set log" "m_Clients m \<noteq> []"
  shows "answerable m (logged_answers log)"
proof -
  have "\<exists>reply. logged_answers log c 0 reply" if "map_call m c" for c
    using that assms(1) [of "nat (mc_shardId c)"] by (auto simp: map_call_def shard_index_def logged_answers_def)
  then show ?thesis using assms(2) by (simp add: answerable_def)
qed

lemma word_count_runs:
  assumes st: "storage_works st"
    and inp: "countable_input (st_range st container b0) content items" "0 < shard_sz" "fits_size_t shard_sz items"
      "shards_of shard_sz items = Some (m_shards m)"
    and m: "indexed_shards m" "unsigned_of_int (m_nmappers m) = length (m_shards m)" "0 < length (m_shards m)"
      "0 < m_nreducers m" "m_nreducers m < 2 ^ 31" "\<not> m_will_fail m" "\<not> m_has_failed m" "m_Clients m \<noteq> []"
    and w: "worker_ready (new_WorkerDBConnection container) a w" "CHR ''_'' \<notin> set a" "\<not> wk_will_fail w" "\<not> wk_has_failed w"
  shows "\<exists>b2. word_count_run st hash container m b0 b2"
proof -
  obtain b1 log where h: "map_history st hash py_mapfunc container m b0 b1 log"
    "\<And>i. i < length (m_shards m) \<Longrightarrow> \<exists>reply. (int i, reply) \<in> set log"
    using map_history_exists [OF st m(4,5) w, of "length (m_shards m)"] by blast
  obtain s where s: "(map_step (logged_answers log))\<^sup>*\<^sup>* (runMapper m) s" "ms_pc s = Returned"
    using map_dispatch_completes [OF m(1) logged_answerable [OF h(2) m(8)] m(6,7,2,3)] by blast
  note fin = finished_map_stored [OF h(1) st m(4,5) m(1-3) shards_of_nonempty [OF inp(2-4)] s]
  obtain a' where stored: "map_phase_stored st hash py_mapfunc container m (st_range st container b0) b1 a'
      (m_IntblobList (ms_master s))"
    using fin(1) by blast
  note keep = map_run_keeps [OF m(1) s(1) m(6,7,2,3)]
  have "m_Clients (ms_master s) \<noteq> []" using keep(2) m(8) by simp
  from reduce_phase_runs [OF st inp m(4,5) stored fin(2) keep(1) this keep(3,4) w(1,3,4)] h(1) s
  show ?thesis unfolding word_count_run_def by blast
qed

lemma shards_of_indexed: "shards_of shard_sz items = Some (m_shards m) \<Longrightarrow> indexed_shards m"
  using join_shards_ids [of _ _ "[]" "- 1"]
  by (auto simp: indexed_shards_def shards_of_def getShardId_def split: option.splits) (metis)

end
