(* ===== verification/ShardSize.thy ===== *)
theory ShardSize
  imports Sharding
begin

text \<open>
  \<^verbatim>\<open>DBConnection::calc_shard_sz\<close> of \<^verbatim>\<open>w7/src/master/dbconn.h\<close>. The code sums
  the blob sizes in a \<^verbatim>\<open>float\<close> and divides by the number of mappers in
  \<^verbatim>\<open>float\<close>, so the rounding of IEEE single precision (24 significant bits, ties to
  even) is written out on natural numbers. The values stay inside the normal range of the
  format: sums are integers, and a quotient by an \<open>int\<close> is never below \<open>2\<close> to the
  \<open>-31\<close>.
\<close>

section \<open>Single precision arithmetic\<close>

text \<open>\<open>rne p d\<close> rounds \<open>p / d\<close> to the nearest integer, ties to even.\<close>

definition rne :: "nat \<Rightarrow> nat \<Rightarrow> nat" where
  "rne p d =
     (let q = p div d; r = p mod d in
      if 2 * r < d then q else if d < 2 * r then q + 1 else if even q then q else q + 1)"

text \<open>The power of two that brings \<open>p / d\<close> into the interval from \<open>2 ^ 23\<close> to \<open>2 ^ 24\<close>:
  upwards for a small quotient, downwards for a large one.\<close>

function scale_up :: "nat \<Rightarrow> nat \<Rightarrow> nat" where
  "scale_up p d = (if p = 0 \<or> 2 ^ 23 * d \<le> p then 0 else Suc (scale_up (2 * p) d))"
  by pat_completeness auto
termination
  by (relation "measure (\<lambda>(p, d). 2 ^ 23 * d - p)") auto

function scale_down :: "nat \<Rightarrow> nat \<Rightarrow> nat" where
  "scale_down p d = (if d = 0 \<or> p < 2 ^ 24 * d then 0 else Suc (scale_down p (2 * d)))"
  by pat_completeness auto
termination
  by (relation "measure (\<lambda>(p, d). Suc p - 2 ^ 24 * d)") auto

declare scale_up.simps [simp del] scale_down.simps [simp del]

text \<open>The rounded quotient as a fraction whose denominator is a power of two.\<close>

definition f32_div :: "nat \<Rightarrow> nat \<Rightarrow> nat \<times> nat" where
  "f32_div p d =
     (let j = scale_up p d; e = scale_down p d in
      if 0 < j then (rne (2 ^ j * p) d, 2 ^ j) else (rne p (2 ^ e * d) * 2 ^ e, 1))"

definition f32_of_nat :: "nat \<Rightarrow> nat" where
  "f32_of_nat n = (let e = scale_down n 1 in rne n (2 ^ e) * 2 ^ e)"

definition f32_ceil :: "nat \<times> nat \<Rightarrow> nat" where
  "f32_ceil v = (fst v + snd v - 1) div snd v"

definition f32_floor :: "nat \<times> nat \<Rightarrow> nat" where
  "f32_floor v = fst v div snd v"

section \<open>The code\<close>

fun float_total :: "nat \<Rightarrow> list_blob_item list \<Rightarrow> nat" where
  "float_total tot_sz [] = tot_sz"
| "float_total tot_sz (DirectoryItem n # items) = float_total tot_sz items"
| "float_total tot_sz (BlobItem n sz # items) =
     float_total (f32_of_nat (tot_sz + f32_of_nat (unat sz))) items"

text \<open>Converting an infinity, a NaN, a negative value or a value of \<open>2 ^ 64\<close> or more to
  \<open>size_t\<close> is undefined; a quotient that rounds up to negative zero converts to 0.\<close>

definition calc_shard_sz :: "list_blob_item list \<Rightarrow> int \<Rightarrow> size_t result" where
  "calc_shard_sz items nshards =
     (let tot_sz = float_total 0 items; d = f32_of_nat (nat \<bar>nshards\<bar>) in
      if nshards = 0 then Inl UndefinedConversion
      else if tot_sz = 0 then Inr 0
      else if 0 < nshards then
        (let c = f32_ceil (f32_div tot_sz d)
         in if c < 2 ^ 64 then Inr (of_nat c) else Inl UndefinedConversion)
      else if f32_floor (f32_div tot_sz d) = 0 then Inr 0
      else Inl UndefinedConversion)"

definition ceil_div :: "nat \<Rightarrow> nat \<Rightarrow> nat" where
  "ceil_div a b = (a + b - 1) div b"

section \<open>Rounding\<close>

lemma rne_exact: "0 < d \<Longrightarrow> rne (k * d) d = k"
  by (simp add: rne_def)

lemma ceil_div_mult: "0 < d \<Longrightarrow> ceil_div (k * d) d = k"
  unfolding ceil_div_def by (rule div_nat_eqI) (simp_all add: mult.commute)

lemma ceil_div_between:
  assumes "d * k < m" "m \<le> d * Suc k"
  shows "ceil_div m d = Suc k"
proof -
  have "0 < d" using assms by (cases d) auto
  with assms have "d * Suc k \<le> m + d - 1" "m + d - 1 < d * Suc (Suc k)" by simp_all
  then show ?thesis unfolding ceil_div_def by (rule div_nat_eqI)
qed

lemma ceil_div_mod:
  assumes "0 < d" "0 < p mod d"
  shows "ceil_div p d = Suc (p div d)"
proof (rule ceil_div_between)
  show "d * (p div d) < p" using assms mult_div_mod_eq [of d p] by linarith
  show "p \<le> d * Suc (p div d)"
    using assms mult_div_mod_eq [of d p] mod_less_divisor [OF assms(1), of p]
    by (simp only: mult_Suc_right)
qed

lemma ceil_div_le: "0 < b \<Longrightarrow> a \<le> k * b \<Longrightarrow> ceil_div a b \<le> k"
  by (simp add: ceil_div_def less_Suc_eq_le [symmetric] div_less_iff_less_mult)

lemma le_ceil_div_mult: "0 < b \<Longrightarrow> a \<le> ceil_div a b * b"
  using dividend_less_div_times [of b "a + b - 1"] by (simp add: ceil_div_def)

lemma rne_le:
  assumes "0 < d" "p \<le> k * d"
  shows "rne p d \<le> k"
proof (cases "p = k * d")
  case True
  with assms show ?thesis by (simp add: rne_exact)
next
  case False
  with assms have "p div d < k" by (simp add: div_less_iff_less_mult)
  then show ?thesis by (simp add: rne_def Let_def)
qed

lemma rne_gt:
  assumes "k * d \<le> p" "d < 2 * (p - k * d)" "0 < d"
  shows "k < rne p d"
proof (cases "p div d = k")
  case True
  then have "p mod d = p - k * d" by (metis minus_div_mult_eq_mod)
  with True assms show ?thesis by (simp add: rne_def Let_def)
next
  case False
  have "k \<le> p div d" using assms by (simp add: less_eq_div_iff_mult_less_eq)
  with False have "k < p div d" by simp
  then show ?thesis by (auto simp: rne_def Let_def)
qed

lemma f32_of_nat_small: "n < 2 ^ 24 \<Longrightarrow> f32_of_nat n = n"
  using rne_exact [of 1 n] by (simp add: f32_of_nat_def scale_down.simps)

lemma scale_up_reaches: "0 < p \<Longrightarrow> 2 ^ 23 * d \<le> 2 ^ scale_up p d * p"
proof (induction p d rule: scale_up.induct)
  case (1 p d)
  show ?case
  proof (cases "2 ^ 23 * d \<le> p")
    case True
    then show ?thesis by (simp add: scale_up.simps [of p d])
  next
    case False
    with 1 show ?thesis by (simp add: scale_up.simps [of p d] mult.assoc mult.left_commute)
  qed
qed

lemma f32_div_ceil_exact:
  assumes "0 < p" "p < 2 ^ 24" "0 < d"
  shows "f32_ceil (f32_div p d) = ceil_div p d"
proof (cases "2 ^ 23 * d \<le> p")
  case True
  with assms have "d = 1" by simp
  with True assms show ?thesis
    using rne_exact [of 1 p]
    by (simp add: f32_div_def scale_up.simps scale_down.simps f32_ceil_def ceil_div_def)
next
  case False
  define j where "j = scale_up p d"
  define m where "m = rne (2 ^ j * p) d"
  define k where "k = p div d"
  have j: "0 < j" using False assms by (simp add: j_def scale_up.simps [of p d])
  have v: "f32_div p d = (m, 2 ^ j)" using j by (simp add: f32_div_def Let_def j_def m_def)
  have kd: "k * d \<le> p" "p - k * d = p mod d" by (simp_all add: k_def minus_div_mult_eq_mod)
  show ?thesis
  proof (cases "p mod d = 0")
    case True
    then have p: "p = k * d" using kd by simp
    then have "m = 2 ^ j * k" using rne_exact [of d "2 ^ j * k"] assms by (simp add: m_def mult.assoc)
    then have "f32_ceil (f32_div p d) = ceil_div (k * 2 ^ j) (2 ^ j)"
      by (simp add: v f32_ceil_def ceil_div_def mult.commute)
    with p assms show ?thesis by (simp add: ceil_div_mult)
  next
    case r: False
    have big: "d < 2 * 2 ^ j"
    proof (rule ccontr)
      assume "\<not> d < 2 * 2 ^ j"
      then have "2 ^ 24 * 2 ^ j \<le> 2 ^ 23 * d" by simp
      also have "\<dots> \<le> 2 ^ j * p" using scale_up_reaches [of p d] assms(1) by (simp add: j_def)
      also have "\<dots> < 2 ^ j * 2 ^ 24" using assms(2) by simp
      finally show False by simp
    qed
    have low: "2 ^ j * k < m"
      unfolding m_def
    proof (rule rne_gt)
      show "2 ^ j * k * d \<le> 2 ^ j * p" using kd by (simp add: mult.assoc)
      have "2 * (2 ^ j * p - 2 ^ j * k * d) = 2 * 2 ^ j * (p mod d)"
        using kd by (simp add: mult.assoc flip: diff_mult_distrib2)
      moreover have "2 * 2 ^ j \<le> 2 * 2 ^ j * (p mod d)" using r by simp
      ultimately show "d < 2 * (2 ^ j * p - 2 ^ j * k * d)" using big by linarith
    qed (use assms in simp)
    have "p < Suc k * d" using assms by (simp add: k_def dividend_less_div_times)
    then have high: "m \<le> 2 ^ j * Suc k"
      unfolding m_def using assms by (intro rne_le) (simp_all only: mult.assoc mult_le_mono2 less_imp_le)
    have "ceil_div m (2 ^ j) = Suc k" using low high by (rule ceil_div_between)
    moreover have "ceil_div p d = Suc k" using assms r by (simp add: ceil_div_mod k_def)
    ultimately show ?thesis by (simp add: v f32_ceil_def ceil_div_def)
  qed
qed

lemma float_total_exact:
  "acc + total_bytes items < 2 ^ 24 \<Longrightarrow> float_total acc items = acc + total_bytes items"
  by (induction acc items rule: float_total.induct)
     (simp_all add: total_bytes_def f32_of_nat_small)

section \<open>Correctness of the shard size\<close>

lemma calc_shard_sz_small:
  assumes "total_bytes items < 2 ^ 24" "0 < n" "n < 2 ^ 24"
  shows "calc_shard_sz items n = Inr (of_nat (ceil_div (total_bytes items) (nat n)))"
proof -
  have tot: "float_total 0 items = total_bytes items"
    using float_total_exact [of 0 items] assms(1) by simp
  have d: "f32_of_nat (nat n) = nat n" "\<bar>n\<bar> = n"
    using assms(2,3) by (simp_all add: f32_of_nat_small)
  have "ceil_div (total_bytes items) (nat n) \<le> total_bytes items"
    using assms(2) by (intro ceil_div_le) (simp_all add: Suc_leI)
  then have "ceil_div (total_bytes items) (nat n) < 2 ^ 64" using assms(1) by simp
  then show ?thesis
    using assms f32_div_ceil_exact [of "total_bytes items" "nat n"]
    by (cases "total_bytes items = 0") (simp_all add: calc_shard_sz_def tot d ceil_div_def Let_def)
qed

text \<open>
  C28: For an input of less than 16 MiB and a positive number of mappers below \<open>2 ^ 24\<close> the
  float computation is exact: the shard size is the total number of bytes divided by the number
  of mappers, rounded up.
\<close>

theorem calc_shard_sz_exact:
  assumes "total_bytes items < 2 ^ 24" "0 < n" "n < 2 ^ 24"
  shows "calc_shard_sz items n = Inr (of_nat (ceil_div (total_bytes items) (nat n)))"
  using assms by (rule calc_shard_sz_small)

theorem calc_shard_sz_exact_witness:
  "calc_shard_sz [BlobItem ''a'' 10, BlobItem ''b'' 7] 4 = Inr 5"
  using calc_shard_sz_exact [of "[BlobItem ''a'' 10, BlobItem ''b'' 7]" 4]
  by (simp add: total_bytes_def ceil_div_def)

lemma no_empty_shard:
  assumes "0 < shard_sz" "fits_size_t shard_sz items" "shards_of shard_sz items = Some shards"
    and ne: "\<forall>(nm, n) \<in> set (blobs_of items). 0 < n" and f: "f \<in> set shards"
  shows "0 < shard_bytes f"
proof -
  obtain d ds where fs: "fs_sets f = d # ds"
    using assms(1-3) f join_shards_nonempty by (cases "fs_sets f") (auto simp: shards_of_eq)
  then have "data_interval d \<in> set (map data_interval (concat (map fs_sets shards)))"
    using f by (force simp: fs)
  then have "data_interval d \<in> set (cut_pieces (unat shard_sz) (blobs_of items))"
    using shards_of_intervals [OF assms(1-3)] by simp
  then have "0 < data_bytes d"
    using cut_pieces_nonempty [OF unat_pos [OF assms(1)] ne]
    by (auto simp: data_interval_def data_bytes_def)
  then show ?thesis by (simp add: shard_bytes_def fs)
qed

lemma shard_count:
  assumes "0 < shard_sz" "fits_size_t shard_sz items" "shards_of shard_sz items = Some shards"
    and ne: "\<forall>(nm, n) \<in> set (blobs_of items). 0 < n"
  shows "length shards = ceil_div (total_bytes items) (unat shard_sz)"
proof -
  let ?s = "unat shard_sz" and ?t = "total_bytes items"
  have s: "0 < ?s" using assms(1) by (rule unat_pos)
  obtain full rest where so: "shards = full @ rest" and full: "length full = ?t div ?s"
    and rest: "length rest \<le> 1" "sum_list (map shard_bytes rest) = ?t mod ?s"
    using shards_split [OF assms(1,2)] assms(3) by auto
  show ?thesis
  proof (cases rest)
    case Nil
    with rest have "?t = (?t div ?s) * ?s" using div_mult_mod_eq [of ?t ?s] by simp
    then show ?thesis using s so full Nil ceil_div_mult [of ?s "?t div ?s"] by simp
  next
    case (Cons f fs)
    with rest(1) have r: "rest = [f]" by simp
    have "0 < ?t mod ?s"
      using no_empty_shard [OF assms, of f] rest(2) so r by simp
    with s have "ceil_div ?t ?s = Suc (?t div ?s)" by (rule ceil_div_mod)
    then show ?thesis using so full r by simp
  qed
qed

lemma few_shards:
  assumes "total_bytes items < 2 ^ 24" "0 < n" "n < 2 ^ 24"
    and ne: "\<forall>(nm, k) \<in> set (blobs_of items). 0 < k" and "blobs_of items \<noteq> []"
  shows "\<exists>shard_sz shards. calc_shard_sz items n = Inr shard_sz \<and>
    shards_of shard_sz items = Some shards \<and>
    length shards = ceil_div (total_bytes items) (unat shard_sz) \<and> length shards \<le> nat n \<and>
    unat shard_sz = ceil_div (total_bytes items) (nat n) \<and> 0 < shard_sz \<and> fits_size_t shard_sz items"
proof -
  define c where "c = ceil_div (total_bytes items) (nat n)"
  have tot: "0 < total_bytes items"
    using ne assms(5) by (cases "blobs_of items") (auto simp: total_bytes_def)
  have c: "total_bytes items \<le> c * nat n"
    using le_ceil_div_mult [of "nat n"] assms(2) by (simp add: c_def)
  have c_le: "c \<le> total_bytes items"
    unfolding c_def using assms(2) by (intro ceil_div_le) (simp_all add: Suc_leI)
  have un: "unat (of_nat c :: size_t) = c" using c_le assms(1) by (simp add: unat_of_nat)
  have pos: "0 < (of_nat c :: size_t)" using c tot un by (cases c) (simp_all add: word_less_nat_alt)
  have "k \<le> total_bytes items" if "(nm, k) \<in> set (blobs_of items)" for nm k
    unfolding total_bytes_def using that by (intro member_le_sum_list) (force, simp)
  then have fits: "fits_size_t (of_nat c) items"
    using assms(1) c_le un by (fastforce simp: fits_size_t_def)
  obtain shards where so: "shards_of (of_nat c) items = Some shards"
    using shards_of_eq [OF pos fits] by simp
  have len: "length shards = ceil_div (total_bytes items) c"
    using shard_count [OF pos fits so ne] un by simp
  have "ceil_div (total_bytes items) c \<le> nat n"
    using c tot by (intro ceil_div_le) (cases c, auto simp: mult.commute)
  with len so un pos fits calc_shard_sz_small [OF assms(1-3)] show ?thesis by (simp add: c_def)
qed

text \<open>
  C29: When no blob is empty and the input is smaller than 16 MiB, the number of shards is the
  input size divided by the shard size, rounded up, and never exceeds the number of mappers the
  request asked for.
\<close>

theorem shard_count_le_mappers:
  assumes "total_bytes items < 2 ^ 24" "0 < n" "n < 2 ^ 24"
    and ne: "\<forall>(nm, k) \<in> set (blobs_of items). 0 < k" and "blobs_of items \<noteq> []"
  shows "\<exists>shard_sz shards. calc_shard_sz items n = Inr shard_sz \<and>
    shards_of shard_sz items = Some shards \<and>
    length shards = ceil_div (total_bytes items) (unat shard_sz) \<and> length shards \<le> nat n"
  using few_shards [OF assms] by blast

theorem shard_count_le_mappers_witness:
  "\<exists>shard_sz shards. calc_shard_sz [BlobItem ''a'' 10] 6 = Inr shard_sz \<and>
    shards_of shard_sz [BlobItem ''a'' 10] = Some shards \<and>
    length shards = ceil_div (total_bytes [BlobItem ''a'' 10]) (unat shard_sz) \<and> length shards \<le> nat 6"
  by (rule shard_count_le_mappers) (simp_all add: total_bytes_def)

text \<open>
  The number of shards can be smaller than the number of mappers: ten bytes for six
  mappers give shards of two bytes, hence five shards. The map phase waits for one result per
  mapper, see \<open>MapDispatch\<close>.
\<close>

lemma fewer_shards_than_mappers_run:
  "calc_shard_sz [BlobItem ''a'' 10] 6 = Inr 2"
  "\<exists>shards. shards_of 2 [BlobItem ''a'' 10] = Some shards \<and> length shards = 5"
proof -
  show "calc_shard_sz [BlobItem ''a'' 10] 6 = Inr 2"
    using calc_shard_sz_small [of "[BlobItem ''a'' 10]" 6] by (simp add: total_bytes_def ceil_div_def)
  have "fits_size_t 2 [BlobItem ''a'' 10]" by (simp add: fits_size_t_def)
  then show "\<exists>shards. shards_of 2 [BlobItem ''a'' 10] = Some shards \<and> length shards = 5"
    using shards_of_eq [of 2 "[BlobItem ''a'' 10]"]
      shard_count [of 2 "[BlobItem ''a'' 10]"] by (auto simp: total_bytes_def ceil_div_def)
qed

text \<open>
  At 16 MiB the float sum loses bytes, and the number of shards can exceed the number of
  mappers: a blob of \<open>2 ^ 24 + 1\<close> bytes for one mapper gives a shard size of \<open>2 ^ 24\<close> and two
  shards.
\<close>

theorem more_shards_than_mappers:
  "\<exists>shard_sz shards. calc_shard_sz [BlobItem ''a'' 16777217] 1 = Inr shard_sz \<and>
     shards_of shard_sz [BlobItem ''a'' 16777217] = Some shards \<and> length shards = 2"
proof -
  have sd: "scale_down 16777217 1 = 1" "scale_down 16777216 1 = 1" "scale_down 16777216 (Suc 0) = 1"
    "scale_up 16777216 (Suc 0) = 0" "scale_down (Suc 0) 1 = 0" "scale_down 1 1 = 0"
    by (simp_all add: scale_down.simps scale_up.simps)
  have r: "rne 16777217 2 = 8388608" "rne 16777216 2 = 8388608" "rne 1 1 = 1"
    by (simp_all add: rne_def)
  have calc: "calc_shard_sz [BlobItem ''a'' 16777217] 1 = Inr 16777216"
    using sd r by (simp add: calc_shard_sz_def f32_of_nat_def f32_div_def f32_ceil_def Let_def)
  have "fits_size_t 16777216 [BlobItem ''a'' 16777217]" by (simp add: fits_size_t_def)
  then have "\<exists>shards. shards_of 16777216 [BlobItem ''a'' 16777217] = Some shards \<and> length shards = 2"
    using shards_of_eq [of 16777216 "[BlobItem ''a'' 16777217]"]
      shard_count [of 16777216 "[BlobItem ''a'' 16777217]"]
    by (auto simp: total_bytes_def ceil_div_def)
  with calc show ?thesis by blast
qed

text \<open>
  A request without the parameter \<open>m\<close> sets the number of mappers to 0, and a negative one
  is taken as it is: the shard size is then the result of an undefined conversion, or 0, with
  which \<open>make_shards\<close> never returns as soon as the first blob is not empty.
\<close>

theorem nonpositive_mappers:
  assumes "0 < sz"
  shows "calc_shard_sz items 0 = Inl UndefinedConversion \<and>
    calc_shard_sz [BlobItem ''a'' 10] (- 100) = Inr 0 \<and>
    make_shards 0 (BlobItem nm sz # items) = None"
proof (intro conjI)
  show "calc_shard_sz items 0 = Inl UndefinedConversion" by (simp add: calc_shard_sz_def Let_def)
  have sd: "scale_up 10 100 = 27" by (simp add: scale_up.simps)
  have "f32_of_nat 10 = 10" "f32_of_nat 100 = 100" by (simp_all add: f32_of_nat_small)
  then show "calc_shard_sz [BlobItem ''a'' 10] (- 100) = Inr 0"
    by (simp add: calc_shard_sz_def f32_floor_def f32_div_def rne_def sd Let_def)
  show "make_shards 0 (BlobItem nm sz # items) = None"
    using shard_loop_diverges [OF assms] by (simp add: make_shards_def shard_blob_def)
qed

theorem nonpositive_mappers_witness:
  "calc_shard_sz [] 0 = Inl UndefinedConversion \<and>
   calc_shard_sz [BlobItem ''a'' 10] (- 100) = Inr 0 \<and>
   make_shards 0 [BlobItem ''a'' 10] = None"
  by (rule nonpositive_mappers) simp

end
