(* ===== verification/ElectionSpec.thy ===== *)
theory ElectionSpec
  imports Prelude
begin

text \<open>
  The abstract specification of the elections through ZooKeeper: candidates get increasing numbers when
  they join, may leave at any time, and win when they are the smallest candidate. Both elections of the
  repository (\<^verbatim>\<open>w7/src/master/masterimpl.cc\<close> and
  \<^verbatim>\<open>w6/src/master/master.cc\<close>) refine it, so both have at most one winner that is still a
  candidate.
\<close>

record ballot =
  candidates :: "nat set"
  next_id :: nat
  winners :: "nat set"

inductive ballot_step :: "ballot \<Rightarrow> ballot \<Rightarrow> bool" where
  join: "next_id b < k \<Longrightarrow>
    ballot_step b (b\<lparr>candidates := insert (next_id b) (candidates b), next_id := k\<rparr>)"
| leave: "next_id b \<le> k \<Longrightarrow> ballot_step b (b\<lparr>candidates := candidates b - {n}, next_id := k\<rparr>)"
| win: "candidates b \<noteq> {} \<Longrightarrow> n = Min (candidates b) \<Longrightarrow>
    ballot_step b (b\<lparr>winners := insert n (winners b)\<rparr>)"

definition ballot_inv :: "ballot \<Rightarrow> bool" where
  "ballot_inv b \<longleftrightarrow>
     finite (candidates b) \<and> (\<forall>n \<in> candidates b \<union> winners b. n < next_id b) \<and>
     (\<forall>n \<in> winners b \<inter> candidates b. \<forall>m \<in> candidates b. n \<le> m)"

lemma ballot_inv_step: "ballot_step b c \<Longrightarrow> ballot_inv b \<Longrightarrow> ballot_inv c"
proof (induction rule: ballot_step.induct)
  case (join b k)
  then have old: "n < next_id b" if "n \<in> candidates b \<union> winners b" for n using that by (simp add: ballot_inv_def)
  have "n \<le> m" if "n \<in> winners b" "n \<in> insert (next_id b) (candidates b)" "m \<in> insert (next_id b) (candidates b)" for n m
    using that join(2) old [of n] by (auto simp: ballot_inv_def intro: less_imp_le)
  moreover have "n < k" if "n \<in> insert (next_id b) (candidates b) \<union> winners b" for n
    using that old [of n] join(1) by auto
  ultimately show ?case using join(2) by (simp add: ballot_inv_def)
next
  case (leave b k n)
  then have "m < k" if "m \<in> candidates b \<union> winners b" for m
    using that less_le_trans [of m "next_id b" k] by (simp add: ballot_inv_def)
  then show ?case using leave by (auto simp: ballot_inv_def)
next
  case (win b n)
  then show ?case by (auto simp: ballot_inv_def)
qed

lemma ballot_one_winner:
  assumes "ballot_inv b" "n \<in> winners b" "n \<in> candidates b"
  shows "n = Min (candidates b)"
  using assms by (intro Min_eqI [symmetric]) (auto simp: ballot_inv_def)

text \<open>A system that refines the ballot: every step is a ballot step or a stutter.\<close>

locale ballot_refinement =
  fixes init :: "'s \<Rightarrow> bool" and step :: "'s \<Rightarrow> 's \<Rightarrow> bool" and abs :: "'s \<Rightarrow> ballot" and inv :: "'s \<Rightarrow> bool"
  assumes init_inv: "init s \<Longrightarrow> inv s"
    and init_ballot: "init s \<Longrightarrow> ballot_inv (abs s)"
    and step_inv: "inv s \<Longrightarrow> step s t \<Longrightarrow> inv t"
    and simulation: "inv s \<Longrightarrow> step s t \<Longrightarrow> ballot_step (abs s) (abs t) \<or> abs t = abs s"
begin

lemma reachable_both: "reachable init step s \<Longrightarrow> inv s \<and> ballot_inv (abs s)"
proof (induction rule: reachable.induct)
  case (next_step s t)
  then show ?case using step_inv [of s t] simulation [of s t] ballot_inv_step by metis
qed (simp add: init_inv init_ballot)

lemma reachable_winner:
  "reachable init step s \<Longrightarrow> n \<in> winners (abs s) \<Longrightarrow> n \<in> candidates (abs s) \<Longrightarrow> n = Min (candidates (abs s))"
  using reachable_both ballot_one_winner by blast

end

end
