(* ===== verification/Election.thy ===== *)
theory Election
  imports Replication ElectionSpec
begin

text \<open>
  Leader election of the masters through ZooKeeper: \<^verbatim>\<open>register_with_zk\<close>,
  \<^verbatim>\<open>elect_leader\<close>, \<^verbatim>\<open>wait_until_leader\<close>, the watcher and
  \<^verbatim>\<open>run_as_leader\<close> of \<^verbatim>\<open>w7/src/master/masterimpl.cc\<close>. What ZooKeeper answers is
  a parameter; the waiting loop is a step relation in which the watcher, the replication server and
  other ZooKeeper clients may act between any two steps.
\<close>

section \<open>The code\<close>

definition ZOK :: int where "ZOK = 0"
definition ZNONODE :: int where "ZNONODE = - 101"

definition LEADER_GRPC_PORT :: int where "LEADER_GRPC_PORT = 6060"

definition register_with_zk :: "'z Conservator \<Rightarrow> 'z \<Rightarrow> Master \<Rightarrow> 'z \<times> Master" where
  "register_with_zk fw z m =
     (let z1 = snd (cf_create fw False False ''/masters'' [] z);
          (nodepath, z2) = cf_create fw True True ''/masters/master_'' (m_address m) z1
      in (z2, m\<lparr>m_nodepath := nodepath\<rparr>))"

definition master_path :: "string \<Rightarrow> string" where
  "master_path name = ''/masters/'' @ name"

text \<open>\<^verbatim>\<open>elect_leader\<close>; the second component of the state is \<^verbatim>\<open>watchTriggered\<close>.
  An exception leaves the function after the flag was reset.\<close>

definition elect_leader :: "'z Conservator \<Rightarrow> Master \<Rightarrow> 'z \<times> bool \<Rightarrow> ('z \<times> bool) \<times> bool result" where
  "elect_leader fw m zw =
     (let z = fst zw in
      if m_has_failed m then (zw, Inr False)
      else
        (case cf_getChildren fw ''/masters'' z of
           Inl e \<Rightarrow> ((z, False), Inl e)
         | Inr cs \<Rightarrow>
             (let children = (if length cs > 1 then sort cs else cs) in
              case children of
                [] \<Rightarrow> ((z, False), Inl OutOfRange)
              | first # _ \<Rightarrow>
                  if master_path first = m_nodepath m
                  then (let z1 = snd (cf_create fw False True ''/leader'' [] z);
                            z2 = cf_setData fw ''/leader'' first z1
                        in ((z2, False), Inr True))
                  else ((z, False), Inr False))))"

text \<open>\<^verbatim>\<open>exists_watcher_fn\<close>: the flag is set when the leader node is gone.\<close>

definition exists_watcher_fn :: "'z Conservator \<Rightarrow> 'z \<times> bool \<Rightarrow> 'z \<times> bool" where
  "exists_watcher_fn fw zw =
     (if cf_checkExists fw ''/leader'' (fst zw) = ZOK then zw else (fst zw, True))"

definition doesReplMasterExists :: "'z Conservator \<Rightarrow> 'z \<Rightarrow> Master \<Rightarrow> bool result" where
  "doesReplMasterExists fw z m =
     (if m_has_failed m then Inr False
      else rbind (cf_getChildren fw ''/masters'' z) (\<lambda>children. Inr (length children > 1)))"

text \<open>The host part of an address with the replication port, in \<^verbatim>\<open>start_repl_client\<close>,
  \<^verbatim>\<open>wait_until_leader\<close> and \<^verbatim>\<open>RunServer\<close>.\<close>

definition repl_address :: "string \<Rightarrow> string" where
  "repl_address addr = before_first (CHR '':'') addr @ '':'' @ to_string LEADER_GRPC_PORT"

text \<open>The peer the leader pushes checkpoints to: the second child, in the order ZooKeeper returns.\<close>

definition repl_peer :: "'z Conservator \<Rightarrow> 'z \<Rightarrow> Master \<Rightarrow> (string \<times> string) option result" where
  "repl_peer fw z m =
     (if m_has_failed m then Inr None
      else rbind (cf_getChildren fw ''/masters'' z) (\<lambda>children.
        if 1 < length children
        then (let path = master_path (children ! 1)
              in Inr (Some (path, repl_address (cf_getData fw path z))))
        else Inl OutOfRange))"

definition run_as_leader :: "Master \<Rightarrow> Master" where
  "run_as_leader m = m\<lparr>m_stop_repl_as_leader := False, m_server := Some True, leader_config := True\<rparr>"

section \<open>Waiting for leadership\<close>

text \<open>Where \<^verbatim>\<open>wait_until_leader\<close> is: at \<^verbatim>\<open>tryAgain\<close> with the value of
  \<^verbatim>\<open>existLeader\<close>, reading the leader's name, in the loop of a follower, returned, or left by an
  exception.\<close>

datatype wait_pc = TryAgain bool | ReadLeader | Following | Leading | WaitThrown

record 'z wait_state =
  ws_z :: 'z
  ws_watch :: bool
  ws_master :: Master
  ws_pc :: wait_pc

definition start_waiting :: "'z Conservator \<Rightarrow> 'z \<Rightarrow> Master \<Rightarrow> 'z wait_state" where
  "start_waiting fw z m =
     \<lparr>ws_z = z, ws_watch = False, ws_master = m,
      ws_pc = TryAgain (cf_checkExists fw ''/leader'' z \<noteq> ZNONODE)\<rparr>"

definition after_election ::
    "('z \<times> bool) \<times> bool result \<Rightarrow> Master \<Rightarrow> wait_pc \<Rightarrow> 'z wait_state \<Rightarrow> 'z wait_state" where
  "after_election r m otherwise s =
     (case r of ((z, w), res) \<Rightarrow>
        s\<lparr>ws_z := z, ws_watch := w, ws_master := m,
          ws_pc := (case res of Inl e \<Rightarrow> WaitThrown | Inr True \<Rightarrow> Leading | Inr False \<Rightarrow> otherwise)\<rparr>)"

definition try_again :: "'z Conservator \<Rightarrow> bool \<Rightarrow> 'z wait_state \<Rightarrow> 'z wait_state" where
  "try_again fw existLeader s =
     (let r = (if \<not> existLeader then elect_leader fw (ws_master s) (ws_z s, ws_watch s)
               else ((ws_z s, ws_watch s), Inr False))
      in after_election r ((ws_master s)\<lparr>m_stop_repl_as_follower := False\<rparr>) ReadLeader s)"

text \<open>The name of the leader; an empty or overlong name leads back to \<^verbatim>\<open>tryAgain\<close> with the
  return code of \<^verbatim>\<open>checkExists\<close> converted to \<open>bool\<close>.\<close>

definition read_leader :: "'z Conservator \<Rightarrow> 'z wait_state \<Rightarrow> 'z wait_state" where
  "read_leader fw s =
     (let leader_id = cf_getData fw ''/leader'' (ws_z s) in
      if leader_id = [] \<or> length leader_id > 30
      then s\<lparr>ws_pc := TryAgain (cf_checkExists fw ''/leader'' (ws_z s) \<noteq> 0)\<rparr>
      else s\<lparr>ws_pc := Following\<rparr>)"

definition follow :: "'z Conservator \<Rightarrow> 'z wait_state \<Rightarrow> 'z wait_state" where
  "follow fw s =
     (let s' = after_election (elect_leader fw (ws_master s) (ws_z s, ws_watch s)) (ws_master s) Following s
      in if ws_pc s' = Leading
         then s'\<lparr>ws_master := (ws_master s')\<lparr>m_stop_repl_as_follower := True\<rparr>\<rparr> else s')"

inductive wait_step ::
    "'z Conservator \<Rightarrow> ('z \<Rightarrow> 'z \<Rightarrow> bool) \<Rightarrow> 'z wait_state \<Rightarrow> 'z wait_state \<Rightarrow> bool"
  for fw others where
  try_again: "ws_pc s = TryAgain ex \<Longrightarrow> wait_step fw others s (try_again fw ex s)"
| read_leader: "ws_pc s = ReadLeader \<Longrightarrow> wait_step fw others s (read_leader fw s)"
| follow: "\<lbrakk>ws_pc s = Following; ws_watch s\<rbrakk> \<Longrightarrow> wait_step fw others s (follow fw s)"
| watcher: "(z, w) = exists_watcher_fn fw (ws_z s, ws_watch s) \<Longrightarrow>
    wait_step fw others s (s\<lparr>ws_z := z, ws_watch := w\<rparr>)"
| checkpoint: "ws_pc s = Following \<Longrightarrow>
    wait_step fw others s (s\<lparr>ws_master := deserialize_data cp (ws_master s)\<rparr>)"
| others: "others (ws_z s) z \<Longrightarrow> wait_step fw others s (s\<lparr>ws_z := z\<rparr>)"

section \<open>Who is elected\<close>

lemma sort_if: "(if length xs > 1 then sort xs else xs) = sort (xs :: string list)"
  by (cases xs; cases "tl xs") auto

lemma sort_head:
  assumes "xs \<noteq> []"
  shows "\<exists>ys. sort xs = Min (set xs) # ys"
proof -
  have "sort xs \<noteq> []" using assms by (metis length_0_conv length_sort)
  then obtain y ys where y: "sort xs = y # ys" by (cases "sort xs") auto
  have "set xs = insert y (set ys)" using arg_cong [OF y, of set] by simp
  moreover have "\<forall>z \<in> set ys. y \<le> z" using sorted_sort [of xs] unfolding y by simp
  ultimately have "Min (set xs) = y" by (intro Min_eqI) auto
  with y show ?thesis by blast
qed

lemma elect_leader_eq:
  assumes "\<not> m_has_failed m" "cf_getChildren fw ''/masters'' z = Inr cs" "cs \<noteq> []"
  shows "elect_leader fw m (z, w) =
    (if m_nodepath m = master_path (Min (set cs))
     then ((cf_setData fw ''/leader'' (Min (set cs)) (snd (cf_create fw False True ''/leader'' [] z)), False), Inr True)
     else ((z, False), Inr False))"
proof -
  obtain ys where "sort cs = Min (set cs) # ys" using sort_head [OF assms(3)] by blast
  then show ?thesis
    using assms(1,2) unfolding elect_leader_def Let_def sort_if fst_conv by auto
qed

lemma elect_leader_true:
  assumes "elect_leader fw m (z, w) = ((z', w'), Inr True)"
  shows "\<exists>cs. \<not> m_has_failed m \<and> cf_getChildren fw ''/masters'' z = Inr cs \<and> cs \<noteq> [] \<and>
    m_nodepath m = master_path (Min (set cs)) \<and>
    z' = cf_setData fw ''/leader'' (Min (set cs)) (snd (cf_create fw False True ''/leader'' [] z))"
proof -
  have f: "\<not> m_has_failed m" using assms by (auto simp: elect_leader_def Let_def split: if_splits)
  moreover obtain cs where cs: "cf_getChildren fw ''/masters'' z = Inr cs"
    using assms f by (cases "cf_getChildren fw ''/masters'' z") (auto simp: elect_leader_def Let_def)
  moreover have "cs \<noteq> []" using assms f cs by (auto simp: elect_leader_def Let_def)
  ultimately show ?thesis
    using assms elect_leader_eq [OF f cs] by (auto split: if_splits)
qed

lemma master_path_inj [simp]: "master_path a = master_path b \<longleftrightarrow> a = b"
  by (simp add: master_path_def)

text \<open>
  At most one master wins an election: two masters that see the same set of candidates, in
  whatever order ZooKeeper lists them, and both elect themselves have the same node. The winner is the
  candidate with the smallest name, and it writes its own name into the leader node.
\<close>

theorem unique_leader:
  assumes "elect_leader fw m1 (z1, w1) = ((z1', w1'), Inr True)"
    and "elect_leader fw m2 (z2, w2) = ((z2', w2'), Inr True)"
    and "cf_getChildren fw ''/masters'' z1 = Inr cs1" "cf_getChildren fw ''/masters'' z2 = Inr cs2"
    and "set cs1 = set cs2"
  shows "m_nodepath m1 = m_nodepath m2 \<and> m_nodepath m1 = master_path (Min (set cs1)) \<and>
    z1' = cf_setData fw ''/leader'' (Min (set cs1)) (snd (cf_create fw False True ''/leader'' [] z1))"
  using elect_leader_true [OF assms(1)] elect_leader_true [OF assms(2)] assms(3-5) by auto

lemma elected_step:
  assumes "wait_step fw others s t" "ws_pc s \<noteq> Leading" "ws_pc t = Leading"
  shows "\<exists>cs. \<not> m_has_failed (ws_master s) \<and> cf_getChildren fw ''/masters'' (ws_z s) = Inr cs \<and> cs \<noteq> [] \<and>
    m_nodepath (ws_master s) = master_path (Min (set cs)) \<and>
    ws_z t = cf_setData fw ''/leader'' (Min (set cs)) (snd (cf_create fw False True ''/leader'' [] (ws_z s)))"
proof -
  have won: "\<exists>cs. \<not> m_has_failed (ws_master s) \<and> cf_getChildren fw ''/masters'' (ws_z s) = Inr cs \<and> cs \<noteq> [] \<and>
      m_nodepath (ws_master s) = master_path (Min (set cs)) \<and>
      fst (fst r) = cf_setData fw ''/leader'' (Min (set cs)) (snd (cf_create fw False True ''/leader'' [] (ws_z s)))"
    if "r = elect_leader fw (ws_master s) (ws_z s, ws_watch s)" "ws_pc (after_election r m pc s) = Leading"
      "pc \<noteq> Leading" for r m pc
  proof -
    obtain z w res where r: "r = ((z, w), res)" by (metis surj_pair)
    then have "res = Inr True"
      using that(2,3) by (auto simp: after_election_def split: sum.splits bool.splits)
    with r that(1) have "elect_leader fw (ws_master s) (ws_z s, ws_watch s) = ((z, w), Inr True)" by simp
    from elect_leader_true [OF this] r show ?thesis by simp
  qed
  have wz: "ws_z (after_election r m pc s) = fst (fst r)" for r m pc
    by (simp add: after_election_def split: prod.splits)
  from assms(1) show ?thesis
  proof cases
    case (try_again ex)
    show ?thesis
    proof (cases ex)
      case True
      with assms(3) try_again show ?thesis by (simp add: try_again_def after_election_def)
    next
      case False
      with assms(3) try_again won [OF refl, of "(ws_master s)\<lparr>m_stop_repl_as_follower := False\<rparr>" ReadLeader] wz
      show ?thesis by (simp add: try_again_def)
    qed
  next
    case follow
    then show ?thesis
      using assms(3) won [OF refl, of "ws_master s" Following] wz
      by (auto simp: follow_def Let_def split: if_splits)
  qed (use assms(2,3) in \<open>auto simp: read_leader_def Let_def split: if_splits\<close>)
qed

text \<open>
  C23: Nobody leads without an election: whatever the watcher, the checkpoints and the other ZooKeeper
  clients do, a step that makes a waiting master the leader is an election it won, on the candidates
  ZooKeeper listed at that moment, by a master that has not failed.
\<close>

theorem leader_was_elected:
  assumes "wait_step fw others s t" "ws_pc s \<noteq> Leading" "ws_pc t = Leading"
  shows "\<exists>cs. \<not> m_has_failed (ws_master s) \<and> cf_getChildren fw ''/masters'' (ws_z s) = Inr cs \<and> cs \<noteq> [] \<and>
    m_nodepath (ws_master s) = master_path (Min (set cs)) \<and>
    ws_z t = cf_setData fw ''/leader'' (Min (set cs)) (snd (cf_create fw False True ''/leader'' [] (ws_z s)))"
  using assms by (rule elected_step)

definition demo_zk_state :: "(string \<times> string) list" where
  "demo_zk_state = [(''/masters/master_2'', ''10.0.0.2:5050''), (''/masters/master_1'', ''10.0.0.1:5050'')]"

definition demo_candidate :: Master where
  "demo_candidate = demo_master\<lparr>m_nodepath := ''/masters/master_1''\<rparr>"

lemma demo_election:
  "cf_getChildren demo_zk ''/masters'' demo_zk_state = Inr [''master_2'', ''master_1'']"
  "Min (set [''master_2'', ''master_1'']) = ''master_1''"
  "elect_leader demo_zk demo_candidate (demo_zk_state, w) =
    ((demo_zk_state @ [(''/leader'', ''master_1'')], False), Inr True)"
proof -
  show cs: "cf_getChildren demo_zk ''/masters'' demo_zk_state = Inr [''master_2'', ''master_1'']"
    by (simp add: demo_zk_def demo_zk_state_def)
  show mn: "Min (set [''master_2'', ''master_1'']) = ''master_1''" by code_simp
  show "elect_leader demo_zk demo_candidate (demo_zk_state, w) =
    ((demo_zk_state @ [(''/leader'', ''master_1'')], False), Inr True)"
    using elect_leader_eq [of demo_candidate demo_zk demo_zk_state, OF _ cs] unfolding mn
    by (simp add: demo_candidate_def demo_master_simps master_path_def demo_zk_def demo_zk_state_def)
qed

theorem unique_leader_witness:
  "elect_leader demo_zk demo_candidate (demo_zk_state, True) =
     ((demo_zk_state @ [(''/leader'', ''master_1'')], False), Inr True) \<and>
   m_nodepath demo_candidate = master_path (Min (set [''master_2'', ''master_1''])) \<and>
   demo_zk_state @ [(''/leader'', ''master_1'')] = cf_setData demo_zk ''/leader'' (Min (set [''master_2'', ''master_1'']))
     (snd (cf_create demo_zk False True ''/leader'' [] demo_zk_state))"
  using unique_leader [OF demo_election(3) demo_election(3) demo_election(1) demo_election(1) refl]
    demo_election(3) by blast

theorem leader_was_elected_witness:
  "\<exists>t. wait_step demo_zk (\<lambda>_ _. False) (start_waiting demo_zk demo_zk_state demo_candidate) t \<and>
    ws_pc t = Leading \<and> m_nodepath demo_candidate = master_path ''master_1''"
proof -
  let ?s = "start_waiting demo_zk demo_zk_state demo_candidate"
  let ?t = "try_again demo_zk False ?s"
  have ex: "ws_pc ?s = TryAgain False"
    by (simp add: start_waiting_def demo_zk_def demo_zk_state_def ZNONODE_def)
  then have step: "wait_step demo_zk (\<lambda>_ _. False) ?s ?t" by (rule wait_step.try_again)
  have lead: "ws_pc ?t = Leading"
    by (simp add: try_again_def start_waiting_def demo_election after_election_def)
  from leader_was_elected [OF step _ lead] ex
  have "m_nodepath demo_candidate = master_path ''master_1''"
    using demo_election(1,2) by (auto simp: start_waiting_def)
  with step lead show ?thesis by blast
qed

text \<open>
  The retry after an unreadable leader name has the existence test the wrong way round: when the
  leader node exists, the master runs for election (and, being the smallest candidate, overwrites the
  leader's name); when it does not exist, the master does not run and reads the missing name again, for
  as long as nobody else creates it.
\<close>

theorem retry_inverted:
  assumes "ws_pc s = ReadLeader" "cf_getData fw ''/leader'' (ws_z s) = []"
  shows "(cf_checkExists fw ''/leader'' (ws_z s) = ZOK \<longrightarrow> ws_pc (read_leader fw s) = TryAgain False) \<and>
    (cf_checkExists fw ''/leader'' (ws_z s) = ZNONODE \<longrightarrow>
       ws_pc (read_leader fw s) = TryAgain True \<and>
       ws_pc (try_again fw True (read_leader fw s)) = ReadLeader \<and>
       ws_z (try_again fw True (read_leader fw s)) = ws_z s)"
  using assms by (simp add: read_leader_def ZOK_def ZNONODE_def try_again_def after_election_def)

theorem retry_inverted_witness:
  "ws_pc (read_leader demo_zk \<lparr>ws_z = demo_zk_state, ws_watch = False, ws_master = demo_candidate,
     ws_pc = ReadLeader\<rparr>) = TryAgain True"
  using retry_inverted [of "\<lparr>ws_z = demo_zk_state, ws_watch = False, ws_master = demo_candidate,
      ws_pc = ReadLeader\<rparr>" demo_zk]
  by (simp add: demo_zk_def demo_zk_state_def ZNONODE_def)

text \<open>
  The checkpoint client takes the second child in the order ZooKeeper returns, which is not sorted:
  here the leader \<open>master_1\<close> of two masters chooses itself as the peer to replicate to.
\<close>

theorem leader_replicates_to_itself:
  "repl_peer demo_zk demo_zk_state demo_candidate = Inr (Some (m_nodepath demo_candidate, ''10.0.0.1:'' @ to_string 6060)) \<and>
   elect_leader demo_zk demo_candidate (demo_zk_state, w) =
     ((demo_zk_state @ [(''/leader'', ''master_1'')], False), Inr True)"
  using demo_election(1,3)
  by (simp add: repl_peer_def demo_candidate_def demo_master_simps master_path_def repl_address_def
      LEADER_GRPC_PORT_def Let_def)
     (simp add: demo_zk_def demo_zk_state_def before_first_def int_of_pos_def substr_upto_def)

section \<open>Registration order\<close>

text \<open>ZooKeeper appends a ten-digit, zero-padded counter to a sequential node.\<close>

fun pad :: "nat \<Rightarrow> nat \<Rightarrow> string" where
  "pad 0 n = []"
| "pad (Suc w) n = pad w (n div 10) @ [digit_char (n mod 10)]"

definition seq_name :: "nat \<Rightarrow> string" where
  "seq_name n = ''master_'' @ pad 10 n"

lemma length_pad [simp]: "length (pad w n) = w"
  by (induction w arbitrary: n) auto

lemma snoc_less:
  assumes "length xs = length ys"
  shows "xs @ [x] < ys @ [y] \<longleftrightarrow> xs < ys \<or> xs = ys \<and> (x :: char) < y"
  using assms by (induction xs ys rule: list_induct2) auto

lemma digit_char_less: "a < 10 \<Longrightarrow> b < 10 \<Longrightarrow> digit_char a < digit_char b \<longleftrightarrow> a < b"
  by (simp add: less_char_def digit_char_def)

lemma pad_less: "a < b \<Longrightarrow> b < 10 ^ w \<Longrightarrow> pad w a < pad w b"
proof (induction w arbitrary: a b)
  case (Suc w)
  have ab: "a div 10 < b div 10 \<or> a div 10 = b div 10 \<and> a mod 10 < b mod 10"
    using Suc.prems(1) by (metis div_le_mono div_mult_mod_eq le_less nat_add_left_cancel_less nat_less_le)
  moreover have "b div 10 < 10 ^ w" using Suc.prems(2) by (simp add: less_mult_imp_div_less)
  ultimately show ?case
    using Suc.IH [of "a div 10" "b div 10"] by (auto simp: snoc_less digit_char_less)
qed simp

lemma prefix_less: "(p @ xs < p @ ys) \<longleftrightarrow> (xs :: string) < ys"
  by (induction p) auto

lemma seq_name_less: "a < b \<Longrightarrow> b < 10 ^ 10 \<Longrightarrow> seq_name a < seq_name b"
  unfolding seq_name_def prefix_less by (rule pad_less)

lemma Min_seq_name:
  assumes "finite A" "A \<noteq> {}" "\<forall>n \<in> A. n < 10 ^ 10"
  shows "Min (seq_name ` A) = seq_name (Min A)"
proof (rule Min_eqI)
  fix y assume "y \<in> seq_name ` A"
  then obtain n where n: "n \<in> A" "y = seq_name n" by auto
  have "Min A \<le> n" using assms(1) n(1) by simp
  then show "seq_name (Min A) \<le> y"
    using seq_name_less [of "Min A" n] assms(3) n by (cases "Min A = n") (auto simp: le_less)
qed (use assms in auto)

text \<open>
  The election goes to the master that registered first: with the zero-padded counters of
  ZooKeeper the smallest name is the smallest counter, so a live master wins exactly when its counter is
  the minimum of the registered ones.
\<close>

theorem oldest_master_wins:
  assumes "cf_getChildren fw ''/masters'' z = Inr (map seq_name ns)" "ns \<noteq> []" "\<forall>n \<in> set ns. n < 10 ^ 10"
    and "\<not> m_has_failed m" "m_nodepath m = master_path (seq_name k)" "k < 10 ^ 10"
  shows "snd (elect_leader fw m (z, w)) = Inr (k = Min (set ns))"
proof -
  have mn: "Min (set (map seq_name ns)) = seq_name (Min (set ns))"
    using Min_seq_name [of "set ns"] assms(2,3) by simp
  have "Min (set ns) < 10 ^ 10" using assms(2,3) by simp
  then have "seq_name k = seq_name (Min (set ns)) \<longleftrightarrow> k = Min (set ns)"
    using seq_name_less [of k "Min (set ns)"] seq_name_less [of "Min (set ns)" k] assms(6)
    by (metis less_irrefl linorder_neqE_nat)
  then show ?thesis
    using elect_leader_eq [OF assms(4,1), of w] assms(2,5) unfolding mn by simp
qed

theorem oldest_master_wins_witness:
  "snd (elect_leader demo_zk (demo_master\<lparr>m_nodepath := master_path (seq_name 10)\<rparr>)
     ([(master_path (seq_name 10), ''b''), (master_path (seq_name 9), ''a'')], False)) = Inr False"
proof -
  have "cf_getChildren demo_zk ''/masters'' [(master_path (seq_name 10), ''b''), (master_path (seq_name 9), ''a'')] =
      Inr (map seq_name [10, 9])"
    by (simp add: demo_zk_def master_path_def)
  from oldest_master_wins [OF this, of "demo_master\<lparr>m_nodepath := master_path (seq_name 10)\<rparr>" 10 False]
  show ?thesis by (simp add: demo_master_simps)
qed

section \<open>What the elections rely on\<close>

text \<open>
  The documented behaviour of ZooKeeper: \<open>live z\<close> are the counters of the nodes below
  \<^verbatim>\<open>/masters\<close> and \<open>upcoming z\<close> is the next counter. A sequential node gets the next
  counter, which never decreases; \<open>expire path\<close> is the end of a session, which removes its ephemeral
  node; the other nodes the masters write do not touch the candidates.
\<close>

definition numbered_zk :: "'z Conservator \<Rightarrow> (string \<Rightarrow> 'z \<Rightarrow> 'z) \<Rightarrow> ('z \<Rightarrow> nat set) \<Rightarrow> ('z \<Rightarrow> nat) \<Rightarrow> bool" where
  "numbered_zk fw expire live upcoming \<longleftrightarrow>
     (\<forall>z. finite (live z)) \<and>
     (\<forall>z. \<exists>cs. cf_getChildren fw ''/masters'' z = Inr cs \<and> set cs = seq_name ` live z) \<and>
     (\<forall>d z. upcoming z < 10 ^ 10 \<longrightarrow> (\<exists>z'. cf_create fw True True ''/masters/master_'' d z =
        (master_path (seq_name (upcoming z)), z') \<and> live z' = insert (upcoming z) (live z) \<and> upcoming z < upcoming z')) \<and>
     (\<forall>p \<in> {''/masters'', ''/leader''}. \<forall>e d z.
        live (snd (cf_create fw False e p d z)) = live z \<and> upcoming (snd (cf_create fw False e p d z)) = upcoming z) \<and>
     (\<forall>p d z. live (cf_setData fw p d z) = live z \<and> upcoming (cf_setData fw p d z) = upcoming z) \<and>
     (\<forall>n z. n < 10 ^ 10 \<longrightarrow> live (expire (master_path (seq_name n)) z) = live z - {n} \<and>
        upcoming z \<le> upcoming (expire (master_path (seq_name n)) z))"

lemma numbered_zkD:
  assumes "numbered_zk fw expire live upcoming"
  shows "finite (live z)" "\<exists>cs. cf_getChildren fw ''/masters'' z = Inr cs \<and> set cs = seq_name ` live z"
    "upcoming z < 10 ^ 10 \<Longrightarrow> \<exists>z'. cf_create fw True True ''/masters/master_'' d z =
      (master_path (seq_name (upcoming z)), z') \<and> live z' = insert (upcoming z) (live z) \<and> upcoming z < upcoming z'"
    "live (snd (cf_create fw False e ''/masters'' d z)) = live z"
    "live (snd (cf_create fw False e ''/leader'' d z)) = live z"
    "upcoming (snd (cf_create fw False e ''/masters'' d z)) = upcoming z"
    "upcoming (snd (cf_create fw False e ''/leader'' d z)) = upcoming z"
    "live (cf_setData fw p d z) = live z" "upcoming (cf_setData fw p d z) = upcoming z"
    "n < 10 ^ 10 \<Longrightarrow> live (expire (master_path (seq_name n)) z) = live z - {n}"
    "n < 10 ^ 10 \<Longrightarrow> upcoming z \<le> upcoming (expire (master_path (seq_name n)) z)"
  using assms by (simp_all add: numbered_zk_def)

lemma seq_name_inj: "a < 10 ^ 10 \<Longrightarrow> b < 10 ^ 10 \<Longrightarrow> seq_name a = seq_name b \<longleftrightarrow> a = b"
  using seq_name_less [of a b] seq_name_less [of b a] by (metis less_irrefl linorder_neqE_nat)

lemma own_name_first:
  assumes "numbered_zk fw expire live upcoming" "cf_getChildren fw ''/masters'' z = Inr cs" "cs \<noteq> []"
    and "\<forall>n \<in> live z. n < 10 ^ 10" "n < 10 ^ 10" "seq_name n = Min (set cs)"
  shows "live z \<noteq> {} \<and> n = Min (live z)"
proof -
  have cs: "set cs = seq_name ` live z" using numbered_zkD(2) [OF assms(1), of z] assms(2) by auto
  then have ne: "live z \<noteq> {}" using assms(3) by auto
  have "seq_name n = seq_name (Min (live z))"
    using Min_seq_name [OF numbered_zkD(1) [OF assms(1)] ne assms(4)] assms(6) cs by simp
  moreover have "Min (live z) < 10 ^ 10" using ne assms(4) numbered_zkD(1) [OF assms(1)] by simp
  ultimately show ?thesis using seq_name_inj assms(5) ne by blast
qed

text \<open>A service with these properties: the next counter, the counters of the live nodes, and the data of
  the other nodes.\<close>

type_synonym seq_state = "nat \<times> nat list \<times> (string \<times> string) list"

fun seq_live :: "seq_state \<Rightarrow> nat set" where
  "seq_live (k, ns, d) = set (filter (\<lambda>n. n < 10 ^ 10) ns)"

fun seq_next :: "seq_state \<Rightarrow> nat" where
  "seq_next (k, ns, d) = k"

fun seq_expire :: "string \<Rightarrow> seq_state \<Rightarrow> seq_state" where
  "seq_expire path (k, ns, d) = (k, filter (\<lambda>n. master_path (seq_name n) \<noteq> path) ns, d)"

definition seq_zk :: "seq_state Conservator" where
  "seq_zk =
     \<lparr>cf_create = (\<lambda>sq eph p x (k, ns, d). if sq then (master_path (seq_name k), (Suc k, ns @ [k], d))
        else (p, (k, ns, if p \<in> fst ` set d then d else d @ [(p, x)]))),
      cf_getChildren = (\<lambda>p (k, ns, d). Inr (if p = ''/masters'' then map seq_name (filter (\<lambda>n. n < 10 ^ 10) ns) else [])),
      cf_getData = (\<lambda>p (k, ns, d). case map_of d p of None \<Rightarrow> [] | Some x \<Rightarrow> x),
      cf_setData = (\<lambda>p x (k, ns, d). (k, ns, (p, x) # filter (\<lambda>(q, y). q \<noteq> p) d)),
      cf_checkExists = (\<lambda>p (k, ns, d). if (if take 9 p = ''/masters/''
        then p \<in> (\<lambda>n. master_path (seq_name n)) ` {n \<in> set ns. n < 10 ^ 10} else p \<in> fst ` set d) then 0 else - 101)\<rparr>"

lemma seq_zk_numbered: "numbered_zk seq_zk seq_expire seq_live seq_next"
  unfolding numbered_zk_def
proof (intro conjI allI ballI impI)
  fix n :: nat and z assume "n < 10 ^ 10"
  then show "seq_live (seq_expire (master_path (seq_name n)) z) = seq_live z - {n}"
    using seq_name_inj by (cases z) auto
qed (auto simp: seq_zk_def split: prod.splits)

end
