(* ===== verification/RequestHandler.thy ===== *)
theory RequestHandler
  imports ShardSize Election
begin

text \<open>
  The HTTP front end of the leader (\<^verbatim>\<open>w7/src/master/requesthandler.h\<close>): parsing of the query
  string, the steps of a job up to the map phase, and the response. \<^verbatim>\<open>create_sharding_data\<close> of
  \<^verbatim>\<open>masterimpl.cc\<close> is put together here from the shard size and the sharding.
\<close>

section \<open>Query strings\<close>

text \<open>\<^verbatim>\<open>sin >> word\<close> splits at white space.\<close>

function split_words :: "string \<Rightarrow> string list" where
  "split_words s =
     (let t = dropWhile is_space s in
      if t = [] then []
      else takeWhile (\<lambda>c. \<not> is_space c) t # split_words (dropWhile (\<lambda>c. \<not> is_space c) t))"
  by pat_completeness auto
termination
proof (relation "measure length")
  fix s t assume t: "t = dropWhile is_space s" and ne: "t \<noteq> []"
  then have "\<not> is_space (hd t)" using hd_dropWhile by blast
  then have "dropWhile (\<lambda>c. \<not> is_space c) t = dropWhile (\<lambda>c. \<not> is_space c) (tl t)"
    using ne by (cases t) auto
  moreover have "length (dropWhile (\<lambda>c. \<not> is_space c) (tl t)) \<le> length (tl t)" by (rule length_dropWhile_le)
  moreover have "length (tl t) < length t" using ne by (cases t) auto
  moreover have "length t \<le> length s" unfolding t by (rule length_dropWhile_le)
  ultimately show "(dropWhile (\<lambda>c. \<not> is_space c) t, s) \<in> measure length" by simp
qed simp

declare split_words.simps [simp del]

definition add_query :: "string \<Rightarrow> (string, string) std_map \<Rightarrow> (string, string) std_map" where
  "add_query word queries =
     (case find_char (CHR ''='') word of
        None \<Rightarrow> queries
      | Some pos \<Rightarrow> map_set (take pos word) (drop (Suc pos) word) queries)"

definition get_queries :: "string \<Rightarrow> (string, string) std_map" where
  "get_queries dest =
     (case find_char (CHR ''?'') dest of
        None \<Rightarrow> []
      | Some pos \<Rightarrow>
          (let query_string = map (\<lambda>c. if c = CHR ''&'' then CHR '' '' else c) (drop (Suc pos) dest)
           in fold add_query (split_words query_string) []))"

section \<open>Requests\<close>

record req_handler =
  rh_container :: string
  rh_mappers :: string
  rh_reducers :: string

definition query_or_empty :: "(string, string) std_map \<Rightarrow> string \<Rightarrow> string" where
  "query_or_empty queries key = (case map_find queries key of None \<Rightarrow> [] | Some v \<Rightarrow> v)"

definition new_req_handler :: "string \<Rightarrow> req_handler" where
  "new_req_handler dest =
     (if find_str ''/upload'' dest \<noteq> None
      then (let queries = get_queries dest in
            \<lparr>rh_container = query_or_empty queries ''container'', rh_mappers = query_or_empty queries ''m'',
             rh_reducers = query_or_empty queries ''r''\<rparr>)
      else \<lparr>rh_container = [], rh_mappers = [], rh_reducers = []\<rparr>)"

text \<open>The static counter of \<^verbatim>\<open>request_id\<close>.\<close>

definition request_id :: "int \<Rightarrow> int" where
  "request_id counter = counter + 1"

text \<open>\<^verbatim>\<open>create_container\<close> calls through the storage connection, which must not be null.\<close>

definition create_container :: "string \<Rightarrow> Master \<Rightarrow> Master result" where
  "create_container container m =
     (let m' = m\<lparr>m_containername := container\<rparr>
      in if m_dbConnection m' = None then Inl UndefinedBehaviour else Inr m')"

text \<open>Assigning a new thread to a joinable \<^verbatim>\<open>std::thread\<close> ends the process.\<close>

definition start_repl_thread :: "'z Conservator \<Rightarrow> 'z \<Rightarrow> Master \<Rightarrow> Master result" where
  "start_repl_thread fw z m =
     rbind (doesReplMasterExists fw z m) (\<lambda>ex.
       if \<not> ex then Inr m
       else if repl_clt_thd m then Inl Terminate
       else Inr (m\<lparr>repl_clt_thd := True\<rparr>))"

text \<open>\<^verbatim>\<open>create_sharding_data\<close> on the listing of the container. The inner option is \<open>None\<close> when
  the cutting loop does not end.\<close>

definition create_sharding_data ::
    "'z Conservator \<Rightarrow> 'z \<Rightarrow> list_blob_item list \<Rightarrow> Master \<Rightarrow> Master option result" where
  "create_sharding_data fw z items m =
     (let m0 = m\<lparr>m_shards := []\<rparr> in
      if m_dbConnection m0 = None then Inr (Some m0)
      else rbind (calc_shard_sz items (m_nmappers m0)) (\<lambda>sz.
             let m1 = m0\<lparr>m_shardsz := sz\<rparr> in
             case shards_of sz items of
               None \<Rightarrow> Inr None
             | Some shards \<Rightarrow>
                 rbind (start_repl_thread fw z (m1\<lparr>m_shards := shards\<rparr>)) (\<lambda>m2. Inr (Some m2))))"

text \<open>\<^verbatim>\<open>process\<close> up to the loop of the map dispatch: the listing of the container, the answers to
  the exchange and the counter of requests are parameters. The result is the state the map dispatch
  starts in; \<^verbatim>\<open>runReducer\<close> follows when it has returned.\<close>

definition process ::
    "'z Conservator \<Rightarrow> (client_ptr \<Rightarrow> PingStatus) \<Rightarrow> (string \<Rightarrow> list_blob_item list) \<Rightarrow>
     (client_ptr \<times> int \<times> string) next_event list \<Rightarrow> int \<Rightarrow> req_handler \<Rightarrow> 'z \<Rightarrow> Master \<Rightarrow>
     'z \<times> map_state option result" where
  "process fw garbage listing cq counter rh z m =
     (let (z', r) = set_requestid fw garbage (request_id counter) z m in
      (z', rbind r (\<lambda>m1.
         rbind (create_container (rh_container rh)
                  (set_num_mappers (rh_mappers rh) (set_num_reducers (rh_reducers rh) m1))) (\<lambda>m2.
           rbind (create_sharding_data fw z' (listing (m_containername m2)) m2) (\<lambda>om.
              Inr (case om of
                     None \<Rightarrow> None
                   | Some m3 \<Rightarrow>
                       (case get_worker_addresses cq m3 of
                          None \<Rightarrow> None
                        | Some m4 \<Rightarrow> Some (runMapper m4))))))))"

section \<open>Responses\<close>

datatype http_status = HttpOk | HttpBadRequest

record http_response =
  hr_status :: http_status
  hr_headers :: "(string, string) std_map"
  hr_body :: string

definition base_headers :: "(string, string) std_map" where
  "base_headers = map_set ''Content-Type'' ''text/plain'' (map_set ''Content-Length'' ''0''
     (map_set ''Connection'' ''close'' []))"

definition respond :: "http_status \<Rightarrow> string \<Rightarrow> http_response" where
  "respond status body =
     \<lparr>hr_status = status,
      hr_headers = map_set ''Content-Length'' (to_string (int (length body))) base_headers,
      hr_body = body\<rparr>"

text \<open>\<^verbatim>\<open>operator()\<close>: \<open>outcome\<close> is what \<^verbatim>\<open>process\<close> did, the message of an exception or
  the text with the time it took; the refusal is a character array, written with its terminator.\<close>

definition handle_request :: "string \<Rightarrow> string \<Rightarrow> (string + string) \<Rightarrow> http_response" where
  "handle_request http_method dest outcome =
     (if http_method = ''POST'' \<and> find_str ''/upload'' dest \<noteq> None
      then (case outcome of
              Inr body \<Rightarrow> respond HttpOk body
            | Inl err \<Rightarrow> respond HttpBadRequest err)
      else respond HttpBadRequest (''Only path allowed is /upload'' @ [CHR 0x00]))"

section \<open>Query strings are read back\<close>

fun join_queries :: "(string \<times> string) list \<Rightarrow> string" where
  "join_queries [] = []"
| "join_queries [(k, v)] = k @ ''='' @ v"
| "join_queries ((k, v) # kvs) = k @ ''='' @ v @ ''&'' @ join_queries kvs"

text \<open>Characters that need no escaping here.\<close>

definition plain :: "char \<Rightarrow> bool" where
  "plain c \<longleftrightarrow> \<not> is_space c \<and> c \<noteq> CHR ''&'' \<and> c \<noteq> CHR ''=''"

definition plain_query :: "string \<times> string \<Rightarrow> bool" where
  "plain_query kv \<longleftrightarrow> (\<forall>c \<in> set (fst kv) \<union> set (snd kv). plain c)"

lemma split_words_Nil [simp]: "split_words [] = []"
  by (simp add: split_words.simps)

lemma split_words_space: "is_space c \<Longrightarrow> split_words (c # s) = split_words s"
  by (subst (1 2) split_words.simps) simp

lemma split_words_word:
  assumes "w \<noteq> []" "\<forall>c \<in> set w. \<not> is_space c" "s = [] \<or> is_space (hd s)"
  shows "split_words (w @ s) = w # split_words s"
proof -
  have "dropWhile is_space (w @ s) = w @ s" using assms by (cases w) auto
  moreover have "takeWhile (\<lambda>c. \<not> is_space c) (w @ s) = w"
    using assms(2,3) by (cases s) (auto simp: takeWhile_append1 takeWhile_append2)
  moreover have "dropWhile (\<lambda>c. \<not> is_space c) (w @ s) = s"
    using assms(2,3) by (cases s) (auto simp: dropWhile_append2)
  ultimately show ?thesis using assms(1) by (subst split_words.simps) simp
qed

definition query_word :: "string \<times> string \<Rightarrow> string" where
  "query_word kv = fst kv @ ''='' @ snd kv"

abbreviation unamp :: "string \<Rightarrow> string" where
  "unamp s \<equiv> map (\<lambda>c. if c = CHR ''&'' then CHR '' '' else c) s"

lemma unamp_plain: "\<forall>c \<in> set s. plain c \<Longrightarrow> unamp s = s"
  by (induction s) (auto simp: plain_def)

lemma split_join:
  "\<forall>kv \<in> set kvs. plain_query kv \<Longrightarrow>
     split_words (unamp (join_queries kvs)) = map query_word kvs"
proof (induction kvs rule: join_queries.induct)
  case (2 k v)
  then have "unamp (k @ ''='' @ v) = k @ ''='' @ v" by (simp add: unamp_plain plain_query_def)
  moreover have "\<forall>c \<in> set (k @ ''='' @ v). \<not> is_space c"
    using 2 by (auto simp: plain_query_def plain_def is_space_def)
  ultimately show ?case using split_words_word [of "k @ ''='' @ v" "[]"] by (simp add: query_word_def)
next
  case (3 k v kv kvs)
  let ?w = "k @ ''='' @ v" and ?r = "unamp (join_queries (kv # kvs))"
  have "unamp (join_queries ((k, v) # kv # kvs)) = ?w @ CHR '' '' # ?r"
    using 3(2) by (simp add: unamp_plain plain_query_def)
  moreover have "\<forall>c \<in> set ?w. \<not> is_space c"
    using 3(2) by (auto simp: plain_query_def plain_def is_space_def)
  then have "split_words (?w @ CHR '' '' # ?r) = ?w # split_words (CHR '' '' # ?r)"
    by (intro split_words_word) (auto simp: is_space_def)
  ultimately show ?case using 3 by (simp add: split_words_space is_space_def query_word_def)
qed simp

lemma add_query_word:
  assumes "plain_query kv"
  shows "add_query (query_word kv) m = map_set (fst kv) (snd kv) m"
proof -
  have "CHR ''='' \<notin> set (fst kv)" using assms by (auto simp: plain_query_def plain_def)
  then show ?thesis using find_char_append [of "CHR ''=''" "fst kv" "snd kv"]
    by (simp add: add_query_def query_word_def)
qed

lemma fold_add_query:
  "\<forall>kv \<in> set kvs. plain_query kv \<Longrightarrow>
     fold add_query (map query_word kvs) m = fold (\<lambda>kv. map_set (fst kv) (snd kv)) kvs m"
  by (induction kvs arbitrary: m) (simp_all add: add_query_word)

lemma fold_map_set:
  "map_wf m \<Longrightarrow>
     map_find (fold (\<lambda>kv. map_set (fst kv) (snd kv)) kvs m) = map_find m ++ map_of (rev kvs)"
proof (induction kvs arbitrary: m)
  case (Cons kv kvs)
  have "map_find (map_set (fst kv) (snd kv) m) = (map_find m)(fst kv \<mapsto> snd kv)"
    using Cons.prems by (auto simp: fun_eq_iff map_find_set)
  with Cons show ?case by (cases kv) (simp add: map_wf_set map_add_def fun_eq_iff split: option.split)
qed simp

lemma get_queries_join:
  assumes "CHR ''?'' \<notin> set path" "\<forall>kv \<in> set kvs. plain_query kv"
  shows "get_queries (path @ ''?'' @ join_queries kvs) = fold (\<lambda>kv. map_set (fst kv) (snd kv)) kvs []"
proof -
  have "find_char (CHR ''?'') (path @ CHR ''?'' # join_queries kvs) = Some (length path)"
    using assms(1) by (rule find_char_append)
  then show ?thesis
    by (simp add: get_queries_def split_join [OF assms(2)] fold_add_query [OF assms(2)])
qed

text \<open>
  C30: Query strings are read back: for keys and values without separators, the parser returns for
  every key the last value it was given, whatever the path in front, and nothing for other keys.
\<close>

theorem queries_roundtrip:
  assumes "CHR ''?'' \<notin> set path" "\<forall>kv \<in> set kvs. plain_query kv"
  shows "map_find (get_queries (path @ ''?'' @ join_queries kvs)) = map_of (rev kvs)"
  using get_queries_join [OF assms] by (simp add: fold_map_set)

theorem queries_roundtrip_witness:
  "map_find (get_queries (''/upload'' @ ''?'' @ join_queries [(''container'', ''books''), (''m'', ''4''), (''r'', ''2'')])) ''m'' =
    Some ''4''"
proof -
  have "\<forall>kv \<in> set [(''container'', ''books''), (''m'', ''4''), (''r'', ''2'')]. plain_query kv"
    by (simp add: plain_query_def plain_def is_space_def)
  from queries_roundtrip [of "''/upload''", OF _ this] show ?thesis by simp
qed

text \<open>
  Every response carries its own length, whichever branch produced it, only POST requests under
  \<^verbatim>\<open>/upload\<close> are accepted, and an exception in the job becomes a bad request with its message.
\<close>

theorem response_well_formed:
  "map_find (hr_headers (handle_request meth dest outcome)) ''Content-Length'' =
     Some (to_string (int (length (hr_body (handle_request meth dest outcome))))) \<and>
   (hr_status (handle_request meth dest outcome) = HttpOk \<longleftrightarrow>
     meth = ''POST'' \<and> find_str ''/upload'' dest \<noteq> None \<and> (\<exists>body. outcome = Inr body))"
proof -
  have len: "map_find (hr_headers (respond st body)) ''Content-Length'' =
      Some (to_string (int (length (hr_body (respond st body)))))" for st body
    unfolding respond_def base_headers_def by (simp only: http_response.simps map_find_set map_wf_set map_wf_Nil fun_upd_same)
  have "\<exists>st body. handle_request meth dest outcome = respond st body"
    unfolding handle_request_def by (cases outcome) auto
  moreover have "hr_status (respond st body) = st" for st body by (simp add: respond_def)
  then have "hr_status (handle_request meth dest outcome) = HttpOk \<longleftrightarrow>
      meth = ''POST'' \<and> find_str ''/upload'' dest \<noteq> None \<and> (\<exists>body. outcome = Inr body)"
    unfolding handle_request_def by (cases outcome) auto
  ultimately show ?thesis using len by auto
qed

section \<open>From a request to the map phase\<close>

lemma start_repl_thread_keeps:
  assumes "start_repl_thread fw z m = Inr m'"
  shows "m_shards m' = m_shards m" "m_nmappers m' = m_nmappers m" "m_nreducers m' = m_nreducers m"
    "m_rid m' = m_rid m" "m_containername m' = m_containername m"
  using assms by (auto simp: start_repl_thread_def rbind_Inr_iff split: if_splits)

lemma create_sharding_data_keeps:
  assumes "create_sharding_data fw z items m = Inr (Some m')"
  shows "indexed_shards m'" "m_nmappers m' = m_nmappers m" "m_nreducers m' = m_nreducers m"
    "m_rid m' = m_rid m" "m_containername m' = m_containername m"
proof -
  have "indexed_shards m' \<and> m_nmappers m' = m_nmappers m \<and> m_nreducers m' = m_nreducers m \<and>
    m_rid m' = m_rid m \<and> m_containername m' = m_containername m"
  proof (cases "m_dbConnection m = None")
    case True
    with assms show ?thesis by (auto simp: create_sharding_data_def indexed_shards_def)
  next
    case False
    with assms obtain sz shards where s: "shards_of sz items = Some shards"
      "start_repl_thread fw z (m\<lparr>m_shardsz := sz, m_shards := shards\<rparr>) = Inr m'"
      by (auto simp: create_sharding_data_def rbind_Inr_iff Let_def split: option.splits)
    have "fs_shardId (shards ! k) = int k" if "k < length shards" for k
      using that s(1) join_shards_ids [of k _ "[]" "- 1"]
      by (auto simp: shards_of_def getShardId_def split: option.splits)
    with start_repl_thread_keeps [OF s(2)] show ?thesis by (simp add: indexed_shards_def)
  qed
  then show "indexed_shards m'" "m_nmappers m' = m_nmappers m" "m_nreducers m' = m_nreducers m"
    "m_rid m' = m_rid m" "m_containername m' = m_containername m" by blast+
qed

text \<open>
  A request that gets as far as the map phase starts it on a fresh job: the numbers of mappers and
  reducers are those of the query (narrowed to an \<open>int\<close>), the request identifier is the next one, the
  queue holds every shard once, and no result of an earlier job is left.
\<close>

theorem request_starts_job:
  assumes "process fw garbage listing cq counter rh z m = (z', Inr (Some s))"
  shows "\<exists>m4. s = runMapper m4 \<and> indexed_shards m4 \<and> m_rid m4 = counter + 1 \<and>
    m_nmappers m4 = to_int32 (strtol (rh_mappers rh)) \<and> m_nreducers m4 = to_int32 (strtol (rh_reducers rh)) \<and>
    m_containername m4 = rh_container rh \<and>
    ms_job_q s = map int [0..<length (m_shards m4)] \<and> results s = [] \<and> m_IntblobList (ms_master s) = []"
proof -
  obtain r where r: "set_requestid fw garbage (request_id counter) z m = (z', r)"
    using assms by (cases "set_requestid fw garbage (request_id counter) z m") (simp add: process_def)
  from assms r obtain m1 m2 m3 m4 where m1: "r = Inr m1"
    and m2: "create_container (rh_container rh)
      (set_num_mappers (rh_mappers rh) (set_num_reducers (rh_reducers rh) m1)) = Inr m2"
    and m3: "create_sharding_data fw z' (listing (m_containername m2)) m2 = Inr (Some m3)"
    and m4: "get_worker_addresses cq m3 = Some m4" and s: "s = runMapper m4"
    by (auto simp: process_def rbind_Inr_iff Let_def split: option.splits)
  have rid: "m_rid m1 = counter + 1"
    using r m1 by (auto simp: set_requestid_def rbind_Inr_iff request_id_def split: prod.splits)
  have m2': "m_rid m2 = counter + 1" "m_containername m2 = rh_container rh"
    "m_nmappers m2 = to_int32 (strtol (rh_mappers rh))" "m_nreducers m2 = to_int32 (strtol (rh_reducers rh))"
    using m2 rid
    by (auto simp: create_container_def set_num_mappers_def set_num_reducers_def Let_def split: if_splits)
  have "m4 = m3\<lparr>heap := heap m4\<rparr>"
    using m4 by (auto simp: get_worker_addresses_def split: option.splits)
  with create_sharding_data_keeps [OF m3] m2'
  have "indexed_shards m4" "m_rid m4 = counter + 1" "m_containername m4 = rh_container rh"
    "m_nmappers m4 = to_int32 (strtol (rh_mappers rh))" "m_nreducers m4 = to_int32 (strtol (rh_reducers rh))"
    by (auto simp: indexed_shards_def dest: arg_cong [of _ _ m_rid] arg_cong [of _ _ m_shards] arg_cong [of _ _ m_nmappers]
        arg_cong [of _ _ m_nreducers] arg_cong [of _ _ m_containername])
  then show ?thesis using s by (intro exI [of _ m4]) (simp add: runMapper_def start_map_dispatch_def)
qed

section \<open>A request is accepted\<close>

lemma update_workers_frame:
  "update_workers fw garbage z m = (z', Inr m') \<Longrightarrow>
     m_dbConnection m' = m_dbConnection m \<and> repl_clt_thd m' = repl_clt_thd m \<and> m_has_failed m' = m_has_failed m"
  by (intro conjI) (rule registry_onlyD, erule update_workers_registry)+

lemma synchronised_count:
  assumes "synchronised wrkrs getData m m'"
  shows "length (m_ClientMap m') = card (set wrkrs)"
proof -
  have wf: "clients_wf m'" and img: "nodeid_of m' ` set (m_Clients m') = node_path ` set wrkrs"
    using assms by (simp_all add: synchronised_def)
  have "distinct (map fst (m_ClientMap m'))"
    using wf by (auto simp: clients_wf_def map_wf_def strict_sorted_iff)
  then have "length (m_ClientMap m') = card (set (m_Clients m'))"
    using wf distinct_card [of "map fst (m_ClientMap m')"] by (simp add: clients_wf_def)
  also have "\<dots> = card (nodeid_of m' ` set (m_Clients m'))"
    using wf by (subst card_image) (auto simp: clients_wf_def distinct_map)
  also have "\<dots> = card (set wrkrs)" unfolding img by (rule card_image) (simp add: inj_on_def)
  finally show ?thesis .
qed

text \<open>The state in which \<open>process\<close> calls \<open>create_sharding_data\<close>.\<close>

definition prepared :: "int \<Rightarrow> req_handler \<Rightarrow> Master \<Rightarrow> Master" where
  "prepared rid rh m =
     m\<lparr>m_rid := rid, m_nreducers := to_int32 (strtol (rh_reducers rh)),
       m_nmappers := to_int32 (strtol (rh_mappers rh)), m_containername := rh_container rh\<rparr>"

lemma process_prepared:
  assumes "clients_wf m" "\<not> m_has_failed m" "m_dbConnection m \<noteq> None"
    and "z' = snd (cf_create fw False False ''/workers'' [] z)"
    and "cf_getChildren fw ''/workers'' z' = Inr wrkrs" "\<forall>w \<in> set wrkrs. CHR ''/'' \<notin> set w"
  obtains m1 where "synchronised wrkrs (\<lambda>p. cf_getData fw p z') m m1" "m_dbConnection m1 \<noteq> None"
    "repl_clt_thd m1 = repl_clt_thd m" "\<not> m_has_failed m1" "registry_only m m1"
    "process fw garbage listing cq counter rh z m =
      (z', rbind (create_sharding_data fw z' (listing (rh_container rh)) (prepared (request_id counter) rh m1)) (\<lambda>om.
        Inr (case om of None \<Rightarrow> None
             | Some m3 \<Rightarrow> map_option runMapper (get_worker_addresses cq m3))))"
proof -
  obtain m1 where up: "update_workers fw garbage z m = (z', Inr m1)"
    and sy: "synchronised wrkrs (\<lambda>p. cf_getData fw p z') m m1"
    using update_workers_ok [OF assms(1,2,4-6)] by blast
  note fr = update_workers_frame [OF up]
  have co: "create_container (rh_container rh) (set_num_mappers (rh_mappers rh)
      (set_num_reducers (rh_reducers rh) (m1\<lparr>m_rid := request_id counter\<rparr>))) = Inr (prepared (request_id counter) rh m1)"
    using fr assms(3)
    by (simp add: create_container_def set_num_mappers_def set_num_reducers_def prepared_def)
  have "process fw garbage listing cq counter rh z m =
      (z', rbind (create_sharding_data fw z' (listing (rh_container rh)) (prepared (request_id counter) rh m1)) (\<lambda>om.
        Inr (case om of None \<Rightarrow> None
             | Some m3 \<Rightarrow> map_option runMapper (get_worker_addresses cq m3))))"
    using up co
    by (simp add: process_def set_requestid_def map_option_case prepared_def cong: option.case_cong)
  with that [OF sy] fr update_workers_registry [OF up] assms(2,3) show ?thesis by simp
qed

lemma create_sharding_data_ok:
  assumes "m_dbConnection m \<noteq> None" "total_bytes items < 2 ^ 24" "0 < m_nmappers m" "m_nmappers m < 2 ^ 24"
    and "\<forall>(nm, k) \<in> set (blobs_of items). 0 < k" "blobs_of items \<noteq> []"
    and "\<not> m_has_failed m" "cf_getChildren fw ''/masters'' z = Inr masters"
  obtains sz shards where "length shards \<le> nat (m_nmappers m)"
    "length shards = ceil_div (total_bytes items) (ceil_div (total_bytes items) (nat (m_nmappers m)))"
    "shards_of sz items = Some shards" "0 < sz" "fits_size_t sz items"
    "create_sharding_data fw z items m =
      (if length masters > 1 \<and> repl_clt_thd m then Inl Terminate
       else Inr (Some (m\<lparr>m_shardsz := sz, m_shards := shards, repl_clt_thd := (repl_clt_thd m \<or> length masters > 1)\<rparr>)))"
proof -
  obtain sz shards where sh: "calc_shard_sz items (m_nmappers m) = Inr sz" "shards_of sz items = Some shards"
    "length shards \<le> nat (m_nmappers m)" "0 < sz" "fits_size_t sz items"
    "length shards = ceil_div (total_bytes items) (ceil_div (total_bytes items) (nat (m_nmappers m)))"
    using few_shards [OF assms(2-6)] by metis
  let ?m = "m\<lparr>m_shardsz := sz, m_shards := shards\<rparr>"
  have "create_sharding_data fw z items m = rbind (start_repl_thread fw z ?m) (\<lambda>m2. Inr (Some m2))"
    using sh(1,2) assms(1) by (auto simp: create_sharding_data_def Let_def)
  moreover have "start_repl_thread fw z ?m =
      (if length masters > 1 \<and> repl_clt_thd m then Inl Terminate
       else Inr (?m\<lparr>repl_clt_thd := (repl_clt_thd m \<or> length masters > 1)\<rparr>))"
    using assms(7,8) by (cases "repl_clt_thd m") (simp_all add: start_repl_thread_def doesReplMasterExists_def)
  ultimately have "create_sharding_data fw z items m =
      (if length masters > 1 \<and> repl_clt_thd m then Inl Terminate
       else Inr (Some (?m\<lparr>repl_clt_thd := (repl_clt_thd m \<or> length masters > 1)\<rparr>)))"
    by simp
  with that sh show ?thesis by blast
qed

text \<open>The job a well-formed request starts.\<close>

lemma process_job:
  assumes "clients_wf m" "\<not> m_has_failed m" "m_dbConnection m \<noteq> None"
    and "z' = snd (cf_create fw False False ''/workers'' [] z)"
    and "cf_getChildren fw ''/workers'' z' = Inr wrkrs" "\<forall>w \<in> set wrkrs. CHR ''/'' \<notin> set w"
    and "n = strtol (rh_mappers rh)" "0 < n" "n < 2 ^ 24"
    and "items = listing (rh_container rh)" "total_bytes items < 2 ^ 24"
    and "\<forall>(nm, k) \<in> set (blobs_of items). 0 < k" "blobs_of items \<noteq> []"
    and "card (set wrkrs) \<le> length answers" "cf_getChildren fw ''/masters'' z' = Inr masters"
    and "length masters \<le> 1 \<or> \<not> repl_clt_thd m"
  obtains m4 sz where
    "process fw garbage listing (map NextCall answers) counter rh z m = (z', Inr (Some (runMapper m4)))"
    "shards_of sz items = Some (m_shards m4)" "0 < sz" "fits_size_t sz items" "length (m_shards m4) \<le> nat n"
    "length (m_shards m4) = ceil_div (total_bytes items) (ceil_div (total_bytes items) (nat n))"
    "m_nmappers m4 = n" "m_nreducers m4 = to_int32 (strtol (rh_reducers rh))"
    "nodeid_of m4 ` set (m_Clients m4) = node_path ` set wrkrs"
    "repl_clt_thd m4 \<longleftrightarrow> repl_clt_thd m \<or> length masters > 1"
    "m_will_fail m4 = m_will_fail m" "\<not> m_has_failed m4" "g_repl_list m4 = g_repl_list m"
proof -
  obtain m1 where sy: "synchronised wrkrs (\<lambda>p. cf_getData fw p z') m m1"
    and m1: "m_dbConnection m1 \<noteq> None" "repl_clt_thd m1 = repl_clt_thd m" "\<not> m_has_failed m1" "registry_only m m1"
    and pr: "process fw garbage listing (map NextCall answers) counter rh z m =
      (z', rbind (create_sharding_data fw z' (listing (rh_container rh)) (prepared (request_id counter) rh m1)) (\<lambda>om.
        Inr (case om of None \<Rightarrow> None
             | Some m3 \<Rightarrow> map_option runMapper (get_worker_addresses (map NextCall answers) m3))))"
    by (rule process_prepared [OF assms(1-6)])
  let ?m2 = "prepared (request_id counter) rh m1" and ?thd = "repl_clt_thd m \<or> length masters > 1"
  have m2: "m_dbConnection ?m2 \<noteq> None" "m_nmappers ?m2 = n" "repl_clt_thd ?m2 = repl_clt_thd m" "\<not> m_has_failed ?m2"
    "m_ClientMap ?m2 = m_ClientMap m1" "m_Clients ?m2 = m_Clients m1"
    "m_nreducers ?m2 = to_int32 (strtol (rh_reducers rh))" "m_will_fail ?m2 = m_will_fail m" "g_repl_list ?m2 = g_repl_list m"
    using m1 assms(7,8,9) registry_onlyD(4,13) [OF m1(4)] by (simp_all add: prepared_def to_int32_id)
  obtain sz shards where sh: "length shards \<le> nat n" "shards_of sz items = Some shards" "0 < sz" "fits_size_t sz items"
    "length shards = ceil_div (total_bytes items) (ceil_div (total_bytes items) (nat n))"
    and cr: "create_sharding_data fw z' items ?m2 =
      Inr (Some (?m2\<lparr>m_shardsz := sz, m_shards := shards, repl_clt_thd := ?thd\<rparr>))"
  proof (rule create_sharding_data_ok [OF m2(1) assms(11) _ _ assms(12,13) m2(4) assms(15)])
    fix shards sz
    assume sh: "length shards \<le> nat (m_nmappers ?m2)"
      "length shards = ceil_div (total_bytes items) (ceil_div (total_bytes items) (nat (m_nmappers ?m2)))"
      "shards_of sz items = Some shards" "0 < sz" "fits_size_t sz items"
      and cr: "create_sharding_data fw z' items ?m2 =
      (if length masters > 1 \<and> repl_clt_thd ?m2 then Inl Terminate
       else Inr (Some (?m2\<lparr>m_shardsz := sz, m_shards := shards, repl_clt_thd := (repl_clt_thd ?m2 \<or> length masters > 1)\<rparr>)))"
    have "\<not> (length masters > 1 \<and> repl_clt_thd ?m2)" using assms(16) m2(3) by auto
    with cr that [of shards sz] sh show ?thesis unfolding m2(2,3) by simp
  qed (use m2(2) assms(8,9) in simp_all)
  obtain h where h: "AsyncCompleteExchangeRpc (map NextCall answers) (length (m_ClientMap m1)) (heap ?m2) = Some h"
    using exchange.loop_returns [of "length (m_ClientMap m1)" answers] synchronised_count [OF sy] assms(14)
    by (auto simp: AsyncCompleteExchangeRpc_def)
  let ?m4 = "?m2\<lparr>m_shardsz := sz, m_shards := shards, repl_clt_thd := ?thd, heap := h\<rparr>"
  have "process fw garbage listing (map NextCall answers) counter rh z m = (z', Inr (Some (runMapper ?m4)))"
    using pr cr h m2 assms(10) by (simp add: get_worker_addresses_def)
  moreover have "nodeid_of ?m4 ` set (m_Clients ?m4) = node_path ` set wrkrs"
    using sy m2 by (simp add: synchronised_def nodeid_of_def)
  ultimately show ?thesis using sh m2 by (intro that [of ?m4 sz]) simp_all
qed

lemma process_accepts:
  assumes "clients_wf m" "\<not> m_has_failed m" "m_dbConnection m \<noteq> None"
    and "z' = snd (cf_create fw False False ''/workers'' [] z)"
    and "cf_getChildren fw ''/workers'' z' = Inr wrkrs" "\<forall>w \<in> set wrkrs. CHR ''/'' \<notin> set w"
    and "n = strtol (rh_mappers rh)" "0 < n" "n < 2 ^ 24"
    and "items = listing (rh_container rh)" "total_bytes items < 2 ^ 24"
    and "\<forall>(nm, k) \<in> set (blobs_of items). 0 < k" "blobs_of items \<noteq> []"
    and "card (set wrkrs) \<le> length answers" "cf_getChildren fw ''/masters'' z' = Inr masters"
    and "length masters \<le> 1 \<or> \<not> repl_clt_thd m"
  shows "\<exists>s. process fw garbage listing (map NextCall answers) counter rh z m = (z', Inr (Some s)) \<and>
    length (ms_job_q s) \<le> nat n \<and>
    nodeid_of (ms_master s) ` set (m_Clients (ms_master s)) = node_path ` set wrkrs \<and>
    (repl_clt_thd (ms_master s) \<longleftrightarrow> repl_clt_thd m \<or> length masters > 1)"
proof -
  obtain m4 sz where "process fw garbage listing (map NextCall answers) counter rh z m = (z', Inr (Some (runMapper m4)))"
    "length (m_shards m4) \<le> nat n" "nodeid_of m4 ` set (m_Clients m4) = node_path ` set wrkrs"
    "repl_clt_thd m4 \<longleftrightarrow> repl_clt_thd m \<or> length masters > 1"
    by (rule process_job [where listing = listing and rh = rh, OF assms])
  then show ?thesis
    by (intro exI [of _ "runMapper m4"]) (simp add: runMapper_def start_map_dispatch_def nodeid_of_def)
qed

text \<open>
  A request with a reasonable number of mappers is accepted: on a live master with a storage
  connection and no replication thread of an earlier job, over an input of less than 16 MiB without
  empty blobs, no exception is thrown, the cutting loop ends, and once every registered worker has
  answered the address exchange the map phase starts with at most one task per mapper and one client
  per registered worker. The replication thread runs when there is a second master.
\<close>

theorem request_accepted:
  assumes "clients_wf m" "\<not> m_has_failed m" "m_dbConnection m \<noteq> None"
    and "z' = snd (cf_create fw False False ''/workers'' [] z)"
    and "cf_getChildren fw ''/workers'' z' = Inr wrkrs" "\<forall>w \<in> set wrkrs. CHR ''/'' \<notin> set w"
    and "n = strtol (rh_mappers rh)" "0 < n" "n < 2 ^ 24"
    and "items = listing (rh_container rh)" "total_bytes items < 2 ^ 24"
    and "\<forall>(nm, k) \<in> set (blobs_of items). 0 < k" "blobs_of items \<noteq> []"
    and "card (set wrkrs) \<le> length answers" "cf_getChildren fw ''/masters'' z' = Inr masters"
    and "length masters \<le> 1 \<or> \<not> repl_clt_thd m"
  shows "\<exists>s. process fw garbage listing (map NextCall answers) counter rh z m = (z', Inr (Some s)) \<and>
    length (ms_job_q s) \<le> nat n \<and>
    nodeid_of (ms_master s) ` set (m_Clients (ms_master s)) = node_path ` set wrkrs \<and>
    (repl_clt_thd (ms_master s) \<longleftrightarrow> repl_clt_thd m \<or> length masters > 1)"
  using assms by (rule process_accepts)


text \<open>The request for a job with \<open>n\<close> mappers and \<open>k\<close> reducers.\<close>

definition upload_dest :: "string \<Rightarrow> int \<Rightarrow> int \<Rightarrow> string" where
  "upload_dest container n k =
     ''/upload?container='' @ container @ ''&m='' @ to_string n @ ''&r='' @ to_string k"

lemma digit_plain: "is_digit c \<Longrightarrow> plain c"
  by (auto simp: is_digit_def plain_def is_space_def)

lemma to_string_plain: "0 \<le> i \<Longrightarrow> \<forall>c \<in> set (to_string i). plain c"
  using nat_to_string_digits digit_plain by (simp add: to_string_def)

lemma new_req_handler_upload:
  assumes "\<forall>c \<in> set container. plain c" "0 \<le> n" "0 \<le> k"
  shows "new_req_handler (upload_dest container n k) =
    \<lparr>rh_container = container, rh_mappers = to_string n, rh_reducers = to_string k\<rparr>"
proof -
  let ?kvs = "[(''container'', container), (''m'', to_string n), (''r'', to_string k)]"
  have "get_queries (''/upload'' @ ''?'' @ join_queries ?kvs) = fold (\<lambda>kv. map_set (fst kv) (snd kv)) ?kvs []"
    by (rule get_queries_join) (use assms to_string_plain in \<open>simp_all add: plain_query_def, simp_all add: plain_def is_space_def\<close>)
  moreover have d: "''/upload'' @ ''?'' @ join_queries ?kvs = upload_dest container n k" by (simp add: upload_dest_def)
  ultimately have "get_queries (upload_dest container n k) = ?kvs" by simp
  moreover have "find_str ''/upload'' (upload_dest container n k) = Some 0"
    using find_str_prefix [of "''/upload''"] d by metis
  ultimately show ?thesis by (simp add: new_req_handler_def query_or_empty_def)
qed

definition demo_live_leader :: Master where
  "demo_live_leader = (new_Master 0 (\<lambda>_. new_MapReduceClient [] PING_FAIL))\<lparr>m_dbConnection := Some ''storage''\<rparr>"

definition demo_workers :: "(string \<times> string) list" where
  "demo_workers = [(''/workers'', []), (''/workers/worker_1'', ''10.0.0.1:50051''),
     (''/masters/master_1'', ''10.0.0.2:5050''), (''/masters/master_2'', ''10.0.0.3:5050'')]"

definition demo_upload :: req_handler where
  "demo_upload = new_req_handler ''/upload?container=books&m=3&r=2''"

lemma demo_upload_eq:
  "demo_upload = \<lparr>rh_container = ''books'', rh_mappers = ''3'', rh_reducers = ''2''\<rparr>"
proof -
  have n: "to_string 3 = ''3''" "to_string 2 = ''2''" by code_simp+
  have "new_req_handler (upload_dest ''books'' 3 2) = \<lparr>rh_container = ''books'', rh_mappers = ''3'', rh_reducers = ''2''\<rparr>"
    using new_req_handler_upload [of "''books''" 3 2] by (simp add: plain_def is_space_def n)
  then show ?thesis by (simp add: demo_upload_def upload_dest_def n)
qed

lemmas demo_request_simps =
  demo_live_leader_def new_Master_def clients_wf_def demo_workers_def demo_zk_def
  strtol_def parse_long_def is_space_def is_digit_def digits_val_def digit_val_def total_bytes_def

theorem request_accepted_witness:
  "\<exists>s. process demo_zk (\<lambda>_. PING_FAIL) (\<lambda>_. [BlobItem ''a'' 10])
      (map NextCall [(ClientPtr 0, 0, ''10.0.0.1:50052'')]) (- 1) demo_upload demo_workers demo_live_leader =
    (demo_workers, Inr (Some s)) \<and> length (ms_job_q s) \<le> nat 3 \<and>
    nodeid_of (ms_master s) ` set (m_Clients (ms_master s)) = node_path ` set [''worker_1''] \<and>
    (repl_clt_thd (ms_master s) \<longleftrightarrow> repl_clt_thd demo_live_leader \<or> length [''master_1'', ''master_2''] > 1)"
  unfolding demo_upload_eq
  by (rule request_accepted [where items = "[BlobItem ''a'' 10]"]) (simp_all add: demo_request_simps)

lemma demo_request_run:
  "\<exists>s. process demo_zk (\<lambda>_. PING_FAIL) (\<lambda>_. [BlobItem ''a'' 10])
      (map NextCall [(ClientPtr 0, 0, ''10.0.0.1:50052'')]) (- 1) demo_upload demo_workers demo_live_leader =
    (demo_workers, Inr (Some s)) \<and> length (ms_job_q s) \<le> nat 3 \<and>
    nodeid_of (ms_master s) ` set (m_Clients (ms_master s)) = node_path ` set [''worker_1''] \<and>
    (repl_clt_thd (ms_master s) \<longleftrightarrow> repl_clt_thd demo_live_leader \<or> length [''master_1'', ''master_2''] > 1)"
  unfolding demo_upload_eq
  by (rule process_accepts [where items = "[BlobItem ''a'' 10]"]) (simp_all add: demo_request_simps)

theorem request_starts_job_witness:
  "\<exists>s m4. process demo_zk (\<lambda>_. PING_FAIL) (\<lambda>_. [BlobItem ''a'' 10])
      (map NextCall [(ClientPtr 0, 0, ''10.0.0.1:50052'')]) (- 1) demo_upload demo_workers demo_live_leader =
    (demo_workers, Inr (Some s)) \<and>
   s = runMapper m4 \<and> m_rid m4 = 0 \<and> m_nmappers m4 = to_int32 (strtol (rh_mappers demo_upload))"
proof -
  obtain s where s: "process demo_zk (\<lambda>_. PING_FAIL) (\<lambda>_. [BlobItem ''a'' 10])
      (map NextCall [(ClientPtr 0, 0, ''10.0.0.1:50052'')]) (- 1) demo_upload demo_workers demo_live_leader =
    (demo_workers, Inr (Some s))" using demo_request_run by blast
  from request_starts_job [OF this] s show ?thesis by auto
qed


end
