(* ===== verification/Failover.thy ===== *)
theory Failover
  imports Replication WordCountJob RequestHandler
begin

text \<open>
  A job across two masters: the leader works, its checkpoint reaches the second master, the leader dies
  at any later moment, and the second master takes the job over (\<^verbatim>\<open>processReplicatedData\<close> of
  \<^verbatim>\<open>w7/src/master/masterimpl.cc\<close>) and finishes it. The first part shows that the copies the leader
  keeps for the replica (\<^verbatim>\<open>g_repl_list\<close>) are at every moment of its map phase answers of workers, at
  most one per shard; the second follows the new leader to the output.
\<close>

section \<open>The copies of the leader\<close>

text \<open>A successful answer that is queued for the dispatcher and not yet copied.\<close>

definition pending_copy :: "map_state \<Rightarrow> MapperResult list" where
  "pending_copy s =
     (case ms_tpc s of
        Pushed (c, code, reply) \<Rightarrow> (if status_ok code then [map_result c reply] else [])
      | _ \<Rightarrow> [])"

definition copies :: "map_state \<Rightarrow> MapperResult list" where
  "copies s = g_repl_list (ms_master s) @ pending_copy s"

definition copies_inv :: "(MapperResult \<Rightarrow> bool) \<Rightarrow> map_state \<Rightarrow> bool" where
  "copies_inv good s \<longleftrightarrow>
     mset (map mr_shardId (copies s)) =
       mset (map fst (results s)) + mset (map mr_shardId (filter (\<lambda>r. mr_status r = SUCCESS) (ms_responseList s))) \<and>
     (\<forall>r \<in> set (copies s). successful r \<and> good r)"

lemma map_result_copy:
  "successful (map_result c reply)" "mr_status (map_result c reply) = SUCCESS" "mr_shardId (map_result c reply) = mc_shardId c"
  by (simp_all add: map_result_def successful_def)

lemma check_fail_copies [simp]: "g_repl_list (task_assigned_check_fail m) = g_repl_list m"
  by (simp add: cpp_defs)

lemma copies_drain:
  assumes "counting_inv ids s" "ms_responseList s \<noteq> []" "copies_inv good s"
  shows "copies_inv good (process_map_response s)"
proof -
  obtain r rs where rs: "ms_responseList s = r # rs" using assms(2) by (cases "ms_responseList s") auto
  have fresh: "map_find (results s) (mr_shardId r) = None" by (rule response_fresh [OF assms(1)]) (simp add: rs)
  have "map_wf (results s)" using assms(1) by (simp add: counting_inv_def)
  then have keys: "mset (map fst (map_emplace (mr_shardId r) r (results s))) = add_mset (mr_shardId r) (mset (map fst (results s)))"
    using fresh by (rule keys_mset_emplace)
  have "copies (process_map_response s) = copies s"
    by (simp add: copies_def pending_copy_def process_map_response_def Let_def)
  with assms(3) fresh keys show ?thesis unfolding copies_inv_def
    by (cases "mr_status r = SUCCESS") (simp_all add: process_map_response_def rs Let_def)
qed

lemma copies_step:
  assumes step: "map_step answers s t" and inv: "map_inv m0 ids answers good s"
    and "card ids = unsigned_of_int (m_nmappers m0)" "copies_inv good s"
  shows "copies_inv good t"
  using step inv assms(4)
proof (induction rule: map_step.induct)
  case (drain s)
  then show ?case using copies_drain [of ids s good] by (simp add: map_inv_def)
next
  case (clear s)
  have ci: "counting_inv ids s" and nm: "m_nmappers (ms_master s) = m_nmappers m0"
    using clear by (simp_all add: map_inv_def same_job_def)
  have "card ids \<le> length (results s)" using ci clear(1) assms(3) nm by (simp add: counting_inv_def)
  with clear show ?case
    using done_outstanding [OF ci] by (auto simp: copies_inv_def copies_def pending_copy_def map_inv_def)
next
  case (push s r)
  obtain c code reply where r: "r = (c, code, reply)" by (cases r)
  have "map_call m0 c \<and> answers c code reply" "good_answers m0 answers good"
    using push r by (auto simp: map_inv_def results_inv_def)
  then have "status_ok code \<Longrightarrow> good (map_result c reply)" by (auto simp: good_answers_def)
  with push show ?case
    by (auto simp: r copies_inv_def copies_def pending_copy_def push_map_response_def map_result_copy map_result_def [symmetric])
next
  case (finish_call s r)
  then show ?case
    by (cases r) (auto simp: copies_inv_def copies_def pending_copy_def record_map_success_def Let_def map_result_def)
qed (auto simp: copies_inv_def copies_def pending_copy_def send_map_task_def test_map_done_def Let_def split: prod.splits)

lemma leader_inv:
  assumes "indexed_shards m" "good_answers m answers good" "unsigned_of_int (m_nmappers m) = length (m_shards m)"
    and "g_repl_list m = []" "(map_step answers)\<^sup>*\<^sup>* (runMapper m) s"
  shows "map_inv (cleared m) (int ` {0..<length (m_shards m)}) answers good s \<and> copies_inv good s"
  using assms(5)
proof (induction rule: rtranclp_induct)
  case base
  show ?case
    using runMapper_inv [OF assms(1,2)] assms(3,4)
    by (simp add: copies_inv_def copies_def pending_copy_def runMapper_def start_map_dispatch_def)
next
  case (step s t)
  then show ?case
    using copies_step [OF step(2)] map_refines.inv_step [OF _ step(2)] assms(3) by (auto simp: card_image)
qed

text \<open>At every moment of its map phase the leader's copies are results of different shards of the job.\<close>

lemma leader_copies:
  assumes "indexed_shards m" "good_answers m answers good" "unsigned_of_int (m_nmappers m) = length (m_shards m)"
    and "g_repl_list m = []" "(map_step answers)\<^sup>*\<^sup>* (runMapper m) s"
  shows "distinct (map mr_shardId (g_repl_list (ms_master s)))"
    "\<forall>r \<in> set (g_repl_list (ms_master s)). shard_index m (mr_shardId r) \<and> good r"
    "\<forall>r \<in> set (g_repl_list (ms_master s)). successful r"
    "same_job m s"
proof -
  let ?ids = "int ` {0..<length (m_shards m)}"
  have inv: "map_inv (cleared m) ?ids answers good s" "copies_inv good s"
    using leader_inv [OF assms] by blast+
  have "mset (map mr_shardId (copies s)) \<subseteq># pool_total (map_pool s)"
    using inv(2) by (auto simp: copies_inv_def pool_total_def map_pool_def intro!: subset_mset.add_increasing image_mset_subseteq_mono)
  also have "pool_total (map_pool s) = mset_set ?ids" using inv(1) by (simp add: map_inv_def counting_inv_def)
  finally have sub: "mset (map mr_shardId (copies s)) \<subseteq># mset_set ?ids" .
  have "count (mset (map mr_shardId (copies s))) i \<le> 1" for i
    using mset_subset_eq_count [OF sub, of i] by (auto simp: count_mset_set' split: if_splits)
  then have "distinct (map mr_shardId (copies s))"
    by (metis distinct_count_atmost_1 count_eq_zero_iff le_less not_in_iff less_one set_mset_mset)
  then show "distinct (map mr_shardId (g_repl_list (ms_master s)))" by (simp add: copies_def)
  have "mr_shardId r \<in> ?ids" if "r \<in> set (copies s)" for r
    using mset_subset_eqD [OF sub, of "mr_shardId r"] that by auto
  moreover have "\<forall>i \<in> ?ids. shard_index m i" using assms(1) by (auto simp: shard_index_def indexed_shards_def)
  ultimately have "\<forall>r \<in> set (copies s). shard_index m (mr_shardId r)" by blast
  then show "\<forall>r \<in> set (g_repl_list (ms_master s)). shard_index m (mr_shardId r) \<and> good r"
    using inv(2) by (simp add: copies_inv_def copies_def)
  show "\<forall>r \<in> set (g_repl_list (ms_master s)). successful r" using inv(2) by (auto simp: copies_inv_def copies_def)
  show "same_job m s" using inv(1) by (simp add: map_inv_def same_job_def)
qed

section \<open>The new leader\<close>

text \<open>What the new leader knows when its map dispatch starts. It updates its registry and exchanges
  addresses before, which leaves the job alone.\<close>

lemma read_jobs_container:
  "m_intcontainer (fold read_job (map job_status_of rs) m) = (if rs = [] then m_intcontainer m else mr_cname (last rs))"
  by (induction rs rule: rev_induct) (simp_all add: read_job_def job_status_of_def Let_def)

definition has_job :: "Master \<Rightarrow> Master \<Rightarrow> bool" where
  "has_job leader m \<longleftrightarrow>
     m_shards m = m_shards leader \<and> m_nmappers m = m_nmappers leader \<and> map_wf (m_IntermediateResultMap m) \<and>
     map_find (m_IntermediateResultMap m) = map_of (map (\<lambda>r. (mr_shardId r, r)) (g_repl_list leader)) \<and>
     m_IntblobList m = concat (map mr_blobList (g_repl_list leader)) \<and>
     m_nreducers m = m_nreducers leader \<and> m_rid m = m_rid leader \<and>
     (g_repl_list leader \<noteq> [] \<longrightarrow> m_intcontainer m = mr_cname (last (g_repl_list leader)))"

lemma has_job_received:
  assumes "\<forall>s \<in> set (m_shards leader). shard_wire_safe s" "\<forall>r \<in> set (g_repl_list leader). successful r"
  shows "has_job leader (PushJobStatus leader 0 follower)"
proof -
  have "m_nreducers (fold read_job js m) = m_nreducers m \<and> m_rid (fold read_job js m) = m_rid m" for js m
    by (induction js arbitrary: m) (simp_all add: read_job_def Let_def)
  then show ?thesis
    using takeover_fields [OF assms, of follower] read_jobs_container [of "g_repl_list leader"]
    by (simp add: has_job_def PushJobStatus_def pushCheckPointData_def deserialize_data_def serialize_data_def Let_def)
qed

lemma has_job_registry: "has_job leader m \<Longrightarrow> registry_only m m' \<Longrightarrow> has_job leader m'"
  using registry_onlyD [of m m'] by (simp add: has_job_def)

lemma exchange_registry: "get_worker_addresses cq m = Some m' \<Longrightarrow> registry_only m m'"
  by (auto simp: get_worker_addresses_def registry_only_def other_fields_def split: option.splits)

lemma takeover_starts:
  assumes "processReplicatedData fw garbage cq z m = (z', Inr (Some s0))" "has_job leader m"
  obtains m2 where "s0 = start_map_dispatch (replicated_jobs m2) m2" "has_job leader m2" "registry_only m m2"
proof -
  obtain m1 m2 where "update_workers fw garbage z m = (z', Inr m1)" "get_worker_addresses cq m1 = Some m2"
    "s0 = start_map_dispatch (replicated_jobs m2) m2"
    using assms(1) by (auto simp: processReplicatedData_def rbind_Inr_iff split: prod.splits option.splits)
  then have r: "registry_only m m2" "s0 = start_map_dispatch (replicated_jobs m2) m2"
    using update_workers_registry exchange_registry by (auto simp: registry_only_def)
  with that show ?thesis using has_job_registry [OF assms(2)] by blast
qed

text \<open>The new leader's map dispatch, for copies that are results of different shards.\<close>

lemma takeover_map_result:
  assumes job: "has_job leader m" and run: "(map_step answers)\<^sup>*\<^sup>* (start_map_dispatch (replicated_jobs m) m) t"
    and ix: "indexed_shards leader" "unsigned_of_int (m_nmappers leader) = length (m_shards leader)"
    and cp: "distinct (map mr_shardId (g_repl_list leader))"
      "\<forall>r \<in> set (g_repl_list leader). shard_index leader (mr_shardId r) \<and> good r"
    and ga: "good_answers m answers good" and ret: "ms_pc t = Returned"
  shows "map fst (results t) = map int [0..<length (m_shards leader)]"
    "\<forall>(i, r) \<in> set (results t). mr_shardId r = i \<and> good r"
    "mset (m_IntblobList (ms_master t)) = (\<Sum>(i, r) \<leftarrow> results t. mset (mr_blobList r))"
    "results t \<noteq> [] \<Longrightarrow> m_intcontainer (ms_master t) \<in> (\<lambda>e. mr_cname (snd e)) ` set (results t)"
    "m_nreducers (ms_master t) = m_nreducers leader" "m_Clients (ms_master t) = m_Clients m"
proof -
  have f: "m_shards m = m_shards leader" "m_nmappers m = m_nmappers leader" "map_wf (m_IntermediateResultMap m)"
    "map_find (m_IntermediateResultMap m) = map_of (map (\<lambda>r. (mr_shardId r, r)) (g_repl_list leader))"
    "m_IntblobList m = concat (map mr_blobList (g_repl_list leader))"
    using job by (simp_all add: has_job_def)
  have n: "unsigned_of_int (m_nmappers m) = length (m_shards leader)" using f(2) ix(2) by simp
  have inv: "map_inv m (int ` {0..<length (m_shards leader)}) answers good t"
    by (rule takeover_result [OF f ix(1) cp ix(2) ga run])
  from dispatch_result [OF this n ret]
  show "map fst (results t) = map int [0..<length (m_shards leader)]"
    "\<forall>(i, r) \<in> set (results t). mr_shardId r = i \<and> good r"
    "mset (m_IntblobList (ms_master t)) = (\<Sum>(i, r) \<leftarrow> results t. mset (mr_blobList r))"
    by blast+
  show "m_nreducers (ms_master t) = m_nreducers leader" "m_Clients (ms_master t) = m_Clients m"
    using inv job by (simp_all add: map_inv_def same_job_def has_job_def)
  have "m_intcontainer m \<in> (\<lambda>e. mr_cname (snd e)) ` set (m_IntermediateResultMap m)" if "m_IntermediateResultMap m \<noteq> []"
  proof -
    let ?rs = "g_repl_list leader" and ?kvs = "map (\<lambda>r. (mr_shardId r, r)) (g_repl_list leader)"
    have "?rs \<noteq> []" using that f(4) by (cases "m_IntermediateResultMap m") (auto dest: fun_cong [of _ _ "fst (hd (m_IntermediateResultMap m))"])
    moreover from this have "map_of ?kvs (mr_shardId (last ?rs)) = Some (last ?rs)"
      using cp(1) by (intro map_of_is_SomeI) (simp_all add: comp_def)
    then have "(mr_shardId (last ?rs), last ?rs) \<in> set (m_IntermediateResultMap m)"
      using f(4) map_of_SomeD by metis
    ultimately show ?thesis using job by (force simp: has_job_def)
  qed
  then show "m_intcontainer (ms_master t) \<in> (\<lambda>e. mr_cname (snd e)) ` set (results t)" if "results t \<noteq> []"
    using container_run [OF run] that by (simp add: start_map_dispatch_def)
qed

section \<open>A job that survives its leader\<close>

text \<open>A run of a job with a change of leader: the map tasks of both leaders run on the workers; the first
  leader is somewhere in its map phase when the checkpoint that reaches the follower is taken; the
  follower takes over, finishes the map phase and runs the reduce phase. What the first leader did
  after the checkpoint shows in the storage only.\<close>

definition failover_run ::
    "'b Storage \<Rightarrow> (string \<Rightarrow> size_t) \<Rightarrow> string \<Rightarrow> 'z Conservator \<Rightarrow> (client_ptr \<Rightarrow> PingStatus) \<Rightarrow>
     (client_ptr \<times> int \<times> string) next_event list \<Rightarrow> 'z \<Rightarrow> Master \<Rightarrow> Master \<Rightarrow> 'b \<Rightarrow> 'b \<Rightarrow> bool" where
  "failover_run st hash container fw garbage cq z m follower b0 b2 \<longleftrightarrow>
     (\<exists>b1 log s z' s0 t rlog u. map_history st hash py_mapfunc container m b0 b1 log \<and>
        (map_step (logged_answers log))\<^sup>*\<^sup>* (runMapper m) s \<and>
        processReplicatedData fw garbage cq z (PushJobStatus (ms_master s) 0 follower) = (z', Inr (Some s0)) \<and>
        (map_step (logged_answers log))\<^sup>*\<^sup>* s0 t \<and> ms_pc t = Returned \<and>
        reduce_history st hash py_reducefunc container (ms_master t) b1 b2 rlog \<and>
        (reduce_step (reduce_logged rlog))\<^sup>*\<^sup>* (runReducer (ms_master t)) u \<and> rs_pc u = RReturned)"

lemma shards_wire_safe:
  assumes "countable_input download content items" "0 < shard_sz" "fits_size_t shard_sz items"
    and "shards_of shard_sz items = Some shards"
  shows "\<forall>f \<in> set shards. shard_wire_safe f"
  using piece_of_blob(3) [OF assms] by (simp add: shard_wire_safe_def)

text \<open>What the follower has after its map phase.\<close>

lemma failover_map_phase:
  assumes st: "storage_works st"
    and inp: "countable_input (st_range st container b0) content items" "0 < shard_sz" "fits_size_t shard_sz items"
      "shards_of shard_sz items = Some (m_shards m)"
    and m: "unsigned_of_int (m_nmappers m) = length (m_shards m)" "0 < length (m_shards m)"
      "0 < m_nreducers m" "m_nreducers m < 2 ^ 31" "g_repl_list m = []"
    and hist: "map_history st hash py_mapfunc container m b0 b1 log"
      "(map_step (logged_answers log))\<^sup>*\<^sup>* (runMapper m) s"
    and take: "processReplicatedData fw garbage cq z (PushJobStatus (ms_master s) 0 follower) = (z', Inr (Some s0))"
      "(map_step (logged_answers log))\<^sup>*\<^sup>* s0 t" "ms_pc t = Returned"
  shows "\<exists>a. map_phase_stored st hash py_mapfunc container m (st_range st container b0) b1 a (m_IntblobList (ms_master t))"
    "m_intcontainer (ms_master t) = container @ ''int''" "m_nreducers (ms_master t) = m_nreducers m"
proof -
  let ?leader = "ms_master s"
  have ix: "indexed_shards m" by (rule shards_of_indexed [OF inp(4)])
  note cp = leader_copies [OF ix logged_good m(1,5) hist(2)]
  have l: "m_shards ?leader = m_shards m" "m_nmappers ?leader = m_nmappers m" "m_nreducers ?leader = m_nreducers m"
    using cp(4) by (simp_all add: same_job_def)
  have job: "has_job ?leader (PushJobStatus ?leader 0 follower)"
    by (rule has_job_received) (use shards_wire_safe [OF inp] l(1) cp(3) in simp_all)
  obtain m2 where m2: "s0 = start_map_dispatch (replicated_jobs m2) m2" "has_job ?leader m2"
    using takeover_starts [OF take(1) job] by metis
  have copies: "\<forall>r \<in> set (g_repl_list ?leader). shard_index ?leader (mr_shardId r) \<and> from_log log r"
    using cp(2) l(1) by (simp add: shard_index_def)
  note res = takeover_map_result [OF m2(2) take(2) [unfolded m2(1)] _ _ cp(1) copies logged_good take(3)]
  have lix: "indexed_shards ?leader" "unsigned_of_int (m_nmappers ?leader) = length (m_shards ?leader)"
    using ix m(1) l by (simp_all add: indexed_shards_def)
  note res = res [OF lix, unfolded l]
  note stored = results_stored [OF hist(1) st m(3,4) shards_of_nonempty [OF inp(2-4)] res(1-3)]
  show "\<exists>a. map_phase_stored st hash py_mapfunc container m (st_range st container b0) b1 a (m_IntblobList (ms_master t))"
    by (rule stored(1))
  show "m_nreducers (ms_master t) = m_nreducers m" by (rule res(5))
  have "results t \<noteq> []" using res(1) m(2) by auto
  then show "m_intcontainer (ms_master t) = container @ ''int''" using res(4) stored(2) by auto
qed

text \<open>
  C3: Word count survives the leader. Whenever in its map phase the leader is cut off, the follower that
  received its last checkpoint takes the job over, and once its reduce dispatch has returned every output
  blob lists exactly the words of the input that hash to its reducer, each once with the number of its
  occurrences in the whole input: the results of the first leader are neither lost nor counted twice,
  although tasks it still had in flight may have been repeated on other workers.
\<close>

theorem failover_counts_words:
  assumes "storage_works st" "countable_input (st_range st container b0) content items"
    and "0 < shard_sz" "fits_size_t shard_sz items" "shards_of shard_sz items = Some (m_shards m)"
    and "unsigned_of_int (m_nmappers m) = length (m_shards m)" "0 < length (m_shards m)"
    and "0 < m_nreducers m" "m_nreducers m < 2 ^ 31" "g_repl_list m = []"
    and "failover_run st hash container fw garbage cq z m follower b0 b2"
  shows "\<forall>j \<in> {0..<m_nreducers m}. \<exists>d.
    st_download st (container @ ''out'') (''out_'' @ to_string j) b2 = Inr (kv_lines (with_repr d)) \<and>
    distinct (map fst d) \<and> map_of d = counts_of hash (m_nreducers m) j (input_tokens content items)"
proof -
  obtain b1 log s z' s0 t rlog u where r: "map_history st hash py_mapfunc container m b0 b1 log"
    "(map_step (logged_answers log))\<^sup>*\<^sup>* (runMapper m) s"
    "processReplicatedData fw garbage cq z (PushJobStatus (ms_master s) 0 follower) = (z', Inr (Some s0))"
    "(map_step (logged_answers log))\<^sup>*\<^sup>* s0 t" "ms_pc t = Returned"
    "reduce_history st hash py_reducefunc container (ms_master t) b1 b2 rlog"
    "(reduce_step (reduce_logged rlog))\<^sup>*\<^sup>* (runReducer (ms_master t)) u" "rs_pc u = RReturned"
    using assms(11) unfolding failover_run_def by blast
  note p = failover_map_phase [OF assms(1-10) r(1-5)]
  then obtain a where "map_phase_stored st hash py_mapfunc container m (st_range st container b0) b1 a (m_IntblobList (ms_master t))"
    by blast
  note reduce_phase_counts [OF assms(1-5,9) this p(2,3) r(6-8)]
  then show ?thesis by auto
qed

section \<open>Such runs exist\<close>

text \<open>The new leader finds its workers, and one worker that does not fail is enough.\<close>

lemma received_registry:
  "m_Clients (PushJobStatus l 0 f) = m_Clients f" "m_ClientMap (PushJobStatus l 0 f) = m_ClientMap f"
  "heap_next (PushJobStatus l 0 f) = heap_next f"
  "m_has_failed (PushJobStatus l 0 f) = m_has_failed f" "m_will_fail (PushJobStatus l 0 f) = m_will_fail f"
proof -
  have "m_Clients (fold read_job js m) = m_Clients m \<and> m_ClientMap (fold read_job js m) = m_ClientMap m \<and>
      heap_next (fold read_job js m) = heap_next m" for js m
    by (induction js arbitrary: m) (simp_all add: read_job_def Let_def)
  then show "m_Clients (PushJobStatus l 0 f) = m_Clients f" "m_ClientMap (PushJobStatus l 0 f) = m_ClientMap f"
    "heap_next (PushJobStatus l 0 f) = heap_next f"
    by (simp_all add: PushJobStatus_def pushCheckPointData_def deserialize_data_def Let_def)
  show "m_has_failed (PushJobStatus l 0 f) = m_has_failed f" "m_will_fail (PushJobStatus l 0 f) = m_will_fail f"
    using takeover_flags [of l f] by (simp_all add: PushJobStatus_def pushCheckPointData_def)
qed

lemma received_wf: "clients_wf (PushJobStatus l 0 f) = clients_wf f"
proof -
  have "nodeid_of (PushJobStatus l 0 f) = nodeid_of f" by (rule ext) (simp add: nodeid_of_def received_registry)
  then show ?thesis by (simp add: clients_wf_def received_registry)
qed

lemma processReplicatedData_ok:
  assumes "clients_wf m" "\<not> m_has_failed m" "z' = snd (cf_create fw False False ''/workers'' [] z)"
    and "cf_getChildren fw ''/workers'' z' = Inr wrkrs" "\<forall>w \<in> set wrkrs. CHR ''/'' \<notin> set w"
    and "card (set wrkrs) \<le> length answers" "wrkrs \<noteq> []"
  obtains m2 where "processReplicatedData fw garbage (map NextCall answers) z m =
      (z', Inr (Some (start_map_dispatch (replicated_jobs m2) m2)))"
    "registry_only m m2" "m_Clients m2 \<noteq> []"
proof -
  obtain m1 where m1: "update_workers fw garbage z m = (z', Inr m1)" "synchronised wrkrs (\<lambda>p. cf_getData fw p z') m m1"
    using update_workers_ok [OF assms(1-5)] by blast
  obtain h where h: "AsyncCompleteExchangeRpc (map NextCall answers) (length (m_ClientMap m1)) (heap m1) = Some h"
    using exchange.loop_returns [of "length (m_ClientMap m1)" answers] synchronised_count [OF m1(2)] assms(6)
    by (auto simp: AsyncCompleteExchangeRpc_def)
  then have g: "get_worker_addresses (map NextCall answers) m1 = Some (m1\<lparr>heap := h\<rparr>)"
    by (simp add: get_worker_addresses_def)
  have "nodeid_of m1 ` set (m_Clients m1) = node_path ` set wrkrs" using m1(2) by (simp add: synchronised_def)
  then have "m_Clients m1 \<noteq> []" using assms(7) by auto
  with that [of "m1\<lparr>heap := h\<rparr>"] m1(1) g update_workers_registry [OF m1(1)] exchange_registry [OF g] show ?thesis
    by (simp add: processReplicatedData_def registry_only_def)
qed

lemma map_steps_keep:
  assumes "(map_step answers)\<^sup>*\<^sup>* s t" "\<not> m_will_fail (ms_master s)"
  shows "\<not> m_will_fail (ms_master t) \<and> m_has_failed (ms_master t) = m_has_failed (ms_master s) \<and>
    m_Clients (ms_master t) = m_Clients (ms_master s)"
  using assms
proof (induction rule: rtranclp_induct)
  case (step t u)
  have "\<not> m_will_fail (ms_master u) \<and> m_has_failed (ms_master u) = m_has_failed (ms_master t) \<and>
      m_Clients (ms_master u) = m_Clients (ms_master t)" if "\<not> m_will_fail (ms_master t)"
    using step(2) that
    by (induction rule: map_step.induct) (auto simp: action_defs check_fail_off Let_def split: prod.splits)
  with step show ?case by simp
qed simp

lemma failover_runs:
  assumes st: "storage_works st"
    and inp: "countable_input (st_range st container b0) content items" "0 < shard_sz" "fits_size_t shard_sz items"
      "shards_of shard_sz items = Some (m_shards m)"
    and m: "unsigned_of_int (m_nmappers m) = length (m_shards m)" "0 < length (m_shards m)"
      "0 < m_nreducers m" "m_nreducers m < 2 ^ 31" "g_repl_list m = []"
    and w: "worker_ready (new_WorkerDBConnection container) a w" "CHR ''_'' \<notin> set a" "\<not> wk_will_fail w" "\<not> wk_has_failed w"
    and f: "clients_wf follower" "\<not> m_will_fail follower" "\<not> m_has_failed follower"
    and zk: "z' = snd (cf_create fw False False ''/workers'' [] z)" "cf_getChildren fw ''/workers'' z' = Inr wrkrs"
      "\<forall>w \<in> set wrkrs. CHR ''/'' \<notin> set w" "card (set wrkrs) \<le> length answers" "wrkrs \<noteq> []"
  shows "\<exists>b2. failover_run st hash container fw garbage (map NextCall answers) z m follower b0 b2"
proof -
  obtain b1 log where h: "map_history st hash py_mapfunc container m b0 b1 log"
    "\<And>i. i < length (m_shards m) \<Longrightarrow> \<exists>reply. (int i, reply) \<in> set log"
    using map_history_exists [OF st m(3,4) w, of "length (m_shards m)"] by blast
  let ?s = "runMapper m" and ?answers = "logged_answers log"
  let ?l = "ms_master ?s"
  let ?f = "PushJobStatus ?l 0 follower"
  have l: "m_shards ?l = m_shards m" "m_nmappers ?l = m_nmappers m" "g_repl_list ?l = []"
    using m(5) by (simp_all add: runMapper_def start_map_dispatch_def)
  have job: "has_job ?l ?f" by (rule has_job_received) (use shards_wire_safe [OF inp] l in simp_all)
  obtain m2 where m2: "processReplicatedData fw garbage (map NextCall answers) z ?f =
      (z', Inr (Some (start_map_dispatch (replicated_jobs m2) m2)))" "registry_only ?f m2" "m_Clients m2 \<noteq> []"
    using processReplicatedData_ok [OF _ _ zk, of ?f garbage] f by (auto simp: received_wf received_registry)
  have j2: "has_job ?l m2" by (rule has_job_registry [OF job m2(2)])
  have live: "\<not> m_will_fail m2" "\<not> m_has_failed m2"
    using registry_onlyD(3,4) [OF m2(2)] f by (simp_all add: received_registry)
  have "answerable m2 ?answers" using logged_answerable [OF _ m2(3)] h(2) j2 l(1) by (simp add: has_job_def)
  moreover have ix: "indexed_shards ?l" using shards_of_indexed [OF inp(4)] l(1) by (simp add: indexed_shards_def)
  ultimately obtain t where t: "(map_step ?answers)\<^sup>*\<^sup>* (start_map_dispatch (replicated_jobs m2) m2) t" "ms_pc t = Returned"
    using takeover_returns [of m2 ?l ?answers] j2 live l m(1,2) unfolding has_job_def by fastforce
  note p = failover_map_phase [OF st inp m h(1) rtranclp.rtrancl_refl m2(1) t]
  then obtain a' where stored: "map_phase_stored st hash py_mapfunc container m (st_range st container b0) b1 a' (m_IntblobList (ms_master t))"
    by blast
  have "\<not> m_will_fail (ms_master t) \<and> \<not> m_has_failed (ms_master t) \<and> m_Clients (ms_master t) = m_Clients m2"
    using map_steps_keep [OF t(1)] live by (simp add: start_map_dispatch_def)
  then have "m_Clients (ms_master t) \<noteq> []" "\<not> m_will_fail (ms_master t)" "\<not> m_has_failed (ms_master t)" using m2(3) by auto
  from reduce_phase_runs [OF st inp m(3,4) stored p(2,3) this w(1,3,4)] h(1) m2(1) t
  show ?thesis unfolding failover_run_def by (metis rtranclp.rtrancl_refl)
qed

section \<open>Demonstration\<close>

text \<open>The job of two shards on one blob, cut in the middle of a word; one worker serves both masters.\<close>

definition demo_text :: string where
  "demo_text = ''to be, or not to be''"

definition demo_blobs :: "string \<times> string \<rightharpoonup> string" where
  "demo_blobs = [(''books'', ''a'') \<mapsto> demo_text]"

definition demo_content :: "string \<Rightarrow> string" where
  "demo_content nm = (if nm = ''a'' then demo_text else [])"

definition demo_count_master :: Master where
  "demo_count_master = demo_master\<lparr>m_shards :=
     [new_FileShard 0 [new_ShardData ''a'' 0 11], new_FileShard 1 [new_ShardData ''a'' 11 19]]\<rparr>"

lemma demo_count_simps:
  "m_nreducers demo_count_master = 1" "unsigned_of_int (m_nmappers demo_count_master) = 2"
  "length (m_shards demo_count_master) = 2" "m_Clients demo_count_master \<noteq> []"
  "\<not> m_will_fail demo_count_master" "\<not> m_has_failed demo_count_master" "g_repl_list demo_count_master = []"
  by (simp_all add: demo_count_master_def demo_master_def new_Master_def unsigned_of_int_def)

lemma demo_count_shards: "shards_of 11 [BlobItem ''a'' 19] = Some (m_shards demo_count_master)"
  by (simp add: shards_of_def make_shards_def shard_blob_def shard_loop.simps getShardId_def demo_count_master_def
      new_shard_info_def new_FileShard_def new_ShardData_def)

lemma demo_countable: "countable_input (st_range demo_storage ''books'' demo_blobs) demo_content [BlobItem ''a'' 19]"
  by (simp add: countable_input_def serves_def demo_storage_def demo_blobs_def demo_content_def demo_text_def
      fixed_download_def short_words_def clean_def EXTRA_LEN_def is_sep_def)

lemma demo_worker_live: "\<not> wk_will_fail demo_worker" "\<not> wk_has_failed demo_worker"
  by (simp_all add: demo_worker_def worker_create_connection_def new_Worker_def)

lemma demo_count_hyps:
  "0 < (11 :: size_t)" "fits_size_t 11 [BlobItem ''a'' 19]"
  "unsigned_of_int (m_nmappers demo_count_master) = length (m_shards demo_count_master)"
  "0 < length (m_shards demo_count_master)" "0 < m_nreducers demo_count_master" "m_nreducers demo_count_master < 2 ^ 31"
  "CHR ''_'' \<notin> set ''w:1''"
  by (simp_all add: fits_size_t_def demo_count_simps)

lemma demo_tokens: "input_tokens demo_content [BlobItem ''a'' 19] = [''to'', ''be'', ''or'', ''not'', ''to'', ''be'']"
  by code_simp

lemma demo_output:
  assumes "\<forall>j \<in> {0..<m_nreducers demo_count_master}. \<exists>d.
    st_download demo_storage (''books'' @ ''out'') (''out_'' @ to_string j) b2 = Inr (kv_lines (with_repr d)) \<and>
    distinct (map fst d) \<and>
    map_of d = counts_of (\<lambda>_. 5) (m_nreducers demo_count_master) j (input_tokens demo_content [BlobItem ''a'' 19])"
  shows "\<exists>d. st_download demo_storage ''booksout'' ''out_0'' b2 = Inr (kv_lines (with_repr d)) \<and>
    map_of d ''be'' = Some 2 \<and> map_of d ''not'' = Some 1 \<and> map_of d ''no'' = None"
proof -
  have "(0 :: int) \<in> {0..<m_nreducers demo_count_master}" by (simp add: demo_count_simps)
  moreover have "''out_'' @ to_string 0 = ''out_0''" by code_simp
  ultimately obtain d where d: "st_download demo_storage ''booksout'' ''out_0'' b2 = Inr (kv_lines (with_repr d))"
    "map_of d = counts_of (\<lambda>_. 5) 1 0 (input_tokens demo_content [BlobItem ''a'' 19])"
    using assms unfolding demo_count_simps by force
  then have "map_of d ''be'' = Some 2" "map_of d ''not'' = Some 1" "map_of d ''no'' = None"
    by (simp_all add: demo_tokens counts_of_def bucket_def)
  with d(1) show ?thesis by blast
qed

theorem failover_counts_words_witness:
  "\<exists>b2 d. failover_run demo_storage (\<lambda>_. 5) ''books'' demo_zk (\<lambda>_. PING_FAIL)
       (map NextCall [(ClientPtr 0, 0, ''w:1'')]) demo_workers demo_count_master demo_live_leader demo_blobs b2 \<and>
     st_download demo_storage ''booksout'' ''out_0'' b2 = Inr (kv_lines (with_repr d)) \<and>
     map_of d ''be'' = Some 2 \<and> map_of d ''not'' = Some 1 \<and> map_of d ''no'' = None"
proof -
  have f: "clients_wf demo_live_leader" "\<not> m_will_fail demo_live_leader" "\<not> m_has_failed demo_live_leader"
    by (simp_all add: demo_request_simps)
  have zk: "demo_workers = snd (cf_create demo_zk False False ''/workers'' [] demo_workers)"
    "cf_getChildren demo_zk ''/workers'' demo_workers = Inr [''worker_1'']"
    by (simp_all add: demo_request_simps)
  obtain b2 where run: "failover_run demo_storage (\<lambda>_. 5) ''books'' demo_zk (\<lambda>_. PING_FAIL)
       (map NextCall [(ClientPtr 0, 0, ''w:1'')]) demo_workers demo_count_master demo_live_leader demo_blobs b2"
    using failover_runs [OF demo_storage_works demo_countable demo_count_hyps(1,2) demo_count_shards demo_count_hyps(3-6)
        demo_count_simps(7) demo_worker_ready demo_count_hyps(7) demo_worker_live f zk, of "[(ClientPtr 0, 0, ''w:1'')]"]
    by auto
  from demo_output [OF failover_counts_words [OF demo_storage_works demo_countable demo_count_hyps(1,2) demo_count_shards
        demo_count_hyps(3-6) demo_count_simps(7) run]] run
  show ?thesis by blast
qed

end
