(* ===== verification/Sessions.thy ===== *)
theory Sessions
  imports Election
begin

text \<open>
  Processes that compete for leadership over one ZooKeeper service, whatever their code is: a process
  starts and registers, takes a step of its own, or loses its session. The locale states what the code of
  a process has to guarantee and proves once that such a system refines the ballot of
  \<^verbatim>\<open>ElectionSpec\<close>; the masters of \<^verbatim>\<open>w7\<close> (\<^verbatim>\<open>Cluster\<close>) and of
  \<^verbatim>\<open>w6\<close> (\<^verbatim>\<open>Prototype\<close>) are its instances.
\<close>

section \<open>The system\<close>

record ('z, 'p) system =
  sys_z :: 'z
  sys_procs :: "nat \<rightharpoonup> 'p"

inductive system_step ::
    "(string \<Rightarrow> 'z \<Rightarrow> 'z) \<Rightarrow> ('z \<Rightarrow> nat) \<Rightarrow> ('z \<Rightarrow> 'z \<times> 'p \<Rightarrow> bool) \<Rightarrow> ('z \<times> 'p \<Rightarrow> 'z \<times> 'p \<Rightarrow> bool) \<Rightarrow>
     ('p \<Rightarrow> string) \<Rightarrow> ('z, 'p) system \<Rightarrow> ('z, 'p) system \<Rightarrow> bool"
  for expire upcoming register act path where
  join: "\<lbrakk>sys_procs c i = None; upcoming (sys_z c) < 10 ^ 10; register (sys_z c) (z, p)\<rbrakk> \<Longrightarrow>
    system_step expire upcoming register act path c \<lparr>sys_z = z, sys_procs = (sys_procs c)(i \<mapsto> p)\<rparr>"
| act: "\<lbrakk>sys_procs c i = Some p; act (sys_z c, p) (z, q)\<rbrakk> \<Longrightarrow>
    system_step expire upcoming register act path c \<lparr>sys_z = z, sys_procs = (sys_procs c)(i \<mapsto> q)\<rparr>"
| expire: "sys_procs c i = Some p \<Longrightarrow>
    system_step expire upcoming register act path c (c\<lparr>sys_z := expire (path p) (sys_z c)\<rparr>)"

definition system_init :: "('z \<Rightarrow> nat set) \<Rightarrow> ('z, 'p) system \<Rightarrow> bool" where
  "system_init live c \<longleftrightarrow> sys_procs c = Map.empty \<and> live (sys_z c) = {}"

text \<open>Process \<open>i\<close> registered with number \<open>n\<close>; process \<open>i\<close> satisfies \<open>P\<close>.\<close>

definition numbered :: "('p \<Rightarrow> string) \<Rightarrow> ('z, 'p) system \<Rightarrow> nat \<Rightarrow> nat \<Rightarrow> bool" where
  "numbered path c i n \<longleftrightarrow> n < 10 ^ 10 \<and> (\<exists>p. sys_procs c i = Some p \<and> path p = master_path (seq_name n))"

definition proc_is :: "('p \<Rightarrow> bool) \<Rightarrow> ('z, 'p) system \<Rightarrow> nat \<Rightarrow> bool" where
  "proc_is P c i \<longleftrightarrow> (\<exists>p. sys_procs c i = Some p \<and> P p)"

lemma seq_path_inj: "a < 10 ^ 10 \<Longrightarrow> b < 10 ^ 10 \<Longrightarrow> master_path (seq_name a) = master_path (seq_name b) \<longleftrightarrow> a = b"
  using seq_name_inj by simp

lemma numbered_unique: "numbered path c i m \<Longrightarrow> numbered path c i n \<Longrightarrow> m = n"
  using seq_path_inj [of m n] by (auto simp: numbered_def)

lemma proc_join:
  assumes "path p = master_path (seq_name u)" "u < 10 ^ 10"
  shows "numbered path \<lparr>sys_z = z, sys_procs = (sys_procs c)(i \<mapsto> p)\<rparr> k n \<longleftrightarrow> (if k = i then n = u else numbered path c k n)"
    "\<not> P p \<Longrightarrow> proc_is P \<lparr>sys_z = z, sys_procs = (sys_procs c)(i \<mapsto> p)\<rparr> k \<longleftrightarrow> k \<noteq> i \<and> proc_is P c k"
  using assms seq_path_inj [of u n] by (auto simp: numbered_def proc_is_def)

lemma proc_act:
  assumes "sys_procs c i = Some p" "path q = path p"
  shows "numbered path \<lparr>sys_z = z, sys_procs = (sys_procs c)(i \<mapsto> q)\<rparr> = numbered path c"
    "proc_is P \<lparr>sys_z = z, sys_procs = (sys_procs c)(i \<mapsto> q)\<rparr> k \<longleftrightarrow> (if k = i then P q else proc_is P c k)"
  using assms by (auto simp: fun_eq_iff numbered_def proc_is_def)

lemma proc_expire [simp]:
  "numbered path (c\<lparr>sys_z := z\<rparr>) = numbered path c" "proc_is P (c\<lparr>sys_z := z\<rparr>) = proc_is P c"
  by (simp_all add: fun_eq_iff numbered_def proc_is_def)

section \<open>Refinement of the ballot\<close>

locale contenders =
  fixes fw :: "'z Conservator" and expire live upcoming
    and register :: "'z \<Rightarrow> 'z \<times> 'p \<Rightarrow> bool" and act :: "'z \<times> 'p \<Rightarrow> 'z \<times> 'p \<Rightarrow> bool"
    and path :: "'p \<Rightarrow> string" and wins :: "'p \<Rightarrow> bool"
  assumes zk: "numbered_zk fw expire live upcoming"
    and registers: "register z (z', p) \<Longrightarrow> upcoming z < 10 ^ 10 \<Longrightarrow> path p = master_path (seq_name (upcoming z)) \<and>
      live z' = insert (upcoming z) (live z) \<and> upcoming z < upcoming z' \<and> \<not> wins p"
    and act_keeps: "act (z, p) (z', q) \<Longrightarrow> path q = path p \<and> live z' = live z \<and> upcoming z' = upcoming z \<and>
      (wins p \<longrightarrow> wins q)"
    and act_wins: "act (z, p) (z', q) \<Longrightarrow> \<not> wins p \<Longrightarrow> wins q \<Longrightarrow>
      \<exists>cs. cf_getChildren fw ''/masters'' z = Inr cs \<and> cs \<noteq> [] \<and> path p = master_path (Min (set cs))"
begin

definition system_ballot :: "('z, 'p) system \<Rightarrow> ballot" where
  "system_ballot c = \<lparr>candidates = live (sys_z c), next_id = upcoming (sys_z c),
     winners = {n. \<exists>i. numbered path c i n \<and> proc_is wins c i}\<rparr>"

definition system_inv :: "('z, 'p) system \<Rightarrow> bool" where
  "system_inv c \<longleftrightarrow>
     (\<forall>n \<in> live (sys_z c). n < 10 ^ 10) \<and>
     (\<forall>i \<in> dom (sys_procs c). \<exists>n. numbered path c i n) \<and>
     (\<forall>i n. numbered path c i n \<longrightarrow> n < upcoming (sys_z c)) \<and>
     (\<forall>i j n. numbered path c i n \<longrightarrow> numbered path c j n \<longrightarrow> i = j)"

lemma proc_number:
  assumes "system_inv c" "sys_procs c i = Some p"
  obtains n where "numbered path c i n" "path p = master_path (seq_name n)" "n < 10 ^ 10"
  using assms unfolding system_inv_def numbered_def by (metis domI option.inject)

lemma inv_step:
  assumes "system_inv c" "system_step expire upcoming register act path c d"
  shows "system_inv d"
  using assms(2)
proof cases
  case (join i z p)
  note r = registers [OF join(4,3)]
  let ?u = "upcoming (sys_z c)"
  have old: "n < ?u" if "numbered path c k n" for k n using assms(1) that unfolding system_inv_def by blast
  have num: "numbered path d = (\<lambda>k n. if k = i then n = ?u else numbered path c k n)"
    unfolding join(1) using r join(3) by (intro ext proc_join(1)) simp_all
  have d: "dom (sys_procs d) = insert i (dom (sys_procs c))" "live (sys_z d) = insert ?u (live (sys_z c))"
    "?u < upcoming (sys_z d)"
    using r by (simp_all add: join(1))
  have "k = k'" if "numbered path d k n" "numbered path d k' n" for k k' n
    using that assms(1) old [of k ?u] old [of k' ?u] unfolding num system_inv_def by (auto split: if_splits)
  moreover have "n < upcoming (sys_z d)" if "numbered path d k n" for k n
    using that old [of k n] d(3) unfolding num by (auto split: if_splits)
  moreover have "\<exists>n. numbered path d k n" if "k \<in> dom (sys_procs d)" for k
    using that assms(1) unfolding num d(1) system_inv_def by (cases "k = i") auto
  ultimately show ?thesis using assms(1) d(2) join(3) unfolding system_inv_def by (auto simp del: power_numeral)
next
  case (act i p z q)
  note f = act_keeps [OF act(3)]
  have num: "numbered path d = numbered path c" unfolding act(1) using act(2) f by (intro proc_act(1)) simp_all
  have "dom (sys_procs d) = dom (sys_procs c)" "sys_z d = z" using act by auto
  then show ?thesis using assms(1) f unfolding system_inv_def num by simp
next
  case (expire i p)
  obtain n where n: "path p = master_path (seq_name n)" "n < 10 ^ 10" by (rule proc_number [OF assms(1) expire(2)])
  show ?thesis
    using assms(1) numbered_zkD(10,11) [OF zk n(2), of "sys_z c"] unfolding expire(1) n(1) system_inv_def
    by simp (meson less_le_trans)
qed

lemma step_refines:
  assumes "system_inv c" "system_step expire upcoming register act path c d"
  shows "ballot_step (system_ballot c) (system_ballot d) \<or> system_ballot d = system_ballot c"
  using assms(2)
proof cases
  case (join i z p)
  note r = registers [OF join(4,3)]
  have "\<not> proc_is wins c i" using join(2) by (simp add: proc_is_def)
  then have "numbered path d k n \<and> proc_is wins d k \<longleftrightarrow> numbered path c k n \<and> proc_is wins c k" for k n
    using proc_join(1) [of path p "upcoming (sys_z c)" z c i k] proc_join(2) [of path p "upcoming (sys_z c)" wins z c i k]
      r join(3) by (auto simp: join(1))
  then have "system_ballot d = (system_ballot c)
      \<lparr>candidates := insert (next_id (system_ballot c)) (candidates (system_ballot c)), next_id := upcoming z\<rparr>"
    using r by (simp add: join(1) system_ballot_def)
  moreover have "next_id (system_ballot c) < upcoming z" using r by (simp add: system_ballot_def)
  ultimately show ?thesis using ballot_step.join by metis
next
  case (expire i p)
  obtain n where n: "path p = master_path (seq_name n)" "n < 10 ^ 10" by (rule proc_number [OF assms(1) expire(2)])
  have "system_ballot d = (system_ballot c)
      \<lparr>candidates := candidates (system_ballot c) - {n}, next_id := upcoming (sys_z d)\<rparr>"
    using numbered_zkD(10) [OF zk n(2)] by (simp add: expire(1) n(1) system_ballot_def)
  moreover have "next_id (system_ballot c) \<le> upcoming (sys_z d)"
    using numbered_zkD(11) [OF zk n(2)] by (simp add: expire(1) n(1) system_ballot_def)
  ultimately show ?thesis using ballot_step.leave by metis
next
  case (act i p z q)
  note f = act_keeps [OF act(3)]
  obtain n where n: "numbered path c i n" "path p = master_path (seq_name n)" "n < 10 ^ 10"
    by (rule proc_number [OF assms(1) act(2)])
  have num: "numbered path d = numbered path c" unfolding act(1) using act(2) f by (intro proc_act(1)) simp_all
  have leads: "proc_is wins d k \<longleftrightarrow> (if k = i then wins q else proc_is wins c k)" for k
    unfolding act(1) using act(2) f by (intro proc_act(2)) simp_all
  have z: "sys_z d = z" by (simp add: act(1))
  show ?thesis
  proof (cases "wins q \<and> \<not> wins p")
    case False
    then have "proc_is wins d = proc_is wins c" using leads f act(2) by (auto simp: fun_eq_iff proc_is_def)
    then show ?thesis using f z num by (simp add: system_ballot_def)
  next
    case True
    obtain cs where cs: "cf_getChildren fw ''/masters'' (sys_z c) = Inr cs" "cs \<noteq> []" "path p = master_path (Min (set cs))"
      using act_wins [OF act(3)] True by blast
    have "\<forall>m \<in> live (sys_z c). m < 10 ^ 10" using assms(1) by (simp add: system_inv_def)
    from own_name_first [OF zk cs(1,2) this n(3)] n(2) cs(3)
    have win: "live (sys_z c) \<noteq> {}" "n = Min (live (sys_z c))" by simp_all
    have "proc_is wins d = (\<lambda>k. k = i \<or> proc_is wins c k)" using leads True by (auto simp: fun_eq_iff)
    then have "(\<exists>k. numbered path d k l \<and> proc_is wins d k) \<longleftrightarrow> l = n \<or> (\<exists>k. numbered path c k l \<and> proc_is wins c k)" for l
      using n(1) numbered_unique [of path c i l n] unfolding num by auto
    then have "system_ballot d = (system_ballot c)\<lparr>winners := insert n (winners (system_ballot c))\<rparr>"
      using f z by (auto simp: system_ballot_def)
    moreover have "candidates (system_ballot c) = live (sys_z c)" by (simp add: system_ballot_def)
    ultimately show ?thesis using ballot_step.win [of "system_ballot c" n] win by simp
  qed
qed

end

sublocale contenders \<subseteq>
  ballot_refinement "system_init live" "system_step expire upcoming register act path" system_ballot system_inv
proof
  show "system_inv c" if "system_init live c" for c
    using that by (simp add: system_init_def system_inv_def numbered_def)
  show "ballot_inv (system_ballot c)" if "system_init live c" for c
    using that by (simp add: system_init_def system_ballot_def ballot_inv_def numbered_def)
qed (use inv_step step_refines in blast)+

context contenders
begin

lemma reachable_number:
  assumes "reachable (system_init live) (system_step expire upcoming register act path) c"
  shows "sys_procs c i = Some p \<Longrightarrow> \<exists>n. numbered path c i n" "numbered path c i n \<Longrightarrow> n < upcoming (sys_z c)"
    "n \<in> live (sys_z c) \<Longrightarrow> n < 10 ^ 10" "numbered path c i n \<Longrightarrow> numbered path c j n \<Longrightarrow> i = j"
  using reachable_both [OF assms] unfolding system_inv_def by blast+

lemma winner_oldest:
  assumes "reachable (system_init live) (system_step expire upcoming register act path) c"
    and "proc_is wins c i" "numbered path c i n" "n \<in> live (sys_z c)"
  shows "n = Min (live (sys_z c))"
  using reachable_winner [OF assms(1), of n] assms(2-4) by (auto simp: system_ballot_def)

lemma one_winner:
  assumes "reachable (system_init live) (system_step expire upcoming register act path) c"
    and "proc_is wins c i" "numbered path c i n" "n \<in> live (sys_z c)"
    and "proc_is wins c j" "numbered path c j k" "k \<in> live (sys_z c)"
  shows "i = j \<and> n = Min (live (sys_z c))"
proof -
  have "n = k" using winner_oldest [OF assms(1-4)] winner_oldest [OF assms(1,5-7)] by simp
  then show ?thesis
    using winner_oldest [OF assms(1-4)] reachable_both [OF assms(1)] assms(3,6) unfolding system_inv_def by blast
qed

end

end
