(* ===== verification/Cluster.thy ===== *)
theory Cluster
  imports Sessions
begin

text \<open>
  Several masters, each in \<^verbatim>\<open>wait_until_leader\<close> of
  \<^verbatim>\<open>w7/src/master/masterimpl.cc\<close>, over one ZooKeeper service: an instance of
  \<^verbatim>\<open>Sessions\<close>, so at most one master whose session lives is the leader.
\<close>

section \<open>The system\<close>

text \<open>A process registers and starts to wait; its steps are those of \<open>wait_step\<close> on the shared service.\<close>

definition master_register :: "'z Conservator \<Rightarrow> 'z \<Rightarrow> 'z \<times> 'z wait_state \<Rightarrow> bool" where
  "master_register fw z zs \<longleftrightarrow> (\<exists>m z' m'. register_with_zk fw z m = (z', m') \<and> zs = (z', start_waiting fw z' m'))"

definition master_act :: "'z Conservator \<Rightarrow> 'z \<times> 'z wait_state \<Rightarrow> 'z \<times> 'z wait_state \<Rightarrow> bool" where
  "master_act fw zs zt \<longleftrightarrow> wait_step fw (\<lambda>_ _. False) ((snd zs)\<lparr>ws_z := fst zs\<rparr>) (snd zt) \<and> fst zt = ws_z (snd zt)"

abbreviation ws_path :: "'z wait_state \<Rightarrow> string" where
  "ws_path s \<equiv> m_nodepath (ws_master s)"

abbreviation leading :: "'z wait_state \<Rightarrow> bool" where
  "leading s \<equiv> ws_pc s = Leading"

abbreviation cluster_step :: "'z Conservator \<Rightarrow> (string \<Rightarrow> 'z \<Rightarrow> 'z) \<Rightarrow> ('z \<Rightarrow> nat) \<Rightarrow>
    ('z, 'z wait_state) system \<Rightarrow> ('z, 'z wait_state) system \<Rightarrow> bool" where
  "cluster_step fw expire upcoming \<equiv> system_step expire upcoming (master_register fw) (master_act fw) ws_path"

section \<open>What a master does to the service\<close>

lemma read_job_nodepath: "m_nodepath (fold read_job js m) = m_nodepath m"
  by (induction js arbitrary: m) (simp_all add: read_job_def Let_def)

lemma deserialize_nodepath [simp]: "m_nodepath (deserialize_data cp m) = m_nodepath m"
  by (simp add: deserialize_data_def Let_def read_job_nodepath)

lemma elect_leader_frame:
  assumes "elect_leader fw m (z, w) = ((z', w'), r)" "numbered_zk fw expire live upcoming"
  shows "live z' = live z" "upcoming z' = upcoming z"
  using assms(1) numbered_zkD(4-9) [OF assms(2)]
  by (auto simp: elect_leader_def Let_def split: if_splits sum.splits list.splits)

lemma after_election_frame:
  assumes "numbered_zk fw expire live upcoming"
  shows "live (ws_z (after_election (elect_leader fw m (z, w)) m' pc s)) = live z"
    "upcoming (ws_z (after_election (elect_leader fw m (z, w)) m' pc s)) = upcoming z"
  using elect_leader_frame [OF _ assms, of m z w]
  by (auto simp: after_election_def split: prod.splits)

lemma after_election_master [simp]: "ws_master (after_election r m pc s) = m"
  by (simp add: after_election_def split: prod.splits)

lemma after_election_z [simp]: "ws_z (after_election ((z, w), r) m pc s) = z"
  by (simp add: after_election_def)

lemma wait_step_frame:
  assumes "wait_step fw (\<lambda>_ _. False) s t" "numbered_zk fw expire live upcoming"
  shows "m_nodepath (ws_master t) = m_nodepath (ws_master s) \<and>
    live (ws_z t) = live (ws_z s) \<and> upcoming (ws_z t) = upcoming (ws_z s) \<and>
    (ws_pc s = Leading \<longrightarrow> ws_pc t = Leading)"
  using assms(1)
proof cases
  case (try_again ex)
  then show ?thesis using after_election_frame [OF assms(2)] by (cases ex) (simp_all add: try_again_def)
next
  case follow
  then show ?thesis using after_election_frame [OF assms(2)] by (simp add: follow_def Let_def)
qed (auto simp: read_leader_def exists_watcher_fn_def Let_def split: if_splits)

lemma registered:
  assumes "register_with_zk fw z m = (z', m')" "upcoming z < 10 ^ 10" "numbered_zk fw expire live upcoming"
  shows "m_nodepath m' = master_path (seq_name (upcoming z)) \<and> live z' = insert (upcoming z) (live z) \<and>
    upcoming z < upcoming z'"
proof -
  let ?z1 = "snd (cf_create fw False False ''/masters'' [] z)"
  have z1: "upcoming ?z1 = upcoming z" "live ?z1 = live z" using numbered_zkD(4,6) [OF assms(3)] by simp_all
  then obtain z2 where "cf_create fw True True ''/masters/master_'' (m_address m) ?z1 =
      (master_path (seq_name (upcoming z)), z2)" "live z2 = insert (upcoming z) (live z)" "upcoming z < upcoming z2"
    using numbered_zkD(3) [OF assms(3), of ?z1 "m_address m"] assms(2) by auto
  then show ?thesis using assms(1) by (auto simp: register_with_zk_def Let_def)
qed

lemma masters_contend:
  assumes "numbered_zk fw expire live upcoming"
  shows "contenders fw expire live upcoming (master_register fw) (master_act fw) ws_path leading"
proof
  fix z z' :: 'a and p q :: "'a wait_state"
  show "ws_path p = master_path (seq_name (upcoming z)) \<and> live z' = insert (upcoming z) (live z) \<and>
      upcoming z < upcoming z' \<and> \<not> leading p" if "master_register fw z (z', p)" "upcoming z < 10 ^ 10"
    using that registered [OF _ that(2) assms] by (auto simp: master_register_def start_waiting_def)
  show "ws_path q = ws_path p \<and> live z' = live z \<and> upcoming z' = upcoming z \<and> (leading p \<longrightarrow> leading q)"
    if "master_act fw (z, p) (z', q)"
    using that wait_step_frame [OF _ assms, of "p\<lparr>ws_z := z\<rparr>" q] by (simp add: master_act_def)
  show "\<exists>cs. cf_getChildren fw ''/masters'' z = Inr cs \<and> cs \<noteq> [] \<and> ws_path p = master_path (Min (set cs))"
    if "master_act fw (z, p) (z', q)" "\<not> leading p" "leading q"
    using that elected_step [of fw "\<lambda>_ _. False" "p\<lparr>ws_z := z\<rparr>" q] by (auto simp: master_act_def)
qed (rule assms)

interpretation seq_masters: contenders seq_zk seq_expire seq_live seq_next "master_register seq_zk" "master_act seq_zk"
    ws_path leading
  by (rule masters_contend [OF seq_zk_numbered])

section \<open>One leader\<close>

text \<open>
  C12: A cluster of masters has at most one live leader. Any number of masters register, wait, elect,
  lose their sessions and are restarted in any order and interleaving, on a ZooKeeper that numbers
  its sequential nodes in increasing order: two masters that lead and whose nodes still exist are the
  same process, and its node is the oldest one.
\<close>

theorem one_live_leader:
  assumes "numbered_zk fw expire live upcoming"
    and "reachable (system_init live) (cluster_step fw expire upcoming) c"
    and "proc_is leading c i" "numbered ws_path c i n" "n \<in> live (sys_z c)"
    and "proc_is leading c j" "numbered ws_path c j k" "k \<in> live (sys_z c)"
  shows "i = j \<and> n = Min (live (sys_z c))"
  by (rule contenders.one_winner [OF masters_contend [OF assms(1)] assms(2-8)])

definition demo_first :: "seq_state wait_state" where
  "demo_first = start_waiting seq_zk (1, [0], [(''/masters'', [])]) (demo_master\<lparr>m_nodepath := master_path (seq_name 0)\<rparr>)"

definition demo_cluster :: "(seq_state, seq_state wait_state) system" where
  "demo_cluster = (let t = try_again seq_zk False demo_first in \<lparr>sys_z = ws_z t, sys_procs = [0 \<mapsto> t]\<rparr>)"

lemma demo_first_leads:
  "ws_pc demo_first = TryAgain False" "ws_pc (try_again seq_zk False demo_first) = Leading"
  "ws_z (try_again seq_zk False demo_first) = (1, [0], [(''/leader'', seq_name 0), (''/masters'', [])])"
  "m_nodepath (ws_master (try_again seq_zk False demo_first)) = master_path (seq_name 0)"
proof -
  show "ws_pc demo_first = TryAgain False"
    by (auto simp: demo_first_def start_waiting_def seq_zk_def ZNONODE_def master_path_def)
  have "elect_leader seq_zk (ws_master demo_first) (ws_z demo_first, w) =
      (((1, [0], [(''/leader'', seq_name 0), (''/masters'', [])]), False), Inr True)" for w
    by (simp add: demo_first_def start_waiting_def elect_leader_def seq_zk_def demo_master_simps)
  then show "ws_pc (try_again seq_zk False demo_first) = Leading"
    "ws_z (try_again seq_zk False demo_first) = (1, [0], [(''/leader'', seq_name 0), (''/masters'', [])])"
    by (simp_all add: try_again_def after_election_def)
  show "m_nodepath (ws_master (try_again seq_zk False demo_first)) = master_path (seq_name 0)"
    by (simp add: try_again_def demo_first_def start_waiting_def)
qed

lemma demo_cluster_reachable: "reachable (system_init seq_live) (cluster_step seq_zk seq_expire seq_next) demo_cluster"
proof -
  let ?c0 = "\<lparr>sys_z = (0, [], []), sys_procs = Map.empty\<rparr> :: (seq_state, seq_state wait_state) system"
  let ?c1 = "\<lparr>sys_z = (1, [0], [(''/masters'', [])]), sys_procs = [0 \<mapsto> demo_first]\<rparr>"
  have "reachable (system_init seq_live) (cluster_step seq_zk seq_expire seq_next) ?c0"
    by (rule reachable.start) (simp add: system_init_def)
  moreover have "register_with_zk seq_zk (0, [], []) demo_master =
      ((1, [0], [(''/masters'', [])]), demo_master\<lparr>m_nodepath := master_path (seq_name 0)\<rparr>)"
    by (simp add: register_with_zk_def seq_zk_def)
  then have "master_register seq_zk (sys_z ?c0) ((1, [0], [(''/masters'', [])]), demo_first)"
    unfolding master_register_def demo_first_def by auto
  then have "cluster_step seq_zk seq_expire seq_next ?c0 ?c1"
    using system_step.join [of ?c0 0 seq_next "master_register seq_zk"] by simp
  ultimately have "reachable (system_init seq_live) (cluster_step seq_zk seq_expire seq_next) ?c1"
    by (rule reachable.next_step)
  moreover have "cluster_step seq_zk seq_expire seq_next ?c1 demo_cluster"
  proof -
    have "demo_first\<lparr>ws_z := sys_z ?c1\<rparr> = demo_first" by (simp add: demo_first_def start_waiting_def)
    then have "master_act seq_zk (sys_z ?c1, demo_first) (ws_z (try_again seq_zk False demo_first), try_again seq_zk False demo_first)"
      using wait_step.try_again [OF demo_first_leads(1)] by (simp add: master_act_def)
    then show ?thesis
      using system_step.act [of ?c1 0 demo_first "master_act seq_zk"] by (simp add: demo_cluster_def Let_def)
  qed
  ultimately show ?thesis by (rule reachable.next_step)
qed

theorem one_live_leader_witness:
  "reachable (system_init seq_live) (cluster_step seq_zk seq_expire seq_next) demo_cluster \<and>
   proc_is leading demo_cluster 0 \<and> 0 = Min (seq_live (sys_z demo_cluster))"
proof -
  have "proc_is leading demo_cluster 0" "numbered ws_path demo_cluster 0 0" "0 \<in> seq_live (sys_z demo_cluster)"
    using demo_first_leads by (simp_all add: demo_cluster_def proc_is_def numbered_def Let_def)
  with one_live_leader [OF seq_zk_numbered demo_cluster_reachable this this] demo_cluster_reachable
  show ?thesis by blast
qed

end
