(* ===== verification/Prototype.thy ===== *)
theory Prototype
  imports Sessions
begin

text \<open>
  The first prototype of the repository: a master and a worker that exchange greetings
  (\<^verbatim>\<open>w6/src/master/master.cc\<close>, \<^verbatim>\<open>w6/src/worker/worker.cc\<close>). The masters elect a
  leader through the data of the ZooKeeper node \<^verbatim>\<open>/masters\<close>, without watches. The masters of a
  cluster are an instance of \<^verbatim>\<open>Sessions\<close>, with a step per ZooKeeper operation.
\<close>

section \<open>The greeting service\<close>

text \<open>The worker's reply, and the master's call: the stub answers with a status code and a message.\<close>

definition greeter_reply :: "string \<Rightarrow> string" where
  "greeter_reply name = name @ ''gatech''"

definition SayHello :: "(string \<Rightarrow> int \<times> string) \<Rightarrow> string \<Rightarrow> string" where
  "SayHello stub user =
     (case stub user of (code, message) \<Rightarrow> if status_ok code then message else ''RPC failed'')"

definition worker_address :: "string \<Rightarrow> string" where
  "worker_address ipAddress = ipAddress @ '':50051''"

text \<open>Registration of a worker: its node and the address the server listens on.\<close>

definition register_worker :: "'z Conservator \<Rightarrow> string \<Rightarrow> 'z \<Rightarrow> ('z \<times> string) result" where
  "register_worker fw ipAddress z =
     (let z1 = snd (cf_create fw False False ''/workers'' [] z);
          (ownPath, z2) = cf_create fw True True ''/workers/worker_'' [] z1
      in rbind (cf_getChildren fw ''/workers'' z2) (\<lambda>children.
           Inr (cf_setData fw ownPath ipAddress z2, worker_address ipAddress)))"

text \<open>The leader's lookup of a worker. The loop body declares a variable of its own, so the outer
  one never changes: an empty address would be tested for ever.\<close>

definition lookup_worker :: "'z Conservator \<Rightarrow> 'z \<Rightarrow> string result" where
  "lookup_worker fw z =
     rbind (cf_getChildren fw ''/workers'' z) (\<lambda>wrkrs.
       case wrkrs of [] \<Rightarrow> Inl OutOfRange
       | w # _ \<Rightarrow> Inr (cf_getData fw (''/workers/'' @ w) z @ '':50051''))"

partial_function (option) wait_address :: "string \<Rightarrow> string option" where
  "wait_address target_str = (if target_str = [] then wait_address target_str else Some target_str)"

section \<open>The election loop\<close>

text \<open>Where the loop is: before reading the leader, testing whether the named leader exists, listing the
  candidates, writing its own name, past the loop, or left by an exception.\<close>

datatype el_pc = Reading | Probing string | Listing | Claiming | Elected | Thrown

record candidate =
  cd_ownPath :: string
  cd_hadPreviousLeader :: bool
  cd_pc :: el_pc

definition register_master :: "'z Conservator \<Rightarrow> 'z \<Rightarrow> 'z \<times> candidate" where
  "register_master fw z =
     (let z1 = snd (cf_create fw False False ''/masters'' [] z);
          (ownPath, z2) = cf_create fw True True ''/masters/master_'' [] z1
      in (z2, \<lparr>cd_ownPath = ownPath, cd_hadPreviousLeader = False, cd_pc = Reading\<rparr>))"

definition read_current :: "'z Conservator \<Rightarrow> 'z \<Rightarrow> candidate \<Rightarrow> candidate" where
  "read_current fw z p =
     (let curLeader = cf_getData fw ''/masters'' z in
      if curLeader \<noteq> [] then p\<lparr>cd_hadPreviousLeader := True, cd_pc := Probing curLeader\<rparr>
      else p\<lparr>cd_pc := Listing\<rparr>)"

definition test_current :: "'z Conservator \<Rightarrow> 'z \<Rightarrow> string \<Rightarrow> candidate \<Rightarrow> candidate" where
  "test_current fw z curLeader p =
     (if cf_checkExists fw curLeader z = ZOK then p\<lparr>cd_pc := Reading\<rparr> else p\<lparr>cd_pc := Listing\<rparr>)"

definition list_candidates :: "'z Conservator \<Rightarrow> 'z \<Rightarrow> candidate \<Rightarrow> candidate" where
  "list_candidates fw z p =
     (case cf_getChildren fw ''/masters'' z of
        Inl e \<Rightarrow> p\<lparr>cd_pc := Thrown\<rparr>
      | Inr cs \<Rightarrow>
          (case sort cs of
             [] \<Rightarrow> p\<lparr>cd_pc := Thrown\<rparr>
           | first # _ \<Rightarrow>
               if ''/masters/'' @ first \<noteq> cd_ownPath p then p\<lparr>cd_pc := Reading\<rparr> else p\<lparr>cd_pc := Claiming\<rparr>))"

definition claim :: "'z Conservator \<Rightarrow> 'z \<Rightarrow> candidate \<Rightarrow> 'z \<times> candidate" where
  "claim fw z p = (cf_setData fw ''/masters'' (cd_ownPath p) z, p\<lparr>cd_pc := Elected\<rparr>)"

definition announcement :: "candidate \<Rightarrow> string" where
  "announcement p =
     (if \<not> cd_hadPreviousLeader p then ''I am now the first leader.''
      else ''I am now replacing a previous leader.'')"

inductive candidate_step :: "'z Conservator \<Rightarrow> 'z \<times> candidate \<Rightarrow> 'z \<times> candidate \<Rightarrow> bool" for fw where
  reading: "cd_pc p = Reading \<Longrightarrow> candidate_step fw (z, p) (z, read_current fw z p)"
| testing: "cd_pc p = Probing cur \<Longrightarrow> candidate_step fw (z, p) (z, test_current fw z cur p)"
| listing: "cd_pc p = Listing \<Longrightarrow> candidate_step fw (z, p) (z, list_candidates fw z p)"
| claiming: "cd_pc p = Claiming \<Longrightarrow> candidate_step fw (z, p) (claim fw z p)"

text \<open>A cluster of masters.\<close>

abbreviation proto_register :: "'z Conservator \<Rightarrow> 'z \<Rightarrow> 'z \<times> candidate \<Rightarrow> bool" where
  "proto_register fw z zp \<equiv> zp = register_master fw z"

abbreviation proto_step :: "'z Conservator \<Rightarrow> (string \<Rightarrow> 'z \<Rightarrow> 'z) \<Rightarrow> ('z \<Rightarrow> nat) \<Rightarrow>
    ('z, candidate) system \<Rightarrow> ('z, candidate) system \<Rightarrow> bool" where
  "proto_step fw expire upcoming \<equiv> system_step expire upcoming (proto_register fw) (candidate_step fw) cd_ownPath"

definition chosen :: "candidate \<Rightarrow> bool" where
  "chosen p \<longleftrightarrow> cd_pc p = Claiming \<or> cd_pc p = Elected"

lemma chosen_update [simp]: "chosen (p\<lparr>cd_pc := pc\<rparr>) \<longleftrightarrow> pc = Claiming \<or> pc = Elected"
  by (simp add: chosen_def)

section \<open>At most one leader\<close>

lemma read_current_simps [simp]:
  "cd_ownPath (read_current fw z p) = cd_ownPath p" "\<not> chosen (read_current fw z p)"
  by (simp_all add: read_current_def chosen_def Let_def)

lemma test_current_simps [simp]:
  "cd_ownPath (test_current fw z cur p) = cd_ownPath p" "\<not> chosen (test_current fw z cur p)"
  by (simp_all add: test_current_def chosen_def)

lemma list_candidates_own [simp]: "cd_ownPath (list_candidates fw z p) = cd_ownPath p"
  by (auto simp: list_candidates_def split: sum.splits list.splits)

lemma list_candidates_eq:
  assumes "cf_getChildren fw ''/masters'' z = Inr cs" "cs \<noteq> []"
  shows "list_candidates fw z p =
    (if cd_ownPath p = master_path (Min (set cs)) then p\<lparr>cd_pc := Claiming\<rparr> else p\<lparr>cd_pc := Reading\<rparr>)"
proof -
  obtain ys where "sort cs = Min (set cs) # ys" using sort_head [OF assms(2)] by blast
  with assms(1) show ?thesis by (auto simp: list_candidates_def master_path_def)
qed

lemma list_candidates_chosen:
  assumes "chosen (list_candidates fw z p)"
  shows "\<exists>cs. cf_getChildren fw ''/masters'' z = Inr cs \<and> cs \<noteq> [] \<and> cd_ownPath p = master_path (Min (set cs))"
proof -
  obtain cs where cs: "cf_getChildren fw ''/masters'' z = Inr cs" "cs \<noteq> []"
  proof (cases "cf_getChildren fw ''/masters'' z")
    case (Inr cs)
    moreover from this have "cs \<noteq> []" using assms by (auto simp: list_candidates_def)
    ultimately show ?thesis by (rule that)
  qed (use assms in \<open>simp add: list_candidates_def\<close>)
  then show ?thesis using assms list_candidates_eq [OF cs, of p] by (auto split: if_splits)
qed

lemma register_master_eq:
  assumes "numbered_zk fw expire live upcoming" "upcoming z < 10 ^ 10" "register_master fw z = (z', p)"
  shows "cd_ownPath p = master_path (seq_name (upcoming z))" "live z' = insert (upcoming z) (live z)"
    "upcoming z < upcoming z'" "cd_pc p = Reading"
proof -
  let ?z1 = "snd (cf_create fw False False ''/masters'' [] z)"
  have z1: "upcoming ?z1 = upcoming z" "live ?z1 = live z" using numbered_zkD(4,6) [OF assms(1)] by simp_all
  then obtain z2 where "cf_create fw True True ''/masters/master_'' [] ?z1 =
      (master_path (seq_name (upcoming z)), z2)" "live z2 = insert (upcoming z) (live z)" "upcoming z < upcoming z2"
    using numbered_zkD(3) [OF assms(1), of ?z1 "[]"] assms(2) by auto
  then show "cd_ownPath p = master_path (seq_name (upcoming z))" "live z' = insert (upcoming z) (live z)"
    "upcoming z < upcoming z'" "cd_pc p = Reading"
    using assms(3) by (auto simp: register_master_def Let_def)
qed

lemma candidates_contend:
  assumes "numbered_zk fw expire live upcoming"
  shows "contenders fw expire live upcoming (proto_register fw) (candidate_step fw) cd_ownPath chosen"
proof
  fix z z' :: 'a and p q
  show "cd_ownPath p = master_path (seq_name (upcoming z)) \<and> live z' = insert (upcoming z) (live z) \<and>
      upcoming z < upcoming z' \<and> \<not> chosen p" if "(z', p) = register_master fw z" "upcoming z < 10 ^ 10"
    using register_master_eq [OF assms that(2) that(1) [symmetric]] by (simp add: chosen_def)
  show "cd_ownPath q = cd_ownPath p \<and> live z' = live z \<and> upcoming z' = upcoming z \<and> (chosen p \<longrightarrow> chosen q)"
    if "candidate_step fw (z, p) (z', q)"
    using that by cases (simp_all add: claim_def chosen_def numbered_zkD(8,9) [OF assms])
  show "\<exists>cs. cf_getChildren fw ''/masters'' z = Inr cs \<and> cs \<noteq> [] \<and> cd_ownPath p = master_path (Min (set cs))"
    if "candidate_step fw (z, p) (z', q)" "\<not> chosen p" "chosen q"
    using that(1)
  proof cases
    case listing
    with that(3) show ?thesis using list_candidates_chosen by simp
  next
    case claiming
    with that(2) show ?thesis by (simp add: chosen_def)
  qed (use that(3) in simp_all)
qed (rule assms)

interpretation seq_candidates: contenders seq_zk seq_expire seq_live seq_next "proto_register seq_zk"
    "candidate_step seq_zk" cd_ownPath chosen
  by (rule candidates_contend [OF seq_zk_numbered])

text \<open>
  C34: The prototype's election, whose loop reads the leader's name, tests it, lists the candidates and
  writes its own name in separate ZooKeeper operations, never has two live leaders: of all masters in any
  interleaving, at most one whose node exists has found itself the first candidate, and its node is
  the oldest.
\<close>

theorem prototype_one_leader:
  assumes "numbered_zk fw expire live upcoming"
    and "reachable (system_init live) (proto_step fw expire upcoming) c"
    and "proc_is chosen c i" "numbered cd_ownPath c i n" "n \<in> live (sys_z c)"
    and "proc_is chosen c j" "numbered cd_ownPath c j k" "k \<in> live (sys_z c)"
  shows "i = j \<and> n = Min (live (sys_z c))"
  by (rule contenders.one_winner [OF candidates_contend [OF assms(1)] assms(2-8)])

section \<open>The oldest master can become the leader\<close>

text \<open>What the loop relies on besides: reads of \<^verbatim>\<open>/masters\<close> return what was written last, neither
  registration nor the end of a session writes it, and a node exists as long as its session.\<close>

definition leader_data_zk :: "'z Conservator \<Rightarrow> (string \<Rightarrow> 'z \<Rightarrow> 'z) \<Rightarrow> ('z \<Rightarrow> nat set) \<Rightarrow> bool" where
  "leader_data_zk fw expire live \<longleftrightarrow>
     (\<forall>x z. cf_getData fw ''/masters'' (cf_setData fw ''/masters'' x z) = x) \<and>
     (\<forall>z. cf_getData fw ''/masters'' (snd (cf_create fw False False ''/masters'' [] z)) = cf_getData fw ''/masters'' z) \<and>
     (\<forall>z. cf_getData fw ''/masters'' (snd (cf_create fw True True ''/masters/master_'' [] z)) = cf_getData fw ''/masters'' z) \<and>
     (\<forall>p z. cf_getData fw ''/masters'' (expire p z) = cf_getData fw ''/masters'' z) \<and>
     (\<forall>n z. n < 10 ^ 10 \<longrightarrow> (cf_checkExists fw (master_path (seq_name n)) z = ZOK \<longleftrightarrow> n \<in> live z))"

lemma leader_data_zkD:
  assumes "leader_data_zk fw expire live"
  shows "cf_getData fw ''/masters'' (cf_setData fw ''/masters'' x z) = x"
    "cf_getData fw ''/masters'' (snd (cf_create fw False False ''/masters'' [] z)) = cf_getData fw ''/masters'' z"
    "cf_getData fw ''/masters'' (snd (cf_create fw True True ''/masters/master_'' [] z)) = cf_getData fw ''/masters'' z"
    "cf_getData fw ''/masters'' (expire p z) = cf_getData fw ''/masters'' z"
    "n < 10 ^ 10 \<Longrightarrow> cf_checkExists fw (master_path (seq_name n)) z = ZOK \<longleftrightarrow> n \<in> live z"
  using assms by (simp_all add: leader_data_zk_def)

text \<open>Every name a candidate may come across is that of a master that was elected.\<close>

abbreviation elected :: "candidate \<Rightarrow> bool" where
  "elected p \<equiv> cd_pc p = Elected"

definition names_leader :: "('z, candidate) system \<Rightarrow> string \<Rightarrow> bool" where
  "names_leader c x \<longleftrightarrow> (\<exists>i n. numbered cd_ownPath c i n \<and> proc_is elected c i \<and> x = master_path (seq_name n))"

definition naming_inv :: "'z Conservator \<Rightarrow> ('z \<Rightarrow> nat set) \<Rightarrow> ('z \<Rightarrow> nat) \<Rightarrow> ('z, candidate) system \<Rightarrow> bool" where
  "naming_inv fw live upcoming c \<longleftrightarrow>
     (cf_getData fw ''/masters'' (sys_z c) \<noteq> [] \<longrightarrow> names_leader c (cf_getData fw ''/masters'' (sys_z c))) \<and>
     (\<forall>i x. proc_is (\<lambda>p. cd_pc p = Probing x) c i \<longrightarrow> names_leader c x) \<and>
     (\<forall>i n. numbered cd_ownPath c i n \<longrightarrow> proc_is (\<lambda>p. cd_pc p = Thrown) c i \<longrightarrow> n \<notin> live (sys_z c))"

lemma names_leader_mono:
  assumes "names_leader c x" "\<And>i n. numbered cd_ownPath c i n \<Longrightarrow> numbered cd_ownPath d i n"
    and "\<And>i. proc_is elected c i \<Longrightarrow> proc_is elected d i"
  shows "names_leader d x"
  using assms unfolding names_leader_def by blast

lemma register_master_data:
  assumes "leader_data_zk fw expire live" "register_master fw z = (z', p)"
  shows "cf_getData fw ''/masters'' z' = cf_getData fw ''/masters'' z"
proof -
  have "z' = snd (cf_create fw True True ''/masters/master_'' [] (snd (cf_create fw False False ''/masters'' [] z)))"
    using assms(2) by (auto simp: register_master_def Let_def split: prod.splits)
  then show ?thesis using leader_data_zkD(2,3) [OF assms(1)] by simp
qed

lemma naming_join:
  assumes zk: "numbered_zk fw expire live upcoming" "leader_data_zk fw expire live"
    and inv: "naming_inv fw live upcoming c" "\<And>k n. numbered cd_ownPath c k n \<Longrightarrow> n < upcoming (sys_z c)"
    and step: "sys_procs c i = None" "upcoming (sys_z c) < 10 ^ 10" "register_master fw (sys_z c) = (z, p)"
  shows "naming_inv fw live upcoming \<lparr>sys_z = z, sys_procs = (sys_procs c)(i \<mapsto> p)\<rparr>"
proof -
  let ?d = "\<lparr>sys_z = z, sys_procs = (sys_procs c)(i \<mapsto> p)\<rparr>"
  note r = register_master_eq [OF zk(1) step(2,3)]
  have num: "numbered cd_ownPath ?d k n \<longleftrightarrow> (if k = i then n = upcoming (sys_z c) else numbered cd_ownPath c k n)" for k n
    using r(1) step(2) by (rule proc_join(1))
  have pis: "proc_is P ?d k \<longleftrightarrow> k \<noteq> i \<and> proc_is P c k" if "\<not> P p" for P k
    using r(1) step(2) that by (rule proc_join(2))
  have None: "\<not> numbered cd_ownPath c i n" "\<not> proc_is P c i" for n P using step(1) by (simp_all add: numbered_def proc_is_def)
  have names: "names_leader ?d x" if "names_leader c x" for x
    using that by (rule names_leader_mono) (use None in \<open>auto simp: num pis r(4)\<close>)
  have "n \<notin> live z" if "numbered cd_ownPath ?d k n" "proc_is (\<lambda>p. cd_pc p = Thrown) ?d k" for k n
  proof -
    have k: "k \<noteq> i" "proc_is (\<lambda>p. cd_pc p = Thrown) c k" "numbered cd_ownPath c k n"
      using that by (auto simp: num pis r(4))
    then have "n \<notin> live (sys_z c)" "n < upcoming (sys_z c)" using inv by (auto simp: naming_inv_def)
    then show ?thesis using r(2) by auto
  qed
  moreover have "names_leader ?d x" if "proc_is (\<lambda>p. cd_pc p = Probing x) ?d k" for k x
    using that inv(1) names [of x] by (auto simp: pis r(4) naming_inv_def)
  ultimately show ?thesis
    using inv(1) names register_master_data [OF zk(2) step(3)] by (auto simp: naming_inv_def)
qed

lemma naming_act:
  assumes zk: "numbered_zk fw expire live upcoming" "leader_data_zk fw expire live"
    and inv: "naming_inv fw live upcoming c" "numbered cd_ownPath c i n"
    and step: "sys_procs c i = Some p" "candidate_step fw (sys_z c, p) (z, q)"
  shows "naming_inv fw live upcoming \<lparr>sys_z = z, sys_procs = (sys_procs c)(i \<mapsto> q)\<rparr>"
proof -
  let ?d = "\<lparr>sys_z = z, sys_procs = (sys_procs c)(i \<mapsto> q)\<rparr>"
  have f: "cd_ownPath q = cd_ownPath p" "live z = live (sys_z c)" "elected p \<Longrightarrow> elected q"
    using contenders.act_keeps [OF candidates_contend [OF zk(1)] step(2)] step(2)
    by (auto elim: candidate_step.cases)
  have num: "numbered cd_ownPath ?d = numbered cd_ownPath c" using step(1) f(1) by (rule proc_act(1))
  have pis: "proc_is P ?d k \<longleftrightarrow> (if k = i then P q else proc_is P c k)" for P k using step(1) f(1) by (rule proc_act(2))
  have mono: "names_leader ?d x" if "names_leader c x" for x
    using that by (rule names_leader_mono) (use f(3) step(1) in \<open>auto simp: num pis proc_is_def\<close>)
  have own: "cd_ownPath p = master_path (seq_name n)" using inv(2) step(1) by (auto simp: numbered_def)
  have data: "names_leader ?d (cf_getData fw ''/masters'' z)" if "cf_getData fw ''/masters'' z \<noteq> []"
    using step(2)
  proof cases
    case claiming
    then have "cf_getData fw ''/masters'' z = master_path (seq_name n)" "elected q"
      using leader_data_zkD(1) [OF zk(2)] own by (auto simp: claim_def)
    then show ?thesis using inv(2) unfolding names_leader_def num pis by auto
  qed (use that inv(1) mono in \<open>auto simp: naming_inv_def\<close>)
  have probing: "names_leader ?d x" if "cd_pc q = Probing x" for x
    using step(2)
  proof cases
    case reading
    then show ?thesis using that data by (auto simp: read_current_def Let_def split: if_splits)
  next
    case listing
    then show ?thesis using that by (auto simp: list_candidates_def split: sum.splits list.splits if_splits)
  qed (use that in \<open>auto simp: test_current_def claim_def split: if_splits\<close>)
  have thrown: "n \<notin> live z" if "cd_pc q = Thrown"
    using step(2)
  proof cases
    case listing
    obtain cs where cs: "cf_getChildren fw ''/masters'' z = Inr cs" "set cs = seq_name ` live z"
      using numbered_zkD(2) [OF zk(1)] by blast
    then have "cs = []" using that listing list_candidates_eq [of fw z cs p] by (cases "cs = []") (auto split: if_splits)
    with cs(2) show ?thesis by auto
  qed (use that in \<open>auto simp: test_current_def read_current_def claim_def Let_def split: if_splits\<close>)
  have "m \<notin> live z" if "numbered cd_ownPath c k m" "if k = i then cd_pc q = Thrown else proc_is (\<lambda>p. cd_pc p = Thrown) c k" for k m
    using that thrown inv f(2) numbered_unique [OF inv(2), of m] by (cases "k = i") (auto simp: naming_inv_def)
  moreover have "names_leader ?d x" if "if k = i then cd_pc q = Probing x else proc_is (\<lambda>p. cd_pc p = Probing x) c k" for k x
    using that probing mono inv(1) by (cases "k = i") (auto simp: naming_inv_def)
  ultimately show ?thesis using data unfolding naming_inv_def num pis by (simp only: system.simps) blast
qed

lemma naming_reachable:
  assumes zk: "numbered_zk fw expire live upcoming" "leader_data_zk fw expire live"
    and "reachable (\<lambda>c. system_init live c \<and> cf_getData fw ''/masters'' (sys_z c) = []) (proto_step fw expire upcoming) c"
  shows "naming_inv fw live upcoming c"
  using assms(3)
proof (induction rule: reachable.induct)
  case (start c)
  then show ?case by (simp add: naming_inv_def system_init_def proc_is_def)
next
  case (next_step c d)
  have "reachable (system_init live) (proto_step fw expire upcoming) c" using next_step(1) by (rule reachable_mono) simp
  note num = contenders.reachable_number [OF candidates_contend [OF zk(1)] this]
  from next_step(2) show ?case
  proof cases
    case (join i z p)
    then show ?thesis using naming_join [OF zk next_step.IH num(2) join(2,3)] by simp
  next
    case (act i p z q)
    obtain n where "numbered cd_ownPath c i n" using num(1) [OF act(2)] by blast
    then show ?thesis unfolding act(1) using act(2,3) by (rule naming_act [OF zk next_step.IH])
  next
    case (expire i p)
    obtain n where "numbered cd_ownPath c i n" using num(1) [OF expire(2)] by blast
    then have n: "cd_ownPath p = master_path (seq_name n)" "n < 10 ^ 10" using expire(2) by (auto simp: numbered_def)
    have "names_leader d x \<longleftrightarrow> names_leader c x" for x by (simp add: names_leader_def expire(1))
    moreover have "live (sys_z d) \<subseteq> live (sys_z c)"
      "cf_getData fw ''/masters'' (sys_z d) = cf_getData fw ''/masters'' (sys_z c)"
      using numbered_zkD(10) [OF zk(1) n(2)] leader_data_zkD(4) [OF zk(2)] by (auto simp: expire(1) n(1))
    ultimately show ?thesis using next_step.IH expire(1) unfolding naming_inv_def by auto
  qed
qed

text \<open>Candidate \<open>p\<close> becomes the leader by steps of its own.\<close>

definition can_lead :: "'z Conservator \<Rightarrow> 'z \<Rightarrow> candidate \<Rightarrow> bool" where
  "can_lead fw z p \<longleftrightarrow> (\<exists>z' q. (candidate_step fw)\<^sup>*\<^sup>* (z, p) (z', q) \<and> cd_pc q = Elected \<and>
     cf_getData fw ''/masters'' z' = cd_ownPath p)"

lemma can_lead_step:
  "candidate_step fw (z, p) (z, q) \<Longrightarrow> cd_ownPath q = cd_ownPath p \<Longrightarrow> can_lead fw z q \<Longrightarrow> can_lead fw z p"
  unfolding can_lead_def by (metis converse_rtranclp_into_rtranclp)

lemma can_lead_claiming:
  assumes "leader_data_zk fw expire live" "cd_pc p = Claiming"
  shows "can_lead fw z p"
  unfolding can_lead_def
proof (intro exI conjI)
  show "(candidate_step fw)\<^sup>*\<^sup>* (z, p) (cf_setData fw ''/masters'' (cd_ownPath p) z, p\<lparr>cd_pc := Elected\<rparr>)"
    using candidate_step.claiming [OF assms(2), of fw z] by (simp add: claim_def r_into_rtranclp)
qed (simp_all add: leader_data_zkD(1) [OF assms(1)])

lemma can_lead_listing:
  assumes "numbered_zk fw expire live upcoming" "leader_data_zk fw expire live" "\<forall>n \<in> live z. n < 10 ^ 10"
    and "live z \<noteq> {}" "cd_ownPath p = master_path (seq_name (Min (live z)))" "cd_pc p = Listing"
  shows "can_lead fw z p"
proof (rule can_lead_step)
  obtain cs where cs: "cf_getChildren fw ''/masters'' z = Inr cs" "set cs = seq_name ` live z"
    using numbered_zkD(2) [OF assms(1)] by blast
  have "cs \<noteq> []" using assms(4) cs(2) by auto
  moreover have "Min (set cs) = seq_name (Min (live z))"
    using Min_seq_name [OF numbered_zkD(1) [OF assms(1)] assms(4,3)] cs(2) by simp
  ultimately have "list_candidates fw z p = p\<lparr>cd_pc := Claiming\<rparr>"
    using list_candidates_eq [OF cs(1)] assms(5) by simp
  then show "candidate_step fw (z, p) (z, p\<lparr>cd_pc := Claiming\<rparr>)"
    using candidate_step.listing [OF assms(6), of fw z] by simp
  show "can_lead fw z (p\<lparr>cd_pc := Claiming\<rparr>)" using assms(2) by (rule can_lead_claiming) simp
qed simp

lemma leader_gone:
  assumes zk: "numbered_zk fw expire live upcoming" "leader_data_zk fw expire live"
    and r: "reachable (system_init live) (proto_step fw expire upcoming) c"
    and i: "numbered cd_ownPath c i (Min (live (sys_z c)))" "\<not> proc_is elected c i" and named: "names_leader c x"
  shows "cf_checkExists fw x (sys_z c) \<noteq> ZOK"
proof
  assume ok: "cf_checkExists fw x (sys_z c) = ZOK"
  obtain j k where j: "numbered cd_ownPath c j k" "proc_is elected c j" "x = master_path (seq_name k)"
    using named by (auto simp: names_leader_def)
  then have "k < 10 ^ 10" "proc_is chosen c j" by (auto simp: numbered_def proc_is_def chosen_def)
  moreover from this have "k \<in> live (sys_z c)" using ok j(3) leader_data_zkD(5) [OF zk(2)] by simp
  ultimately have "k = Min (live (sys_z c))"
    using contenders.winner_oldest [OF candidates_contend [OF zk(1)] r _ j(1)] by simp
  then have "j = i" using j(1) i(1) contenders.reachable_number(4) [OF candidates_contend [OF zk(1)] r] by blast
  with j(2) i(2) show False by simp
qed

text \<open>
  The prototype's loop makes progress: in every reachable state the oldest live master, wherever it
  is in the loop and whatever leader name it has read, becomes the leader by its own steps alone, and its
  name is then the data of \<^verbatim>\<open>/masters\<close>. A stale name never blocks it.
\<close>

theorem prototype_oldest_leads:
  assumes "numbered_zk fw expire live upcoming" "leader_data_zk fw expire live"
    and "reachable (\<lambda>c. system_init live c \<and> cf_getData fw ''/masters'' (sys_z c) = []) (proto_step fw expire upcoming) c"
    and "sys_procs c i = Some p" "numbered cd_ownPath c i n" "n \<in> live (sys_z c)" "n = Min (live (sys_z c))"
    and "cd_pc p \<noteq> Elected"
  shows "\<exists>z q. (candidate_step fw)\<^sup>*\<^sup>* (sys_z c, p) (z, q) \<and> cd_pc q = Elected \<and>
    cf_getData fw ''/masters'' z = cd_ownPath p"
proof -
  let ?z = "sys_z c"
  have r: "reachable (system_init live) (proto_step fw expire upcoming) c" using assms(3) by (rule reachable_mono) simp
  note inv = naming_reachable [OF assms(1-3)]
  have own: "cd_ownPath p = master_path (seq_name (Min (live ?z)))" using assms(4,5,7) by (auto simp: numbered_def)
  have lists: "can_lead fw ?z q" if "cd_pc q = Listing" "cd_ownPath q = cd_ownPath p" for q
    using contenders.reachable_number(3) [OF candidates_contend [OF assms(1)] r] assms(6) own that
    by (intro can_lead_listing [OF assms(1,2)]) auto
  have probes: "can_lead fw ?z q" if "cd_pc q = Probing x" "names_leader c x" "cd_ownPath q = cd_ownPath p" for q x
  proof (rule can_lead_step)
    have "cf_checkExists fw x ?z \<noteq> ZOK"
      using assms(4,5,7,8) by (intro leader_gone [OF assms(1,2) r _ _ that(2), of i]) (simp_all add: proc_is_def)
    then show "candidate_step fw (?z, q) (?z, q\<lparr>cd_pc := Listing\<rparr>)"
      using candidate_step.testing [OF that(1), of fw ?z] by (simp add: test_current_def)
  qed (use lists that(3) in simp_all)
  have "can_lead fw ?z p"
  proof (cases "cd_pc p")
    case Reading
    show ?thesis
    proof (rule can_lead_step [OF candidate_step.reading [OF Reading]])
      show "can_lead fw ?z (read_current fw ?z p)"
        using lists [of "read_current fw ?z p"] probes [of "read_current fw ?z p" "cf_getData fw ''/masters'' ?z"] inv
        by (cases "cf_getData fw ''/masters'' ?z = []") (simp_all add: read_current_def naming_inv_def)
    qed simp
  next
    case (Probing x)
    then have "names_leader c x" using inv assms(4) unfolding naming_inv_def proc_is_def by blast
    with Probing probes show ?thesis by blast
  next
    case Thrown
    then show ?thesis using inv assms(4-6) unfolding naming_inv_def proc_is_def by blast
  qed (use can_lead_claiming [OF assms(2)] lists assms(8) in auto)
  then show ?thesis by (simp add: can_lead_def)
qed

text \<open>Demonstration: one master of the prototype, registered and then past the listing.\<close>

definition demo_candidate_proc :: candidate where
  "demo_candidate_proc = \<lparr>cd_ownPath = master_path (seq_name 0), cd_hadPreviousLeader = False, cd_pc = Reading\<rparr>"

abbreviation demo_proto :: "el_pc \<Rightarrow> (seq_state, candidate) system" where
  "demo_proto pc \<equiv> \<lparr>sys_z = (1, [0], [(''/masters'', [])]), sys_procs = [0 \<mapsto> demo_candidate_proc\<lparr>cd_pc := pc\<rparr>]\<rparr>"

lemma demo_proto_step:
  assumes "candidate_step seq_zk ((1, [0], [(''/masters'', [])]), demo_candidate_proc\<lparr>cd_pc := pc\<rparr>)
    ((1, [0], [(''/masters'', [])]), demo_candidate_proc\<lparr>cd_pc := pc'\<rparr>)"
  shows "proto_step seq_zk seq_expire seq_next (demo_proto pc) (demo_proto pc')"
  using system_step.act [of "demo_proto pc" 0 "demo_candidate_proc\<lparr>cd_pc := pc\<rparr>" "candidate_step seq_zk"] assms by simp

lemma demo_proto_reachable:
  "reachable (\<lambda>c. system_init seq_live c \<and> cf_getData seq_zk ''/masters'' (sys_z c) = [])
     (proto_step seq_zk seq_expire seq_next) (demo_proto Claiming)"
proof (rule reachable_rtranclp)
  let ?step = "proto_step seq_zk seq_expire seq_next"
  let ?c0 = "\<lparr>sys_z = (0, [], []), sys_procs = Map.empty\<rparr> :: (seq_state, candidate) system"
  show "reachable (\<lambda>c. system_init seq_live c \<and> cf_getData seq_zk ''/masters'' (sys_z c) = []) ?step ?c0"
    by (rule reachable.start) (simp add: system_init_def seq_zk_def)
  have "register_master seq_zk (0, [], []) = ((1, [0], [(''/masters'', [])]), demo_candidate_proc)"
    by (simp add: register_master_def seq_zk_def demo_candidate_proc_def)
  then have "?step ?c0 (demo_proto Reading)"
    using system_step.join [of ?c0 0 seq_next "proto_register seq_zk"] by (simp add: demo_candidate_proc_def)
  moreover have "?step (demo_proto Reading) (demo_proto Listing)"
    using candidate_step.reading [of "demo_candidate_proc\<lparr>cd_pc := Reading\<rparr>" seq_zk "(1, [0], [(''/masters'', [])])"]
    by (intro demo_proto_step) (simp add: read_current_def seq_zk_def)
  moreover have "?step (demo_proto Listing) (demo_proto Claiming)"
    using candidate_step.listing [of "demo_candidate_proc\<lparr>cd_pc := Listing\<rparr>" seq_zk "(1, [0], [(''/masters'', [])])"]
    by (intro demo_proto_step) (simp add: list_candidates_def seq_zk_def demo_candidate_proc_def master_path_def)
  ultimately show "?step\<^sup>*\<^sup>* ?c0 (demo_proto Claiming)" by (meson converse_rtranclp_into_rtranclp rtranclp.rtrancl_refl)
qed

lemma demo_proto_facts:
  "proc_is chosen (demo_proto Claiming) 0" "numbered cd_ownPath (demo_proto Claiming) 0 0"
  "0 \<in> seq_live (sys_z (demo_proto Claiming))"
  by (simp_all add: proc_is_def numbered_def chosen_def demo_candidate_proc_def)

theorem prototype_one_leader_witness:
  "proc_is chosen (demo_proto Claiming) 0 \<and> 0 = Min (seq_live (sys_z (demo_proto Claiming)))"
proof -
  have "reachable (system_init seq_live) (proto_step seq_zk seq_expire seq_next) (demo_proto Claiming)"
    using demo_proto_reachable by (rule reachable_mono) simp
  from prototype_one_leader [OF seq_zk_numbered this demo_proto_facts demo_proto_facts] demo_proto_facts(1)
  show ?thesis by blast
qed

lemma seq_zk_leader_data: "leader_data_zk seq_zk seq_expire seq_live"
  unfolding leader_data_zk_def
proof (intro conjI allI impI)
  fix n :: nat and z assume n: "n < 10 ^ 10"
  have "take 9 (master_path (seq_name n)) = ''/masters/''" by (simp add: master_path_def)
  then show "cf_checkExists seq_zk (master_path (seq_name n)) z = ZOK \<longleftrightarrow> n \<in> seq_live z"
    using n seq_name_inj by (cases z) (auto simp: seq_zk_def ZOK_def)
qed (auto simp: seq_zk_def map_add_def split: prod.splits option.splits)

theorem prototype_oldest_leads_witness:
  "\<exists>z q. (candidate_step seq_zk)\<^sup>*\<^sup>* (sys_z (demo_proto Claiming), demo_candidate_proc\<lparr>cd_pc := Claiming\<rparr>) (z, q) \<and>
     cd_pc q = Elected \<and> cf_getData seq_zk ''/masters'' z = master_path (seq_name 0)"
  using prototype_oldest_leads [OF seq_zk_numbered seq_zk_leader_data demo_proto_reachable _ demo_proto_facts(2,3)]
  by (simp add: demo_candidate_proc_def)

section \<open>Greetings\<close>

text \<open>
  What the prototype's leader sees of a worker's answer: the greeting with the suffix when the call
  succeeds and \<^verbatim>\<open>RPC failed\<close> otherwise, so a failed call is never mistaken for a greeting.
\<close>

theorem greeting_round_trip:
  "SayHello (\<lambda>user. (code, if status_ok code then greeter_reply user else [])) user =
     (if status_ok code then user @ ''gatech'' else ''RPC failed'') \<and>
   user @ ''gatech'' \<noteq> ''RPC failed''"
proof -
  have "last (user @ ''gatech'') \<noteq> last ''RPC failed''" by simp
  then have "user @ ''gatech'' \<noteq> ''RPC failed''" by metis
  then show ?thesis by (simp add: SayHello_def greeter_reply_def)
qed

text \<open>
  The test for a missing worker address never fires: the port is appended before the test, so the
  loop is left at once whatever ZooKeeper holds, also for a worker that has not written its address; the
  leader then calls \<^verbatim>\<open>:50051\<close>.
\<close>

theorem address_test_never_fires:
  assumes "cf_getChildren fw ''/workers'' z = Inr (w # ws)"
  shows "\<exists>target. lookup_worker fw z = Inr target \<and> wait_address target = Some target \<and>
    (cf_getData fw (''/workers/'' @ w) z = [] \<longrightarrow> target = '':50051'')"
  using assms by (simp add: lookup_worker_def wait_address.simps)

theorem address_test_never_fires_witness:
  "lookup_worker demo_zk [(''/workers/worker_0'', [])] = Inr '':50051''"
  using address_test_never_fires [of demo_zk "[(''/workers/worker_0'', [])]" "''worker_0''" "[]"]
  by (simp add: demo_zk_def)

end
