(* ===== verification/PrototypeDocker.thy ===== *)
theory PrototypeDocker
  imports Prototype
begin

text \<open>
  The variant of the prototype that is built into the images (\<^verbatim>\<open>w6/DockerFolder/master.cc\<close> and
  \<^verbatim>\<open>worker.cc\<close>). Its masters recognise themselves by the data of their node, the pod's name, and
  wait for a watch on \<^verbatim>\<open>/leader\<close>; the master of \<^verbatim>\<open>w7\<close> took this election over and
  compares paths instead.
\<close>

section \<open>The code\<close>

definition docker_SayHello :: "(string \<Rightarrow> int \<times> string) \<Rightarrow> string \<Rightarrow> string" where
  "docker_SayHello stub user =
     (let (code, message) = stub user in if status_ok code then message else ''RPC failed'')"

definition docker_greeter_reply :: "string \<Rightarrow> string" where
  "docker_greeter_reply name = name @ ''gatech''"

text \<open>The worker's node has a fixed name, so a second worker shares it.\<close>

definition docker_register_worker :: "'z Conservator \<Rightarrow> string \<Rightarrow> 'z \<Rightarrow> ('z \<times> string) result" where
  "docker_register_worker fw ipAddress z =
     (let z1 = snd (cf_create fw False False ''/workers'' [] z);
          z2 = snd (cf_create fw False True ''/workers/worker1'' [] z1)
      in rbind (cf_getChildren fw ''/workers'' z2) (\<lambda>children.
           Inr (cf_setData fw ''/workers/worker1'' ipAddress z2, ipAddress @ '':50051'')))"

definition docker_exists_watcher :: "'z Conservator \<Rightarrow> 'z \<times> bool \<Rightarrow> 'z \<times> bool" where
  "docker_exists_watcher fw zw =
     (if cf_checkExists fw ''/leader'' (fst zw) = ZOK then zw else (fst zw, True))"

text \<open>The second component of the state is \<^verbatim>\<open>watchTriggered\<close>.\<close>

definition docker_elect_leader :: "'z Conservator \<Rightarrow> string \<Rightarrow> 'z \<times> bool \<Rightarrow> ('z \<times> bool) \<times> bool result" where
  "docker_elect_leader fw rid zw =
     (let z = fst zw in
      case cf_getChildren fw ''/masters'' z of
        Inl e \<Rightarrow> ((z, False), Inl e)
      | Inr cs \<Rightarrow>
          (let children = (if length cs > 1 then sort cs else cs) in
           case children of
             [] \<Rightarrow> ((z, False), Inl OutOfRange)
           | first # _ \<Rightarrow>
               if cf_getData fw (''/masters/'' @ first) z = rid
               then (let z1 = snd (cf_create fw False True ''/leader'' [] z);
                         z2 = cf_setData fw ''/leader'' first z1
                     in ((z2, False), Inr True))
               else ((z, False), Inr False)))"

text \<open>The start of \<^verbatim>\<open>main\<close> up to the loop, and one iteration of the loop.\<close>

definition docker_start :: "'z Conservator \<Rightarrow> string \<Rightarrow> 'z \<Rightarrow> ('z \<times> bool) \<times> bool result" where
  "docker_start fw podid z =
     (let existLeader = (cf_checkExists fw ''/leader'' z \<noteq> ZNONODE);
          z1 = snd (cf_create fw False False ''/masters'' [] z);
          z2 = snd (cf_create fw True True ''/masters/master_'' podid z1)
      in if \<not> existLeader then docker_elect_leader fw podid (z2, False) else ((z2, False), Inr False))"

definition docker_iteration :: "'z Conservator \<Rightarrow> string \<Rightarrow> 'z \<times> bool \<Rightarrow> ('z \<times> bool) \<times> bool result" where
  "docker_iteration fw podid zw =
     (if snd zw then docker_elect_leader fw podid zw else (zw, Inr False))"

text \<open>The leader checks that some worker is registered and then reads the address of the fixed node.\<close>

definition docker_lookup_worker :: "'z Conservator \<Rightarrow> 'z \<Rightarrow> string result" where
  "docker_lookup_worker fw z =
     rbind (cf_getChildren fw ''/workers'' z) (\<lambda>wrkrs.
       case wrkrs of [] \<Rightarrow> Inl OutOfRange
       | w # _ \<Rightarrow> Inr (cf_getData fw ''/workers/worker1'' z @ '':50051''))"

section \<open>The same election\<close>

lemma docker_elect_eq:
  assumes "cf_getChildren fw ''/masters'' z = Inr cs" "cs \<noteq> []"
  shows "docker_elect_leader fw rid (z, w) =
    (if cf_getData fw (master_path (Min (set cs))) z = rid
     then ((cf_setData fw ''/leader'' (Min (set cs)) (snd (cf_create fw False True ''/leader'' [] z)), False), Inr True)
     else ((z, False), Inr False))"
proof -
  obtain ys where "sort cs = Min (set cs) # ys" using sort_head [OF assms(2)] by blast
  then show ?thesis
    using assms(1) unfolding docker_elect_leader_def Let_def sort_if fst_conv by (auto simp: master_path_def)
qed

text \<open>
  The election by pod name and the election by node path are the same: when the data of the
  masters' nodes are pod names and only the own node has the own name, \<^verbatim>\<open>elect_leader\<close> of the
  image and that of \<^verbatim>\<open>w7\<close> give the same result and leave the same ZooKeeper state and watch flag,
  also when the candidates cannot be listed or there are none.
\<close>

theorem docker_election_same:
  assumes "\<not> m_has_failed m"
    and "\<forall>cs. cf_getChildren fw ''/masters'' z = Inr cs \<longrightarrow>
      (\<forall>c \<in> set cs. cf_getData fw (master_path c) z = podid \<longleftrightarrow> master_path c = m_nodepath m)"
  shows "docker_elect_leader fw podid (z, w) = elect_leader fw m (z, w)"
proof (cases "cf_getChildren fw ''/masters'' z")
  case (Inl e)
  then show ?thesis using assms(1) by (simp add: docker_elect_leader_def elect_leader_def)
next
  case (Inr cs)
  show ?thesis
  proof (cases "cs = []")
    case True
    with Inr show ?thesis using assms(1) by (simp add: docker_elect_leader_def elect_leader_def)
  next
    case False
    then have "Min (set cs) \<in> set cs" by simp
    then have "cf_getData fw (master_path (Min (set cs))) z = podid \<longleftrightarrow> m_nodepath m = master_path (Min (set cs))"
      using assms(2) Inr by (metis)
    then show ?thesis using docker_elect_eq [OF Inr False] elect_leader_eq [OF assms(1) Inr False] by simp
  qed
qed

theorem docker_election_same_witness:
  "docker_elect_leader demo_zk ''10.0.0.1:5050'' (demo_zk_state, True) = ((demo_zk_state @ [(''/leader'', ''master_1'')], False), Inr True)"
proof -
  have "docker_elect_leader demo_zk ''10.0.0.1:5050'' (demo_zk_state, True) = elect_leader demo_zk demo_candidate (demo_zk_state, True)"
  proof (rule docker_election_same)
    show "\<forall>cs. cf_getChildren demo_zk ''/masters'' demo_zk_state = Inr cs \<longrightarrow>
      (\<forall>c \<in> set cs. cf_getData demo_zk (master_path c) demo_zk_state = ''10.0.0.1:5050'' \<longleftrightarrow>
        master_path c = m_nodepath demo_candidate)"
      unfolding demo_election(1) by (simp add: demo_zk_def demo_zk_state_def demo_candidate_def master_path_def)
  qed (simp add: demo_candidate_def demo_master_simps)
  then show ?thesis using demo_election(3) by simp
qed

text \<open>Two workers of the image write to one node: the later one replaces the address of the earlier.\<close>

lemma docker_workers_collide:
  "rbind (docker_register_worker demo_zk ''10.0.0.1'' []) (\<lambda>(z, a).
     rbind (docker_register_worker demo_zk ''10.0.0.2'' z) (\<lambda>(z', a'). docker_lookup_worker demo_zk z')) = Inr ''10.0.0.2:50051''"
  by (simp add: docker_register_worker_def docker_lookup_worker_def demo_zk_def)

end
