(* ===== verification/PingThread.thy ===== *)
theory PingThread
  imports MasterState
begin

text \<open>
  The heartbeat thread of a request (\<^verbatim>\<open>start_ping\<close> and \<^verbatim>\<open>stop_ping\<close> of
  \<^verbatim>\<open>w7/src/master/masterimpl.cc\<close>) and the thread that serves the request
  (\<^verbatim>\<open>process\<close> of \<^verbatim>\<open>requesthandler.h\<close>), which starts it, works, stops it and joins it.
  Their statements interleave; the flag \<^verbatim>\<open>m_hbcheck\<close> is the only thing they share here.
\<close>

section \<open>The code\<close>

text \<open>Where the heartbeat thread is: not yet run, past the test for a failed master, at the loop test, in
  \<^verbatim>\<open>ping_workers\<close>, asleep, or returned; and where the request is.\<close>

datatype ping_pc = Created | Arming | LoopTest | Pinging | Asleep | PingReturned

datatype request_pc = Serving | Joining | Joined

record ping_state =
  pg_master :: Master
  pg_thread :: ping_pc
  pg_request :: request_pc

definition spawn_ping :: "Master \<Rightarrow> ping_state" where
  "spawn_ping m = \<lparr>pg_master = m, pg_thread = Created, pg_request = Serving\<rparr>"

definition enter_ping :: "ping_state \<Rightarrow> ping_state" where
  "enter_ping s = s\<lparr>pg_thread := (if m_has_failed (pg_master s) then PingReturned else Arming)\<rparr>"

definition arm_ping :: "ping_state \<Rightarrow> ping_state" where
  "arm_ping s = s\<lparr>pg_master := (pg_master s)\<lparr>m_hbcheck := True\<rparr>, pg_thread := LoopTest\<rparr>"

definition test_ping :: "ping_state \<Rightarrow> ping_state" where
  "test_ping s = s\<lparr>pg_thread := (if m_hbcheck (pg_master s) then Pinging else PingReturned)\<rparr>"

definition stop_request :: "ping_state \<Rightarrow> ping_state" where
  "stop_request s = s\<lparr>pg_master := stop_ping (pg_master s), pg_request := Joining\<rparr>"

inductive ping_step :: "ping_state \<Rightarrow> ping_state \<Rightarrow> bool" where
  enter: "pg_thread s = Created \<Longrightarrow> ping_step s (enter_ping s)"
| arm: "pg_thread s = Arming \<Longrightarrow> ping_step s (arm_ping s)"
| test: "pg_thread s = LoopTest \<Longrightarrow> ping_step s (test_ping s)"
| ping: "\<lbrakk>pg_thread s = Pinging; ping_workers cq (pg_master s) = Some m'\<rbrakk> \<Longrightarrow>
    ping_step s (s\<lparr>pg_master := m', pg_thread := Asleep\<rparr>)"
| wake: "pg_thread s = Asleep \<Longrightarrow> ping_step s (s\<lparr>pg_thread := LoopTest\<rparr>)"
| serve: "\<lbrakk>pg_request s = Serving; m_hbcheck m' = m_hbcheck (pg_master s)\<rbrakk> \<Longrightarrow>
    ping_step s (s\<lparr>pg_master := m'\<rparr>)"
| stop: "pg_request s = Serving \<Longrightarrow> ping_step s (stop_request s)"
| join: "\<lbrakk>pg_request s = Joining; pg_thread s = PingReturned\<rbrakk> \<Longrightarrow> ping_step s (s\<lparr>pg_request := Joined\<rparr>)"

lemmas ping_defs = enter_ping_def arm_ping_def test_ping_def stop_request_def stop_ping_def spawn_ping_def

lemma ping_workers_flag: "ping_workers cq m = Some m' \<Longrightarrow> m_hbcheck m' = m_hbcheck m"
  by (auto simp: ping_workers_def Let_def split: option.splits)

section \<open>The thread stops\<close>

text \<open>Stopped after the flag was set: the flag is down and nobody raises it again.\<close>

definition stopped :: "ping_state \<Rightarrow> bool" where
  "stopped s \<longleftrightarrow> pg_request s \<noteq> Serving \<and> (m_hbcheck (pg_master s) \<longrightarrow> pg_thread s = PingReturned) \<and>
     pg_thread s \<notin> {Created, Arming}"

fun ping_rank :: "ping_pc \<Rightarrow> nat" where
  "ping_rank Pinging = 3"
| "ping_rank Asleep = 2"
| "ping_rank LoopTest = 1"
| "ping_rank _ = 0"

definition ping_measure :: "ping_state \<Rightarrow> nat" where
  "ping_measure s = ping_rank (pg_thread s) + (if pg_request s = Joined then 0 else 1)"

lemma stopped_step:
  assumes "ping_step s t" "stopped s"
  shows "stopped t \<and> ping_measure t < ping_measure s"
  using assms
  by (induction rule: ping_step.induct) (auto simp: stopped_def ping_measure_def ping_defs ping_workers_flag)

text \<open>Every round of pings can be completed: each call is answered or times out.\<close>

lemma ping_answered: "\<exists>cq m'. ping_workers cq m = Some m'"
proof -
  let ?answers = "map (\<lambda>p. (p, 4)) (m_Clients m)"
  let ?h = "fold (\<lambda>p. setPingStatus p PING_CHECK) (m_Clients m) (heap m)"
  obtain h' where "completion_loop complete_ping (length ?answers) (map NextCall ?answers) ?h = Some h'"
    using ping.loop_returns [of "length ?answers" ?answers ?h] by auto
  then have "ping_workers (map NextCall ?answers) m = Some (m\<lparr>heap := h', g_ready := True\<rparr>)"
    by (simp add: ping_workers_def AsyncCompletePingRpc_def)
  then show ?thesis by blast
qed

lemma stopped_progress:
  assumes "stopped s" "pg_request s \<noteq> Joined"
  shows "\<exists>t. ping_step s t"
proof (cases "pg_thread s")
  case Pinging
  then show ?thesis using ping_answered [of "pg_master s"] ping_step.ping by blast
next
  case PingReturned
  then show ?thesis using assms ping_step.join by (cases "pg_request s") (auto simp: stopped_def)
qed (use assms(1) ping_step.test ping_step.wake in \<open>auto simp: stopped_def\<close>)

lemma stopped_joins: "stopped s \<Longrightarrow> \<exists>t. ping_step\<^sup>*\<^sup>* s t \<and> pg_request t = Joined"
proof (induction "ping_measure s" arbitrary: s rule: less_induct)
  case less
  show ?case
  proof (cases "pg_request s = Joined")
    case False
    then obtain t where t: "ping_step s t" using stopped_progress [OF less.prems] by blast
    then show ?thesis
      using less.hyps [of t] stopped_step [OF t less.prems] by (meson converse_rtranclp_into_rtranclp)
  qed auto
qed

lemma stopped_finite: "stopped (f 0) \<Longrightarrow> \<exists>i. \<not> ping_step (f i) (f (Suc i))"
proof (rule ccontr)
  assume s: "stopped (f 0)" and "\<nexists>i. \<not> ping_step (f i) (f (Suc i))"
  then have step: "ping_step (f i) (f (Suc i))" for i by blast
  have inv: "stopped (f i)" for i by (induction i) (use s step stopped_step in blast)+
  have "ping_measure (f i) + i \<le> ping_measure (f 0)" for i
  proof (induction i)
    case (Suc i)
    with stopped_step [OF step inv, of i] show ?case by linarith
  qed simp
  from this [of "Suc (ping_measure (f 0))"] show False by simp
qed

text \<open>A run in which the heartbeat thread has raised the flag before the request stops it.\<close>

lemma run_stopped:
  assumes "ping_step\<^sup>*\<^sup>* s t" "pg_thread s \<notin> {Created, Arming}" "pg_request s = Serving" "pg_request t \<noteq> Serving"
  shows "stopped t"
proof -
  have "pg_thread t \<notin> {Created, Arming} \<and> (pg_request t = Serving \<or> stopped t)"
    using assms(1)
  proof (induction rule: rtranclp_induct)
    case (step t u)
    have "pg_thread u \<notin> {Created, Arming}" "pg_request u = Serving \<or> stopped u" if "pg_request t = Serving"
      using step(2,3) that by (induction rule: ping_step.induct) (auto simp: ping_defs stopped_def)
    then show ?case using step.IH stopped_step [OF step(2)] by (auto simp: stopped_def)
  qed (use assms in simp)
  with assms(4) show ?thesis by blast
qed

text \<open>
  C26: The heartbeat thread stops: once it has raised its flag, a request that has called
  \<^verbatim>\<open>stop_ping\<close> afterwards is joined. It can be joined from every such state, and there is no
  infinite run, wherever the thread was in its loop, because every step from there on brings the join
  closer.
\<close>

theorem ping_thread_stops:
  assumes "ping_step\<^sup>*\<^sup>* (spawn_ping m) s" "pg_thread s \<notin> {Created, Arming}" "pg_request s = Serving"
    and "ping_step\<^sup>*\<^sup>* s t" "pg_request t = Joining"
  shows "(\<exists>u. ping_step\<^sup>*\<^sup>* t u \<and> pg_request u = Joined) \<and>
    (\<forall>f. f 0 = t \<longrightarrow> (\<exists>i. \<not> ping_step (f i) (f (Suc i))))"
  using run_stopped [OF assms(4,2,3)] assms(5) stopped_joins stopped_finite by simp

text \<open>
  C39: The flag is raised by the heartbeat thread itself, so a request that finishes before the thread has
  run is never answered: \<^verbatim>\<open>stop_ping\<close> lowers a flag that is not up yet, the thread then raises it and
  pings for ever, and the join never returns. The state is reachable for every master that has not failed.
\<close>

theorem early_stop_hangs:
  assumes "\<not> m_has_failed m"
  shows "\<exists>s. ping_step\<^sup>*\<^sup>* (spawn_ping m) s \<and> pg_request s = Joining \<and>
    (\<forall>t. ping_step\<^sup>*\<^sup>* s t \<longrightarrow> pg_request t = Joining)"
proof -
  let ?s1 = "enter_ping (spawn_ping m)"
  let ?s2 = "stop_request ?s1"
  have "ping_step (spawn_ping m) ?s1" "ping_step ?s1 ?s2"
    using ping_step.enter [of "spawn_ping m"] ping_step.stop [of ?s1] by (simp_all add: ping_defs)
  moreover have "pg_request t = Joining \<and> (pg_thread t = Arming \<or>
      pg_thread t \<in> {LoopTest, Pinging, Asleep} \<and> m_hbcheck (pg_master t))"
    if "ping_step\<^sup>*\<^sup>* ?s2 t" for t
    using that
  proof (induction rule: rtranclp_induct)
    case base
    then show ?case using assms by (simp add: ping_defs)
  next
    case (step t u)
    from step(2,3) show ?case
      by (induction rule: ping_step.induct) (auto simp: ping_defs ping_workers_flag)
  qed
  moreover have "pg_request ?s2 = Joining" by (simp add: ping_defs)
  ultimately show ?thesis by (meson converse_rtranclp_into_rtranclp rtranclp.rtrancl_refl)
qed

abbreviation demo_ping_master :: Master where
  "demo_ping_master \<equiv> new_Master 0 (\<lambda>_. new_MapReduceClient [] PING_FAIL)"

lemma demo_ping_live: "\<not> m_has_failed demo_ping_master"
  by (simp add: new_Master_def)

theorem early_stop_hangs_witness:
  "\<exists>s. ping_step\<^sup>*\<^sup>* (spawn_ping demo_ping_master) s \<and> pg_request s = Joining \<and>
    (\<forall>t. ping_step\<^sup>*\<^sup>* s t \<longrightarrow> pg_request t = Joining)"
  using demo_ping_live by (rule early_stop_hangs)

theorem ping_thread_stops_witness:
  "\<exists>t u. ping_step\<^sup>*\<^sup>* (spawn_ping demo_ping_master) t \<and> pg_request t = Joining \<and>
     ping_step\<^sup>*\<^sup>* t u \<and> pg_request u = Joined"
proof -
  let ?s1 = "enter_ping (spawn_ping demo_ping_master)"
  let ?s2 = "arm_ping ?s1"
  let ?t = "stop_request ?s2"
  have "ping_step (spawn_ping demo_ping_master) ?s1" "ping_step ?s1 ?s2"
    using ping_step.enter [of "spawn_ping demo_ping_master"] ping_step.arm [of ?s1] demo_ping_live
    by (simp_all add: ping_defs)
  then have s: "ping_step\<^sup>*\<^sup>* (spawn_ping demo_ping_master) ?s2"
    by (rule rtranclp.rtrancl_into_rtrancl [OF r_into_rtranclp])
  have t: "ping_step\<^sup>*\<^sup>* ?s2 ?t" using ping_step.stop [of ?s2] by (simp add: ping_defs r_into_rtranclp)
  have pcs: "pg_thread ?s2 \<notin> {Created, Arming}" "pg_request ?s2 = Serving" "pg_request ?t = Joining"
    by (simp_all add: ping_defs)
  from ping_thread_stops [OF s pcs(1,2) t pcs(3)] rtranclp_trans [OF s t] pcs(3) show ?thesis by blast
qed

end
