(* ===== verification/Request.thy ===== *)
theory Request
  imports RequestHandler PingThread Job
begin

text \<open>
  A request from the start of its heartbeat thread to its answer: the rest of \<^verbatim>\<open>process\<close> of
  \<^verbatim>\<open>w7/src/master/requesthandler.h\<close>, and in the same way that of \<^verbatim>\<open>processReplicatedData\<close>. The map dispatch,
  the reduce dispatch, the heartbeat thread and the completion thread of the map phase, which outlives its
  dispatch, run over one master; then the threads are joined.
\<close>

section \<open>The code\<close>

text \<open>Where the thread of the request is: in \<^verbatim>\<open>runMapper\<close>, in \<^verbatim>\<open>runReducer\<close> up to its joins (with the
  position of the completion thread \<^verbatim>\<open>m_t1\<close> of the map phase), in the join of the heartbeat thread, finished, or
  ended by \<^verbatim>\<open>std::terminate\<close>.\<close>

datatype request_phase =
    InMap map_state
  | InReduce reduce_state "map_reply completion_pc"
  | InJoin Master
  | Answered Master
  | Terminated Master

record request_run =
  rq_phase :: request_phase
  rq_ping :: ping_pc

primrec phase_master :: "request_phase \<Rightarrow> Master" where
  "phase_master (InMap s) = ms_master s"
| "phase_master (InReduce r t1) = rs_master r"
| "phase_master (InJoin m) = m"
| "phase_master (Answered m) = m"
| "phase_master (Terminated m) = m"

primrec on_master :: "(Master \<Rightarrow> Master) \<Rightarrow> request_phase \<Rightarrow> request_phase" where
  "on_master f (InMap s) = InMap (s\<lparr>ms_master := f (ms_master s)\<rparr>)"
| "on_master f (InReduce r t1) = InReduce (r\<lparr>rs_master := f (rs_master r)\<rparr>) t1"
| "on_master f (InJoin m) = InJoin (f m)"
| "on_master f (Answered m) = Answered (f m)"
| "on_master f (Terminated m) = Terminated (f m)"

primrec serving :: "request_phase \<Rightarrow> bool" where
  "serving (InMap s) = True"
| "serving (InReduce r t1) = True"
| "serving (InJoin m) = True"
| "serving (Answered m) = False"
| "serving (Terminated m) = False"

text \<open>\<^verbatim>\<open>process\<close> starts the heartbeat thread and enters \<^verbatim>\<open>runMapper\<close>.\<close>

definition start_request :: "map_state \<Rightarrow> request_run" where
  "start_request s = \<lparr>rq_phase = InMap s, rq_ping = Created\<rparr>"

text \<open>What the completion thread does after it has queued its last response: the rest of its iteration, on the
  master the reduce phase works with.\<close>

definition finish_map_call :: "map_reply \<Rightarrow> Master \<Rightarrow> Master" where
  "finish_map_call reply m =
     (case reply of (call, code, ir) \<Rightarrow>
        if status_ok code
        then m\<lparr>heap := setStatus (mc_client call) MAP_DONE (heap m), g_repl_data := True,
               g_repl_list := g_repl_list m @
                 [new_MapperResult SUCCESS (mc_shardId call) (ir_containername ir) False (ir_blobs ir)]\<rparr>
        else m)"

text \<open>Ping statuses change only in a ping round. A throw inside \<^verbatim>\<open>runReducer\<close> destroys the
  \<^verbatim>\<open>std::thread\<close> of the heartbeat while it is joinable. A completion thread of the map phase that still holds a
  call would use variables that are gone: there is no step for it.\<close>

definition same_pings :: "Master \<Rightarrow> Master \<Rightarrow> bool" where
  "same_pings m m' \<longleftrightarrow> (\<forall>p. pingStatus (heap m' p) = pingStatus (heap m p))"

inductive request_step ::
    "(AsyncClientMapCall \<Rightarrow> int \<Rightarrow> IntermediateResult \<Rightarrow> bool) \<Rightarrow>
     (AsyncClientReduceCall \<Rightarrow> int \<Rightarrow> FinalResult \<Rightarrow> bool) \<Rightarrow> request_run \<Rightarrow> request_run \<Rightarrow> bool"
  for manswers ranswers where
  map: "\<lbrakk>rq_phase q = InMap s; map_step manswers s s';
      rq_ping q = Pinging \<or> same_pings (ms_master s) (ms_master s')\<rbrakk> \<Longrightarrow>
    request_step manswers ranswers q (q\<lparr>rq_phase := InMap s'\<rparr>)"
| mapped: "\<lbrakk>rq_phase q = InMap s; ms_pc s = Returned\<rbrakk> \<Longrightarrow>
    request_step manswers ranswers q (q\<lparr>rq_phase := InReduce (runReducer (ms_master s)) (ms_tpc s)\<rparr>)"
| reduce: "\<lbrakk>rq_phase q = InReduce r t1; reduce_step ranswers r r';
      rq_ping q = Pinging \<or> same_pings (rs_master r) (rs_master r')\<rbrakk> \<Longrightarrow>
    request_step manswers ranswers q (q\<lparr>rq_phase := InReduce r' t1\<rparr>)"
| t1_finish: "rq_phase q = InReduce r (Pushed reply) \<Longrightarrow>
    request_step manswers ranswers q
      (q\<lparr>rq_phase := InReduce (r\<lparr>rs_master := finish_map_call reply (rs_master r)\<rparr>) TestDone\<rparr>)"
| t1_exit: "\<lbrakk>rq_phase q = InReduce r TestDone; m_map_done (rs_master r)\<rbrakk> \<Longrightarrow>
    request_step manswers ranswers q (q\<lparr>rq_phase := InReduce r Exited\<rparr>)"
| joined: "\<lbrakk>rq_phase q = InReduce r Exited; rs_pc r = RReturned; rs_tpc r = Exited\<rbrakk> \<Longrightarrow>
    request_step manswers ranswers q (q\<lparr>rq_phase := InJoin (stop_ping (rs_master r))\<rparr>)"
| throw: "\<lbrakk>rq_phase q = InReduce r t1; rs_pc r = RThrown\<rbrakk> \<Longrightarrow>
    request_step manswers ranswers q (q\<lparr>rq_phase := Terminated (rs_master r)\<rparr>)"
| answer: "\<lbrakk>rq_phase q = InJoin m; rq_ping q = PingReturned\<rbrakk> \<Longrightarrow>
    request_step manswers ranswers q (q\<lparr>rq_phase := Answered m\<rparr>)"
| enter: "\<lbrakk>serving (rq_phase q); rq_ping q = Created\<rbrakk> \<Longrightarrow>
    request_step manswers ranswers q
      (q\<lparr>rq_ping := (if m_has_failed (phase_master (rq_phase q)) then PingReturned else Arming)\<rparr>)"
| arm: "\<lbrakk>serving (rq_phase q); rq_ping q = Arming\<rbrakk> \<Longrightarrow>
    request_step manswers ranswers q
      (q\<lparr>rq_phase := on_master (\<lambda>m. m\<lparr>m_hbcheck := True\<rparr>) (rq_phase q), rq_ping := LoopTest\<rparr>)"
| test: "\<lbrakk>serving (rq_phase q); rq_ping q = LoopTest\<rbrakk> \<Longrightarrow>
    request_step manswers ranswers q
      (q\<lparr>rq_ping := (if m_hbcheck (phase_master (rq_phase q)) then Pinging else PingReturned)\<rparr>)"
| round: "\<lbrakk>serving (rq_phase q); rq_ping q = Pinging\<rbrakk> \<Longrightarrow>
    request_step manswers ranswers q (q\<lparr>rq_ping := ping_pc.Asleep\<rparr>)"
| wake: "\<lbrakk>serving (rq_phase q); rq_ping q = ping_pc.Asleep\<rbrakk> \<Longrightarrow>
    request_step manswers ranswers q (q\<lparr>rq_ping := LoopTest\<rparr>)"

section \<open>What the dispatchers do not look at\<close>

text \<open>The flag of the heartbeat thread and the copies for the replica play no role in the dispatches:
  any values there keep a step a step, except that a master that is set to fail lowers the flag.\<close>

definition flag_map :: "bool \<Rightarrow> map_state \<Rightarrow> map_state" where
  "flag_map b s = s\<lparr>ms_master := (ms_master s)\<lparr>m_hbcheck := b\<rparr>\<rparr>"

definition flag_reduce :: "bool \<Rightarrow> bool \<Rightarrow> MapperResult list \<Rightarrow> reduce_state \<Rightarrow> reduce_state" where
  "flag_reduce b d l r =
     r\<lparr>rs_master := (rs_master r)\<lparr>m_hbcheck := b, g_repl_data := d, g_repl_list := l\<rparr>\<rparr>"

lemma flag_map_simps:
  "ms_pc (flag_map b s) = ms_pc s" "ms_tpc (flag_map b s) = ms_tpc s" "ms_job_q (flag_map b s) = ms_job_q s"
  "ms_cq (flag_map b s) = ms_cq s" "ms_responseList (flag_map b s) = ms_responseList s" "ms_nrpcs (flag_map b s) = ms_nrpcs s"
  "ms_master (flag_map b s) = (ms_master s)\<lparr>m_hbcheck := b\<rparr>"
  "flag_map b (s\<lparr>ms_pc := pc\<rparr>) = (flag_map b s)\<lparr>ms_pc := pc\<rparr>" "flag_map b (s\<lparr>ms_tpc := x\<rparr>) = (flag_map b s)\<lparr>ms_tpc := x\<rparr>"
  "flag_map b (s\<lparr>ms_cq := cq\<rparr>) = (flag_map b s)\<lparr>ms_cq := cq\<rparr>"
  "flag_map b (s\<lparr>ms_responseList := rl\<rparr>) = (flag_map b s)\<lparr>ms_responseList := rl\<rparr>"
  "flag_map b (s\<lparr>ms_master := m\<lparr>heap := h\<rparr>\<rparr>) = (flag_map b s)\<lparr>ms_master := m\<lparr>m_hbcheck := b, heap := h\<rparr>\<rparr>"
  by (simp_all add: flag_map_def)

lemma flag_map_send:
  "b \<longrightarrow> \<not> m_will_fail (ms_master s) \<Longrightarrow> flag_map b (send_map_task c s) = send_map_task c (flag_map b s)"
proof (cases b)
  case True
  assume "b \<longrightarrow> \<not> m_will_fail (ms_master s)"
  with True show ?thesis by (simp add: flag_map_def send_map_task_def invokeMapTaskAsync_def Let_def check_fail_off)
qed (simp add: flag_map_def send_map_task_def invokeMapTaskAsync_def cpp_defs)

lemma flag_map_actions:
  "flag_map b (process_map_response s) = process_map_response (flag_map b s)"
  "flag_map b (test_map_done s) = test_map_done (flag_map b s)"
  "flag_map b (push_map_response r s) = push_map_response r (flag_map b s)"
  "flag_map b (record_map_success r s) = record_map_success r (flag_map b s)"
  by (simp_all add: flag_map_def action_defs Let_def split: prod.splits)

lemma flag_map_step:
  "map_step answers s t \<Longrightarrow> b \<longrightarrow> \<not> m_will_fail (ms_master s) \<Longrightarrow> map_step answers (flag_map b s) (flag_map b t)"
proof (induction rule: map_step.induct)
  case (ping s p cst pst)
  show ?case using map_step.ping [of answers "flag_map b s" p cst pst] by (simp add: flag_map_simps)
qed (auto simp: flag_map_simps flag_map_send flag_map_actions intro: map_step.intros)

lemma flag_reduce_simps:
  "rs_pc (flag_reduce b d l s) = rs_pc s" "rs_tpc (flag_reduce b d l s) = rs_tpc s" "rs_job_q (flag_reduce b d l s) = rs_job_q s"
  "rs_cq (flag_reduce b d l s) = rs_cq s" "rs_responseList (flag_reduce b d l s) = rs_responseList s"
  "rs_nrpcs (flag_reduce b d l s) = rs_nrpcs s" "rs_done (flag_reduce b d l s) = rs_done s"
  "rs_master (flag_reduce b d l s) = (rs_master s)\<lparr>m_hbcheck := b, g_repl_data := d, g_repl_list := l\<rparr>"
  "flag_reduce b d l (s\<lparr>rs_pc := pc\<rparr>) = (flag_reduce b d l s)\<lparr>rs_pc := pc\<rparr>"
  "flag_reduce b d l (s\<lparr>rs_tpc := x\<rparr>) = (flag_reduce b d l s)\<lparr>rs_tpc := x\<rparr>"
  "flag_reduce b d l (s\<lparr>rs_cq := cq\<rparr>) = (flag_reduce b d l s)\<lparr>rs_cq := cq\<rparr>"
  "flag_reduce b d l (s\<lparr>rs_master := m\<lparr>heap := h\<rparr>\<rparr>) =
     (flag_reduce b d l s)\<lparr>rs_master := m\<lparr>m_hbcheck := b, g_repl_data := d, g_repl_list := l, heap := h\<rparr>\<rparr>"
  "too_many_outstanding (flag_reduce b d l s) = too_many_outstanding s"
  by (simp_all add: flag_reduce_def too_many_outstanding_def)

lemma flag_reduce_send:
  "b \<longrightarrow> \<not> m_will_fail (rs_master s) \<Longrightarrow>
     flag_reduce b d l (send_reduce_task vec c s) = send_reduce_task vec c (flag_reduce b d l s)"
proof (cases b)
  case True
  assume "b \<longrightarrow> \<not> m_will_fail (rs_master s)"
  with True show ?thesis by (simp add: flag_reduce_def send_reduce_task_def invokeReduceTaskAsync_def Let_def check_fail_off)
qed (simp add: flag_reduce_def send_reduce_task_def invokeReduceTaskAsync_def cpp_defs)

lemma flag_reduce_actions:
  "flag_reduce b d l (scan_response k s) = scan_response k (flag_reduce b d l s)"
  "flag_reduce b d l (test_reduce_done s) = test_reduce_done (flag_reduce b d l s)"
  "flag_reduce b d l (collect_outputs s) = collect_outputs (flag_reduce b d l s)"
  "flag_reduce b d l (push_reduce_response r s) = push_reduce_response r (flag_reduce b d l s)"
  by (simp_all add: flag_reduce_def reduce_action_defs Let_def split: prod.splits)

lemma flag_reduce_step:
  "reduce_step answers s t \<Longrightarrow> b \<longrightarrow> \<not> m_will_fail (rs_master s) \<Longrightarrow>
     reduce_step answers (flag_reduce b d l s) (flag_reduce b d l t)"
proof (induction rule: reduce_step.induct)
  case (ping s p cst pst)
  show ?case using reduce_step.ping [of answers "flag_reduce b d l s" p cst pst] by (simp add: flag_reduce_simps)
qed (auto simp: flag_reduce_simps flag_reduce_send flag_reduce_actions intro: reduce_step.intros)

lemma map_will_fail: "map_step answers s t \<Longrightarrow> m_will_fail (ms_master t) = m_will_fail (ms_master s)"
  by (induction rule: map_step.induct) (auto simp: action_defs master_fail.check_will Let_def split: prod.splits)

lemma reduce_will_fail: "reduce_step answers s t \<Longrightarrow> m_will_fail (rs_master t) = m_will_fail (rs_master s)"
  by (induction rule: reduce_step.induct) (auto simp: reduce_action_defs master_fail.check_will Let_def split: prod.splits)

lemma flag_map_run:
  "(map_step answers)\<^sup>*\<^sup>* s t \<Longrightarrow> b \<longrightarrow> \<not> m_will_fail (ms_master s) \<Longrightarrow>
     (map_step answers)\<^sup>*\<^sup>* (flag_map b s) (flag_map b t) \<and> m_will_fail (ms_master t) = m_will_fail (ms_master s)"
  by (induction rule: rtranclp_induct) (auto simp: map_will_fail dest: flag_map_step intro: rtranclp.rtrancl_into_rtrancl)

lemma flag_reduce_run:
  "(reduce_step answers)\<^sup>*\<^sup>* s t \<Longrightarrow> b \<longrightarrow> \<not> m_will_fail (rs_master s) \<Longrightarrow>
     (reduce_step answers)\<^sup>*\<^sup>* (flag_reduce b d l s) (flag_reduce b d l t) \<and>
     m_will_fail (rs_master t) = m_will_fail (rs_master s)"
  by (induction rule: rtranclp_induct) (auto simp: reduce_will_fail dest: flag_reduce_step intro: rtranclp.rtrancl_into_rtrancl)

section \<open>A request runs a job\<close>

text \<open>The copies for the replica after what \<^verbatim>\<open>m_t1\<close> still has to do.\<close>

definition final_copies :: "map_reply completion_pc \<Rightarrow> Master \<Rightarrow> bool \<times> MapperResult list" where
  "final_copies t1 m =
     (let m' = (case t1 of Pushed reply \<Rightarrow> finish_map_call reply m | _ \<Rightarrow> m) in (g_repl_data m', g_repl_list m'))"

text \<open>The part of a request behind its map phase, which ended in \<open>s\<close>, seen as a reduce dispatch.\<close>

definition after_map :: "(AsyncClientReduceCall \<Rightarrow> int \<Rightarrow> FinalResult \<Rightarrow> bool) \<Rightarrow> map_state \<Rightarrow> request_phase \<Rightarrow> bool" where
  "after_map ranswers s ph \<longleftrightarrow>
     (case ph of
        InMap _ \<Rightarrow> False
      | InReduce r t1 \<Rightarrow>
          (\<forall>d l. final_copies t1 (rs_master r) = (d, l) \<longrightarrow>
             (reduce_step ranswers)\<^sup>*\<^sup>* (runReducer (ms_master s)) (flag_reduce False d l r))
      | InJoin m \<Rightarrow>
          (\<exists>t. (reduce_step ranswers)\<^sup>*\<^sup>* (runReducer (ms_master s)) t \<and> rs_pc t = RReturned \<and> rs_master t = m\<lparr>m_hbcheck := False\<rparr>)
      | Answered m \<Rightarrow>
          (\<exists>t. (reduce_step ranswers)\<^sup>*\<^sup>* (runReducer (ms_master s)) t \<and> rs_pc t = RReturned \<and> rs_master t = m\<lparr>m_hbcheck := False\<rparr>)
      | Terminated m \<Rightarrow> True)"

lemma same_ping [simp]: "setPingStatus p (pingStatus (h p)) h = h"
  by (simp add: setPingStatus_def)

lemma status_back: "setStatus p (clientStatus (h p)) (setPingStatus p (pingStatus (h p)) (setStatus p x h)) = h"
  by (auto simp: setStatus_def setPingStatus_def)

lemma reduce_copies: "reduce_step answers s t \<Longrightarrow> final_copies t1 (rs_master t) = final_copies t1 (rs_master s)"
proof (induction rule: reduce_step.induct)
  case (send s i q vec c)
  then show ?case
    by (auto simp: final_copies_def finish_map_call_def send_reduce_task_def invokeReduceTaskAsync_def cpp_defs
        split: completion_pc.splits prod.splits)
qed (auto simp: final_copies_def finish_map_call_def scan_response_def test_reduce_done_def collect_outputs_def
    push_reduce_response_def Let_def split: completion_pc.splits prod.splits)

lemma finish_copies:
  "final_copies TestDone (finish_map_call reply m) = final_copies (Pushed reply) m"
  by (simp add: final_copies_def)

lemma finish_flagged:
  "(reduce_step answers)\<^sup>*\<^sup>* (flag_reduce b d l r) (flag_reduce b d l (r\<lparr>rs_master := finish_map_call reply (rs_master r)\<rparr>))"
proof -
  obtain call code ir where r: "reply = (call, code, ir)" by (cases reply)
  let ?p = "mc_client call" and ?h = "heap (rs_master r)"
  show ?thesis
  proof (cases "code = 0")
    case True
    have "flag_reduce b d l (r\<lparr>rs_master := finish_map_call reply (rs_master r)\<rparr>) =
        (flag_reduce b d l r)\<lparr>rs_master := (rs_master (flag_reduce b d l r))\<lparr>heap :=
           setStatus ?p MAP_DONE (setPingStatus ?p (pingStatus (?h ?p)) (heap (rs_master (flag_reduce b d l r))))\<rparr>\<rparr>"
      using True by (simp add: flag_reduce_def finish_map_call_def r)
    then show ?thesis using reduce_step.ping by (metis r_into_rtranclp)
  qed (simp add: finish_map_call_def r)
qed

text \<open>The start of the reduce phase: what the completion thread still has to do is done before, and undone on the
  heap by a step of the environment.\<close>

lemma reduce_entry:
  assumes "ms_tpc s = Pushed reply" "s' = record_map_success reply (flag_map False s)"
    and "final_copies (Pushed reply) (ms_master s) = (d, l)"
  shows "(reduce_step answers)\<^sup>*\<^sup>* (runReducer (ms_master s')) (flag_reduce False d l (runReducer (ms_master s)))"
proof -
  obtain call code ir where r: "reply = (call, code, ir)" by (cases reply)
  let ?p = "mc_client call" and ?h = "heap (ms_master s)" and ?r = "runReducer (ms_master s')"
  show ?thesis
  proof (cases "code = 0")
    case True
    have "flag_reduce False d l (runReducer (ms_master s)) =
        ?r\<lparr>rs_master := (rs_master ?r)\<lparr>heap :=
           setStatus ?p (clientStatus (?h ?p)) (setPingStatus ?p (pingStatus (?h ?p)) (heap (rs_master ?r)))\<rparr>\<rparr>"
      using True assms(3) status_back [of ?p ?h MAP_DONE]
      by (auto simp: assms(2) flag_reduce_def flag_map_def record_map_success_def final_copies_def finish_map_call_def r
          runReducer_def start_reduce_dispatch_def Let_def)
    then show ?thesis using reduce_step.ping by (metis r_into_rtranclp)
  next
    case False
    then have "flag_reduce False d l (runReducer (ms_master s)) = ?r"
      using assms(3) by (auto simp: assms(2) flag_reduce_def flag_map_def record_map_success_def final_copies_def
          finish_map_call_def r runReducer_def start_reduce_dispatch_def Let_def)
    then show ?thesis by simp
  qed
qed

lemma final_copies_flag [simp]: "final_copies t1 (m\<lparr>m_hbcheck := b\<rparr>) = final_copies t1 m"
  by (auto simp: final_copies_def finish_map_call_def split: completion_pc.splits prod.splits)

lemma after_map_step:
  assumes "request_step manswers ranswers q q'" "after_map ranswers s (rq_phase q)"
  shows "after_map ranswers s (rq_phase q')"
  using assms
proof (induction rule: request_step.induct)
  case (reduce q r t1 r')
  have "(reduce_step ranswers)\<^sup>*\<^sup>* (runReducer (ms_master s)) (flag_reduce False d l r')"
    if "final_copies t1 (rs_master r') = (d, l)" for d l
    using reduce that flag_reduce_step [OF reduce(2), of False d l] reduce_copies [OF reduce(2), of t1]
    by (auto simp: after_map_def intro: rtranclp.rtrancl_into_rtrancl)
  then show ?case by (simp add: after_map_def)
next
  case (t1_finish q r reply)
  let ?r = "r\<lparr>rs_master := finish_map_call reply (rs_master r)\<rparr>"
  have "(reduce_step ranswers)\<^sup>*\<^sup>* (runReducer (ms_master s)) (flag_reduce False d l ?r)"
    if "final_copies TestDone (rs_master ?r) = (d, l)" for d l
    using t1_finish that finish_flagged [of ranswers False d l r reply]
    by (auto simp: after_map_def finish_copies intro: rtranclp_trans)
  then show ?case by (simp add: after_map_def)
next
  case (t1_exit q r)
  then show ?case by (simp add: after_map_def final_copies_def)
next
  case (joined q r)
  let ?m = "rs_master r"
  have "rs_master (flag_reduce False (g_repl_data ?m) (g_repl_list ?m) r) = (stop_ping ?m)\<lparr>m_hbcheck := False\<rparr>"
    by (simp add: flag_reduce_def stop_ping_def)
  moreover have "(reduce_step ranswers)\<^sup>*\<^sup>* (runReducer (ms_master s)) (flag_reduce False (g_repl_data ?m) (g_repl_list ?m) r)"
    using joined by (simp add: after_map_def final_copies_def Let_def)
  moreover have "rs_pc (flag_reduce False (g_repl_data ?m) (g_repl_list ?m) r) = RReturned"
    using joined by (simp add: flag_reduce_simps)
  ultimately show ?case by (auto simp: after_map_def)
next
  case (arm q)
  then show ?case by (cases "rq_phase q") (auto simp: after_map_def flag_reduce_def)
qed (auto simp: after_map_def)

text \<open>The part of a request up to the end of its map phase, seen as a map dispatch.\<close>

definition request_job where
  "request_job manswers ranswers s0 ph \<longleftrightarrow>
     (case ph of
        InMap s \<Rightarrow> (map_step manswers)\<^sup>*\<^sup>* s0 (flag_map False s)
      | _ \<Rightarrow> (\<exists>s. (map_step manswers)\<^sup>*\<^sup>* s0 s \<and> ms_pc s = Returned \<and> after_map ranswers s ph))"

lemma request_job_after:
  "after_map ranswers s ph \<Longrightarrow> (map_step manswers)\<^sup>*\<^sup>* s0 s \<Longrightarrow> ms_pc s = Returned \<Longrightarrow> request_job manswers ranswers s0 ph"
  by (cases ph) (auto simp: request_job_def after_map_def)

lemma request_job_entry:
  assumes "(map_step manswers)\<^sup>*\<^sup>* s0 (flag_map False s)" "ms_pc s = Returned"
  shows "request_job manswers ranswers s0 (InReduce (runReducer (ms_master s)) (ms_tpc s))"
proof -
  obtain d l where dl: "final_copies (ms_tpc s) (ms_master s) = (d, l)" by fastforce
  have dl': "final_copies (ms_tpc s) (rs_master (runReducer (ms_master s))) = (d, l)"
    using dl by (auto simp: final_copies_def finish_map_call_def runReducer_def start_reduce_dispatch_def Let_def
        split: completion_pc.splits prod.splits)
  show ?thesis
  proof (cases "\<exists>reply. ms_tpc s = Pushed reply")
    case True
    then obtain reply where r: "ms_tpc s = Pushed reply" ..
    let ?s = "record_map_success reply (flag_map False s)"
    have "map_step manswers (flag_map False s) ?s" using r by (intro map_step.finish_call) (simp add: flag_map_simps)
    then have "(map_step manswers)\<^sup>*\<^sup>* s0 ?s" "ms_pc ?s = Returned"
      using assms by (auto simp: record_map_success_def flag_map_simps Let_def split: prod.splits)
    moreover have "after_map ranswers ?s (InReduce (runReducer (ms_master s)) (ms_tpc s))"
      using reduce_entry [OF r refl] dl dl' r by (simp add: after_map_def)
    ultimately show ?thesis by (blast intro: request_job_after)
  next
    case False
    then have "(d, l) = (g_repl_data (ms_master s), g_repl_list (ms_master s))"
      using dl by (cases "ms_tpc s") (auto simp: final_copies_def Let_def)
    then have "flag_reduce False d l (runReducer (ms_master s)) = runReducer (ms_master (flag_map False s))"
      by (simp add: flag_reduce_def flag_map_def runReducer_def start_reduce_dispatch_def)
    then have "after_map ranswers (flag_map False s) (InReduce (runReducer (ms_master s)) (ms_tpc s))"
      using dl' by (simp add: after_map_def)
    then show ?thesis by (rule request_job_after [OF _ assms(1)]) (simp add: flag_map_simps assms(2))
  qed
qed

lemma request_job_step:
  assumes "request_step manswers ranswers q q'" "request_job manswers ranswers s0 (rq_phase q)"
  shows "request_job manswers ranswers s0 (rq_phase q')"
proof (cases "\<exists>s. rq_phase q = InMap s")
  case False
  then obtain s where "(map_step manswers)\<^sup>*\<^sup>* s0 s" "ms_pc s = Returned" "after_map ranswers s (rq_phase q)"
    using assms(2) by (cases "rq_phase q") (auto simp: request_job_def)
  then show ?thesis using after_map_step [OF assms(1)] by (blast intro: request_job_after)
next
  case True
  then obtain s where s: "rq_phase q = InMap s" ..
  then have run: "(map_step manswers)\<^sup>*\<^sup>* s0 (flag_map False s)" using assms(2) by (simp add: request_job_def)
  from assms(1) show ?thesis
  proof cases
    case (map s1 s')
    with s run flag_map_step [of manswers s s' False] show ?thesis
      by (auto simp: request_job_def intro: rtranclp.rtrancl_into_rtrancl)
  next
    case (mapped s1)
    with s run request_job_entry [of manswers s0 s ranswers] show ?thesis by simp
  next
    case arm
    with s run show ?thesis by (simp add: request_job_def flag_map_def)
  qed (use s assms(2) in auto)
qed

text \<open>Every state of a request is a state of the job it runs. The heartbeat flag at the start plays no role.\<close>

lemma request_projection:
  assumes "(request_step manswers ranswers)\<^sup>*\<^sup>* (start_request s0) q"
  shows "request_job manswers ranswers (flag_map False s0) (rq_phase q)"
  using assms
proof (induction rule: rtranclp_induct)
  case base
  show ?case by (simp add: start_request_def request_job_def)
qed (rule request_job_step)

lemma idle_master:
  "flag_map b (runMapper m) = runMapper (m\<lparr>m_hbcheck := b\<rparr>)" "indexed_shards (m\<lparr>m_hbcheck := b\<rparr>) = indexed_shards m"
  "answerable (m\<lparr>m_hbcheck := b\<rparr>) answers = answerable m answers"
  by (simp_all add: flag_map_def runMapper_def start_map_dispatch_def indexed_shards_def answerable_def map_call_def
      map_query_def shard_index_def)

lemma after_map_steps:
  "(request_step manswers ranswers)\<^sup>*\<^sup>* q q' \<Longrightarrow> after_map ranswers s (rq_phase q) \<Longrightarrow> after_map ranswers s (rq_phase q')"
  by (induction rule: rtranclp_induct) (auto intro: after_map_step)

section \<open>A request can be completed\<close>

lemma lift_map:
  assumes "(map_step manswers)\<^sup>*\<^sup>* s t" "rq_phase q = InMap s" "rq_ping q = Pinging"
  shows "(request_step manswers ranswers)\<^sup>*\<^sup>* q (q\<lparr>rq_phase := InMap t\<rparr>)"
  using assms(1)
proof (induction rule: rtranclp_induct)
  case base
  show ?case using assms(2) by (metis request_run.surjective request_run.update_convs(1) rtranclp.rtrancl_refl old.unit.exhaust)
next
  case (step t u)
  have "request_step manswers ranswers (q\<lparr>rq_phase := InMap t\<rparr>) (q\<lparr>rq_phase := InMap t\<rparr>\<lparr>rq_phase := InMap u\<rparr>)"
    using step(2) assms(3) by (intro request_step.map) auto
  with step.IH show ?case by simp
qed

lemma lift_reduce:
  assumes "(reduce_step ranswers)\<^sup>*\<^sup>* r r'" "rq_phase q = InReduce r t1" "rq_ping q = Pinging"
  shows "(request_step manswers ranswers)\<^sup>*\<^sup>* q (q\<lparr>rq_phase := InReduce r' t1\<rparr>)"
  using assms(1)
proof (induction rule: rtranclp_induct)
  case base
  show ?case using assms(2) by (metis request_run.surjective request_run.update_convs(1) rtranclp.rtrancl_refl old.unit.exhaust)
next
  case (step t u)
  have "request_step manswers ranswers (q\<lparr>rq_phase := InReduce t t1\<rparr>) (q\<lparr>rq_phase := InReduce t t1\<rparr>\<lparr>rq_phase := InReduce u t1\<rparr>)"
    using step(2) assms(3) by (intro request_step.reduce) auto
  with step.IH show ?case by simp
qed

text \<open>While the dispatches run, the heartbeat thread is on its way to its flag or the flag is up, unless the master
  is set to fail; and \<^verbatim>\<open>m_t1\<close> holds no call.\<close>

definition beating :: "Master \<Rightarrow> ping_pc \<Rightarrow> bool" where
  "beating m th \<longleftrightarrow> \<not> m_will_fail m \<and> \<not> m_has_failed m \<and>
     (th \<in> {Created, Arming} \<or> th \<in> {LoopTest, Pinging, ping_pc.Asleep} \<and> m_hbcheck m)"

definition finishing :: "map_reply completion_pc \<Rightarrow> bool" where
  "finishing t1 \<longleftrightarrow> t1 \<in> {TestDone, Exited} \<or> (\<exists>reply. t1 = Pushed reply)"

definition request_live :: "request_run \<Rightarrow> bool" where
  "request_live q \<longleftrightarrow>
     (case rq_phase q of
        InMap s \<Rightarrow> beating (ms_master s) (rq_ping q)
      | InReduce r t1 \<Rightarrow> beating (rs_master r) (rq_ping q) \<and> finishing t1 \<and> m_map_done (rs_master r)
      | _ \<Rightarrow> True)"

lemma map_beats: "map_step answers s t \<Longrightarrow> beating (ms_master s) th \<Longrightarrow> beating (ms_master t) th"
  by (induction rule: map_step.induct) (auto simp: beating_def action_defs check_fail_off Let_def split: prod.splits)

lemma reduce_beats:
  "reduce_step answers s t \<Longrightarrow> beating (rs_master s) th \<Longrightarrow>
     beating (rs_master t) th \<and> m_map_done (rs_master t) = m_map_done (rs_master s)"
  by (induction rule: reduce_step.induct) (auto simp: beating_def reduce_action_defs check_fail_off Let_def split: prod.splits)

lemma finish_beats:
  "beating (finish_map_call reply m) th = beating m th" "m_map_done (finish_map_call reply m) = m_map_done m"
  by (auto simp: beating_def finish_map_call_def split: prod.splits)

lemma request_live_step:
  assumes "request_step manswers ranswers q q'" "request_live q"
    and returned: "\<And>s. rq_phase q = InMap s \<Longrightarrow> ms_pc s = Returned \<Longrightarrow> finishing (ms_tpc s) \<and> m_map_done (ms_master s)"
  shows "request_live q'"
  using assms(1,2)
proof cases
  case (mapped s)
  then show ?thesis using assms(2) returned
    by (auto simp: request_live_def beating_def runReducer_def start_reduce_dispatch_def)
next
  case enter
  then show ?thesis using assms(2) by (cases "rq_phase q") (auto simp: request_live_def beating_def)
next
  case arm
  then show ?thesis using assms(2) by (cases "rq_phase q") (auto simp: request_live_def beating_def)
next
  case test
  then show ?thesis using assms(2) by (cases "rq_phase q") (auto simp: request_live_def beating_def)
next
  case round
  then show ?thesis using assms(2) by (cases "rq_phase q") (auto simp: request_live_def beating_def)
next
  case wake
  then show ?thesis using assms(2) by (cases "rq_phase q") (auto simp: request_live_def beating_def)
qed (auto simp: request_live_def finishing_def finish_beats dest: map_beats reduce_beats)

lemma on_master_flag: "m_hbcheck (phase_master ph) \<Longrightarrow> on_master (\<lambda>m. m\<lparr>m_hbcheck := True\<rparr>) ph = ph"
  by (cases ph) simp_all

lemma phase_on_master [simp]:
  "phase_master (on_master f ph) = f (phase_master ph)" "serving (on_master f ph) = serving ph"
  by (cases ph; simp)+

lemma park:
  assumes "serving (rq_phase q)" "beating (phase_master (rq_phase q)) (rq_ping q)"
  shows "\<exists>q'. (request_step manswers ranswers)\<^sup>*\<^sup>* q q' \<and> rq_ping q' = Pinging \<and>
    rq_phase q' = on_master (\<lambda>m. m\<lparr>m_hbcheck := True\<rparr>) (rq_phase q)"
proof -
  let ?up = "\<lambda>ph. on_master (\<lambda>m. m\<lparr>m_hbcheck := True\<rparr>) ph" and ?steps = "(request_step manswers ranswers)\<^sup>*\<^sup>*"
  have loop: "?steps x (x\<lparr>rq_ping := Pinging\<rparr>)" if "serving (rq_phase x)" "rq_ping x = LoopTest" "m_hbcheck (phase_master (rq_phase x))" for x
    using request_step.test [of x manswers ranswers] that by auto
  have arm: "?steps x (x\<lparr>rq_phase := ?up (rq_phase x), rq_ping := Pinging\<rparr>)" if "serving (rq_phase x)" "rq_ping x = Arming" for x
    using request_step.arm [of x manswers ranswers] that loop [of "x\<lparr>rq_phase := ?up (rq_phase x), rq_ping := LoopTest\<rparr>"]
    by (simp add: converse_rtranclp_into_rtranclp)
  have up: "?up (rq_phase q) = rq_phase q" if "rq_ping q \<notin> {Created, Arming}"
    using assms(2) that by (intro on_master_flag) (auto simp: beating_def)
  show ?thesis
  proof (cases "rq_ping q")
    case Created
    then have "request_step manswers ranswers q (q\<lparr>rq_ping := Arming\<rparr>)"
      using request_step.enter [of q manswers ranswers] assms by (simp add: beating_def)
    with arm [of "q\<lparr>rq_ping := Arming\<rparr>"] assms(1) show ?thesis
      by (intro exI [of _ "q\<lparr>rq_phase := ?up (rq_phase q), rq_ping := Pinging\<rparr>"]) (simp add: converse_rtranclp_into_rtranclp)
  next
    case Arming
    with arm [of q] assms(1) show ?thesis by (intro exI [of _ "q\<lparr>rq_phase := ?up (rq_phase q), rq_ping := Pinging\<rparr>"]) simp
  next
    case LoopTest
    with loop [of q] assms up show ?thesis by (intro exI [of _ "q\<lparr>rq_ping := Pinging\<rparr>"]) (simp add: beating_def)
  next
    case Pinging
    with up show ?thesis by auto
  next
    case Asleep
    then have "request_step manswers ranswers q (q\<lparr>rq_ping := LoopTest\<rparr>)"
      using request_step.wake [of q manswers ranswers] assms(1) by simp
    with Asleep loop [of "q\<lparr>rq_ping := LoopTest\<rparr>"] assms up show ?thesis
      by (intro exI [of _ "q\<lparr>rq_ping := Pinging\<rparr>"]) (simp add: beating_def converse_rtranclp_into_rtranclp)
  next
    case PingReturned
    with assms(2) show ?thesis by (simp add: beating_def)
  qed
qed

text \<open>The end of a request: the completion thread of the map phase ends, the heartbeat thread is stopped and joined.\<close>

lemma t1_ends:
  assumes "rq_phase q = InReduce r t1" "finishing t1" "m_map_done (rs_master r)"
  shows "\<exists>r'. (request_step manswers ranswers)\<^sup>*\<^sup>* q (q\<lparr>rq_phase := InReduce r' Exited\<rparr>)"
proof -
  have exit: "(request_step manswers ranswers)\<^sup>*\<^sup>* x (x\<lparr>rq_phase := InReduce r' Exited\<rparr>)"
    if "rq_phase x = InReduce r' TestDone" "m_map_done (rs_master r')" for x r'
    using request_step.t1_exit [OF that] by blast
  consider "t1 = TestDone" | "t1 = Exited" | reply where "t1 = Pushed reply" using assms(2) by (auto simp: finishing_def)
  then show ?thesis
  proof cases
    case 1
    then show ?thesis using exit [of q r] assms by blast
  next
    case 2
    then have "q\<lparr>rq_phase := InReduce r Exited\<rparr> = q" using assms(1) by (cases q) simp
    then show ?thesis by (metis rtranclp.rtrancl_refl)
  next
    case 3
    let ?r = "r\<lparr>rs_master := finish_map_call reply (rs_master r)\<rparr>"
    have "request_step manswers ranswers q (q\<lparr>rq_phase := InReduce ?r TestDone\<rparr>)"
      using assms(1) 3 by (intro request_step.t1_finish) simp
    moreover have "(request_step manswers ranswers)\<^sup>*\<^sup>* (q\<lparr>rq_phase := InReduce ?r TestDone\<rparr>) (q\<lparr>rq_phase := InReduce ?r Exited\<rparr>)"
      using exit [of "q\<lparr>rq_phase := InReduce ?r TestDone\<rparr>" ?r] assms(3) by (simp add: finish_beats)
    ultimately show ?thesis by (meson converse_rtranclp_into_rtranclp)
  qed
qed

lemma request_ends:
  assumes "rq_phase q = InReduce r Exited" "rs_pc r = RReturned" "rs_tpc r = Exited" "rq_ping q = Pinging"
  shows "\<exists>q'. (request_step manswers ranswers)\<^sup>*\<^sup>* q q' \<and> rq_phase q' = Answered (stop_ping (rs_master r))"
proof -
  let ?j = "q\<lparr>rq_phase := InJoin (stop_ping (rs_master r))\<rparr>"
  have "request_step manswers ranswers q ?j" using assms by (intro request_step.joined)
  moreover have "request_step manswers ranswers ?j (?j\<lparr>rq_ping := ping_pc.Asleep\<rparr>)" using assms(4) by (intro request_step.round) auto
  moreover have "request_step manswers ranswers (?j\<lparr>rq_ping := ping_pc.Asleep\<rparr>) (?j\<lparr>rq_ping := LoopTest\<rparr>)"
    using request_step.wake [of "?j\<lparr>rq_ping := ping_pc.Asleep\<rparr>" manswers ranswers] by simp
  moreover have "request_step manswers ranswers (?j\<lparr>rq_ping := LoopTest\<rparr>) (?j\<lparr>rq_ping := PingReturned\<rparr>)"
    using request_step.test [of "?j\<lparr>rq_ping := LoopTest\<rparr>" manswers ranswers] by (simp add: stop_ping_def)
  moreover have "request_step manswers ranswers (?j\<lparr>rq_ping := PingReturned\<rparr>)
      (?j\<lparr>rq_ping := PingReturned\<rparr>\<lparr>rq_phase := Answered (stop_ping (rs_master r))\<rparr>)"
    by (intro request_step.answer) auto
  ultimately have "(request_step manswers ranswers)\<^sup>*\<^sup>* q (?j\<lparr>rq_ping := PingReturned\<rparr>\<lparr>rq_phase := Answered (stop_ping (rs_master r))\<rparr>)"
    by (meson converse_rtranclp_into_rtranclp rtranclp.rtrancl_refl)
  then show ?thesis by (metis request_run.select_convs(1) request_run.surjective request_run.update_convs(1))
qed

text \<open>A reduce dispatch that has returned can also end its completion thread.\<close>

lemma reduce_run_ends:
  assumes "m_nreducers m < 2 ^ 31" "\<forall>item \<in> set (m_IntblobList m). names_reducer (m_nreducers m) item"
    and "reduce_answerable m answers" "\<not> m_will_fail m" "\<not> m_has_failed m" "good_reduce_answers m answers (\<lambda>_. True)"
    and "(reduce_step answers)\<^sup>*\<^sup>* (runReducer m) s"
  shows "\<exists>t. (reduce_step answers)\<^sup>*\<^sup>* s t \<and> rs_pc t = RReturned \<and> rs_tpc t = Exited \<and>
    map fst (m_OutputResultMap (rs_master t)) = map int [0..<nat (m_nreducers m)]"
proof -
  obtain t where t: "(reduce_step answers)\<^sup>*\<^sup>* s t" "rs_pc t = RReturned"
    using reduce_dispatch_completes [OF assms(1-5,7)] by blast
  have run: "(reduce_step answers)\<^sup>*\<^sup>* (runReducer m) t" using assms(7) t(1) by (rule rtranclp_trans)
  note res = reduce_phase_result [OF assms(1,2,6) run t(2)]
  have "reduce_live t" using run runReducer_live [OF assms(4,5)]
    by (induction rule: rtranclp_induct) (auto intro: reduce_live_step)
  then have "rs_done t" "rs_tpc t = TestDone \<or> rs_tpc t = Exited"
    using res t(2) by (auto simp: reduce_live_def got_reduce_call_def split: completion_pc.splits)
  then have "(reduce_step answers)\<^sup>*\<^sup>* t (t\<lparr>rs_tpc := Exited\<rparr>)"
    using reduce_step.exit_thread [of t answers] by (cases t) auto
  then show ?thesis using t res by (intro exI [of _ "t\<lparr>rs_tpc := Exited\<rparr>"]) auto
qed

lemma flag_reduce_back:
  "flag_reduce (m_hbcheck (rs_master r)) (g_repl_data (rs_master r)) (g_repl_list (rs_master r)) (flag_reduce b d l r) = r"
  by (simp add: flag_reduce_def)

text \<open>What the reduce phase needs of the master to come to its end.\<close>

definition ready_to_reduce :: "(AsyncClientReduceCall \<Rightarrow> int \<Rightarrow> FinalResult \<Rightarrow> bool) \<Rightarrow> Master \<Rightarrow> bool" where
  "ready_to_reduce answers m \<longleftrightarrow> m_nreducers m < 2 ^ 31 \<and>
     (\<forall>item \<in> set (m_IntblobList m). names_reducer (m_nreducers m) item) \<and>
     reduce_answerable m answers \<and> \<not> m_will_fail m \<and> \<not> m_has_failed m \<and> good_reduce_answers m answers (\<lambda>_. True)"

lemma reduce_phase_ends:
  assumes "after_map ranswers s (rq_phase q)" "rq_phase q = InReduce r Exited" "rq_ping q = Pinging" "\<not> m_will_fail (rs_master r)"
    and ready: "ready_to_reduce ranswers (ms_master s)"
  shows "\<exists>q' m'. (request_step manswers ranswers)\<^sup>*\<^sup>* q q' \<and> rq_phase q' = Answered m' \<and>
    map fst (m_OutputResultMap m') = map int [0..<nat (m_nreducers (ms_master s))]"
proof -
  let ?m = "rs_master r"
  let ?f = "flag_reduce False (g_repl_data ?m) (g_repl_list ?m) r"
  have "(reduce_step ranswers)\<^sup>*\<^sup>* (runReducer (ms_master s)) ?f"
    using assms(1,2) by (simp add: after_map_def final_copies_def Let_def)
  then obtain t where t: "(reduce_step ranswers)\<^sup>*\<^sup>* ?f t" "rs_pc t = RReturned" "rs_tpc t = Exited"
    "map fst (m_OutputResultMap (rs_master t)) = map int [0..<nat (m_nreducers (ms_master s))]"
    using reduce_run_ends ready unfolding ready_to_reduce_def by blast
  let ?t = "flag_reduce (m_hbcheck ?m) (g_repl_data ?m) (g_repl_list ?m) t"
  have "(reduce_step ranswers)\<^sup>*\<^sup>* r ?t"
    using flag_reduce_run [OF t(1), of "m_hbcheck ?m" "g_repl_data ?m" "g_repl_list ?m"] assms(4)
    by (simp add: flag_reduce_back flag_reduce_simps)
  from lift_reduce [OF this assms(2,3)]
  have "(request_step manswers ranswers)\<^sup>*\<^sup>* q (q\<lparr>rq_phase := InReduce ?t Exited\<rparr>)" .
  moreover obtain q' where "(request_step manswers ranswers)\<^sup>*\<^sup>* (q\<lparr>rq_phase := InReduce ?t Exited\<rparr>) q'"
    "rq_phase q' = Answered (stop_ping (rs_master ?t))"
    using request_ends [of "q\<lparr>rq_phase := InReduce ?t Exited\<rparr>" ?t manswers ranswers] t(2,3) assms(3)
    by (auto simp: flag_reduce_simps)
  moreover have "m_OutputResultMap (stop_ping (rs_master ?t)) = m_OutputResultMap (rs_master t)"
    by (simp add: flag_reduce_simps stop_ping_def)
  ultimately show ?thesis using t(4) by (metis rtranclp_trans)
qed

lemma request_reach_live:
  assumes "indexed_shards m" "unsigned_of_int (m_nmappers m) = length (m_shards m)" "0 < length (m_shards m)"
    and "\<not> m_will_fail m" "\<not> m_has_failed m"
    and "(request_step manswers ranswers)\<^sup>*\<^sup>* (start_request (runMapper m)) q"
  shows "request_live q"
  using assms(6)
proof (induction rule: rtranclp_induct)
  case base
  show ?case using assms(4,5)
    by (simp add: request_live_def start_request_def beating_def runMapper_def start_map_dispatch_def)
next
  case (step q q')
  show ?case
  proof (rule request_live_step [OF step(2,3)])
    fix s assume s: "rq_phase q = InMap s" "ms_pc s = Returned"
    let ?s = "flag_map False s" and ?m = "m\<lparr>m_hbcheck := False\<rparr>"
    have m: "indexed_shards ?m" "unsigned_of_int (m_nmappers ?m) = length (m_shards ?m)" "\<not> m_will_fail ?m" "\<not> m_has_failed ?m"
      using assms(1-5) by (simp_all add: idle_master)
    have run: "(map_step manswers)\<^sup>*\<^sup>* (runMapper ?m) ?s"
      using request_projection [OF step(1)] s(1) by (simp add: request_job_def idle_master)
    have ret: "ms_pc ?s = Returned" using s(2) by (simp add: flag_map_simps)
    have "good_answers ?m manswers (\<lambda>_. True)" by (simp add: good_answers_def)
    note res = map_phase_result [OF m(1) this m(2) run ret]
    have "live_inv ?s" using map_run_live [OF m(3,4) _ run] assms(2,3) by simp
    with res ret show "finishing (ms_tpc s) \<and> m_map_done (ms_master s)"
      by (cases "ms_tpc s") (auto simp: live_inv_def finishing_def flag_map_simps got_call_def)
  qed
qed

lemma reduce_part_completes:
  assumes "indexed_shards m" "unsigned_of_int (m_nmappers m) = length (m_shards m)" "0 < length (m_shards m)"
    and "\<not> m_will_fail m" "\<not> m_has_failed m"
    and ready: "\<And>s. (map_step manswers)\<^sup>*\<^sup>* (runMapper (m\<lparr>m_hbcheck := False\<rparr>)) s \<Longrightarrow> ms_pc s = Returned \<Longrightarrow>
      ready_to_reduce ranswers (ms_master s) \<and> m_nreducers (ms_master s) = m_nreducers m"
    and reach: "(request_step manswers ranswers)\<^sup>*\<^sup>* (start_request (runMapper m)) q" and q: "rq_phase q = InReduce r t1"
  shows "\<exists>q' m'. (request_step manswers ranswers)\<^sup>*\<^sup>* q q' \<and> rq_phase q' = Answered m' \<and>
    map fst (m_OutputResultMap m') = map int [0..<nat (m_nreducers m)]"
proof -
  let ?steps = "(request_step manswers ranswers)\<^sup>*\<^sup>*"
  note live = request_reach_live [OF assms(1-5)]
  obtain x r1 where x: "?steps q x" "rq_ping x = Pinging" "rq_phase x = InReduce r1 t1"
    using park [of q manswers ranswers] live [OF reach] q by (auto simp: request_live_def)
  have reach_x: "?steps (start_request (runMapper m)) x" using reach x(1) by (rule rtranclp_trans)
  obtain r2 where y: "?steps x (x\<lparr>rq_phase := InReduce r2 Exited\<rparr>)"
    using t1_ends [OF x(3)] live [OF reach_x] x(3) by (auto simp: request_live_def)
  let ?y = "x\<lparr>rq_phase := InReduce r2 Exited\<rparr>"
  have reach_y: "?steps (start_request (runMapper m)) ?y" using reach_x y by (rule rtranclp_trans)
  let ?m = "m\<lparr>m_hbcheck := False\<rparr>"
  obtain s where s: "(map_step manswers)\<^sup>*\<^sup>* (runMapper ?m) s" "ms_pc s = Returned" "after_map ranswers s (rq_phase ?y)"
    using request_projection [OF reach_y] by (auto simp: request_job_def idle_master)
  have "\<not> m_will_fail (rs_master r2)" using live [OF reach_y] by (simp add: request_live_def beating_def)
  then have "\<exists>q' m'. ?steps ?y q' \<and> rq_phase q' = Answered m' \<and>
      map fst (m_OutputResultMap m') = map int [0..<nat (m_nreducers (ms_master s))]"
    using x(2) by (intro reduce_phase_ends [OF s(3)]) (use ready [OF s(1,2)] in auto)
  with ready [OF s(1,2)] x(1) y show ?thesis by (metis rtranclp_trans)
qed

lemma map_part_completes:
  assumes "indexed_shards m" "unsigned_of_int (m_nmappers m) = length (m_shards m)" "0 < length (m_shards m)"
    and "\<not> m_will_fail m" "\<not> m_has_failed m" "answerable m manswers"
    and reach: "(request_step manswers ranswers)\<^sup>*\<^sup>* (start_request (runMapper m)) q" and q: "rq_phase q = InMap s"
  shows "\<exists>q' r t1. (request_step manswers ranswers)\<^sup>*\<^sup>* q q' \<and> rq_phase q' = InReduce r t1"
proof -
  let ?steps = "(request_step manswers ranswers)\<^sup>*\<^sup>*"
  have live: "beating (ms_master s) (rq_ping q)"
    using request_reach_live [OF assms(1-5) reach] q by (simp add: request_live_def)
  obtain x where x: "?steps q x" "rq_ping x = Pinging" "rq_phase x = InMap (flag_map True s)"
    using park [of q manswers ranswers] live q by (auto simp: flag_map_def)
  let ?m = "m\<lparr>m_hbcheck := False\<rparr>"
  have m: "indexed_shards ?m" "answerable ?m manswers" "\<not> m_will_fail ?m" "\<not> m_has_failed ?m"
    "unsigned_of_int (m_nmappers ?m) = length (m_shards ?m)" "0 < length (m_shards ?m)"
    using assms(1-6) by (simp_all add: idle_master)
  have "(map_step manswers)\<^sup>*\<^sup>* (runMapper ?m) (flag_map False s)"
    using request_projection [OF reach] q by (simp add: request_job_def idle_master)
  then obtain t where t: "(map_step manswers)\<^sup>*\<^sup>* (flag_map False s) t" "ms_pc t = Returned"
    using map_dispatch_completes [OF m] by blast
  have "(map_step manswers)\<^sup>*\<^sup>* (flag_map True s) (flag_map True t)"
    using flag_map_run [OF t(1), of True] live by (simp add: flag_map_def beating_def)
  note y = lift_map [OF this x(3,2), of ranswers]
  have "request_step manswers ranswers (x\<lparr>rq_phase := InMap (flag_map True t)\<rparr>) (x\<lparr>rq_phase := InMap (flag_map True t)\<rparr>
      \<lparr>rq_phase := InReduce (runReducer (ms_master (flag_map True t))) (ms_tpc (flag_map True t))\<rparr>)"
    using t(2) by (intro request_step.mapped) (auto simp: flag_map_simps)
  moreover have "?steps q (x\<lparr>rq_phase := InMap (flag_map True t)\<rparr>)" using x(1) y by (rule rtranclp_trans)
  ultimately have "?steps q (x\<lparr>rq_phase := InMap (flag_map True t)\<rparr>
      \<lparr>rq_phase := InReduce (runReducer (ms_master (flag_map True t))) (ms_tpc (flag_map True t))\<rparr>)"
    by (rule rtranclp.rtrancl_into_rtrancl [rotated])
  then show ?thesis by (intro exI conjI) (assumption, simp)
qed

section \<open>An exception in the reduce phase\<close>

text \<open>The first task that is taken from the queue selects its blobs, which throws; nothing was sent before.\<close>

definition throwing :: "string list \<Rightarrow> request_phase \<Rightarrow> bool" where
  "throwing blobs ph \<longleftrightarrow>
     (case ph of
        InReduce r t1 \<Rightarrow> rs_pc r \<in> {RSending, RThrown} \<and> rs_nrpcs r = 0 \<and> rs_responseList r = [] \<and> rs_cq r = [] \<and>
          rs_tpc r = TestDone \<and> \<not> rs_done r \<and> m_IntblobList (rs_master r) = blobs \<and> (\<exists>q. rs_job_q r = 0 # q)
      | Terminated m \<Rightarrow> True
      | _ \<Rightarrow> False)"

lemma throwing_reduce:
  assumes "reduce_step answers r r'" "throwing blobs (InReduce r t1)" "reduce_blob_vec 0 blobs = Inl e"
  shows "throwing blobs (InReduce r' t2)"
  using assms by (induction rule: reduce_step.induct) (auto simp: throwing_def too_many_outstanding_def unsigned_of_int_def)

lemma finish_keeps_blobs [simp]: "m_IntblobList (finish_map_call reply m) = m_IntblobList m"
  by (simp add: finish_map_call_def split: prod.splits)

lemma throwing_step:
  assumes "request_step manswers ranswers q q'" "throwing blobs (rq_phase q)" "reduce_blob_vec 0 blobs = Inl e"
  shows "throwing blobs (rq_phase q')"
  using assms
proof (induction rule: request_step.induct)
  case (reduce q r t1 r')
  then show ?case using throwing_reduce [of ranswers r r' blobs t1 e t1] by simp
next
  case (arm q)
  then show ?case by (cases "rq_phase q") (auto simp: throwing_def)
qed (auto simp: throwing_def)

text \<open>C33: An exception in the reduce phase takes the master down. If the name of an intermediate blob does not end in a
  number, the request is never answered, not even with the message the handler's \<^verbatim>\<open>catch\<close> block has for exceptions:
  from every state the reduce phase can reach the process can come to \<^verbatim>\<open>std::terminate\<close>, since the thread object of the
  heartbeat is destroyed while the thread can still be joined, and no other end is possible.\<close>

theorem throw_terminates:
  assumes "0 < m_nreducers m" "reduce_blob_vec 0 (m_IntblobList m) = Inl e"
    and "rq_phase q = InReduce (runReducer m) t1" "(request_step manswers ranswers)\<^sup>*\<^sup>* q q'"
  shows "(\<nexists>m'. rq_phase q' = InJoin m' \<or> rq_phase q' = Answered m') \<and>
    (\<exists>q'' m'. (request_step manswers ranswers)\<^sup>*\<^sup>* q' q'' \<and> rq_phase q'' = Terminated m')"
proof -
  have first: "\<exists>js. map int [0..<nat (m_nreducers m)] = 0 # js" using assms(1) by (simp add: upt_conv_Cons)
  from assms(4) have th: "throwing (m_IntblobList m) (rq_phase q')"
  proof (induction rule: rtranclp_induct)
    case base
    show ?case using first assms(3) by (simp add: throwing_def runReducer_def start_reduce_dispatch_def)
  qed (use throwing_step assms(2) in blast)
  have stop: "\<exists>q'' m'. (request_step manswers ranswers)\<^sup>*\<^sup>* x q'' \<and> rq_phase q'' = Terminated m'"
    if "rq_phase x = InReduce r t2" "rs_pc r = RThrown" for x r t2
    using request_step.throw [OF that] by (intro exI conjI) (rule r_into_rtranclp, assumption, simp)
  have "\<exists>q'' m'. (request_step manswers ranswers)\<^sup>*\<^sup>* q' q'' \<and> rq_phase q'' = Terminated m'"
  proof (cases "\<exists>r t2. rq_phase q' = InReduce r t2 \<and> rs_pc r = RSending")
    case True
    then obtain r t2 where r: "rq_phase q' = InReduce r t2" "rs_pc r = RSending" by blast
    let ?x = "q'\<lparr>rq_phase := InReduce (r\<lparr>rs_pc := RThrown\<rparr>) t2\<rparr>"
    have "reduce_step ranswers r (r\<lparr>rs_pc := RThrown\<rparr>)"
      using th r assms(2) by (auto simp: throwing_def too_many_outstanding_def unsigned_of_int_def intro: reduce_step.throw)
    then have "request_step manswers ranswers q' ?x" using r(1) by (intro request_step.reduce) (auto simp: same_pings_def)
    with stop [of ?x] show ?thesis by (auto intro: converse_rtranclp_into_rtranclp)
  next
    case False
    then show ?thesis using th stop [of q'] by (cases "rq_phase q'") (auto simp: throwing_def)
  qed
  then show ?thesis using th by (auto simp: throwing_def)
qed

text \<open>A worker that reports a blob named \<^verbatim>\<open>result\<close>.\<close>

theorem throw_terminates_witness:
  "\<exists>q m. (request_step (\<lambda>_ _ _. True) (\<lambda>_ _ _. True))\<^sup>*\<^sup>*
     \<lparr>rq_phase = InReduce (runReducer (demo_master\<lparr>m_nreducers := 2, m_IntblobList := [''result'']\<rparr>)) TestDone,
      rq_ping = Pinging\<rparr> q \<and> rq_phase q = Terminated m"
proof -
  have "reduce_blob_vec 0 [''result''] = Inl InvalidArgument" by code_simp
  then show ?thesis
    by (intro throw_terminates [THEN conjunct2, OF _ _ _ rtranclp.rtrancl_refl]) auto
qed

end
