(* ===== verification/Answer.thy ===== *)
theory Answer
  imports Request WordCountJob
begin

text \<open>
  What an answered request has computed: the threads of \<open>Request\<close> together with the tasks that the workers ran for
  the calls of the two dispatches. An answered request is a run of the word count, and every request has an answered run.
\<close>

section \<open>Answered requests\<close>

text \<open>A request that was entered in \<open>s0\<close> and answered. The workers ran map tasks that took the blobs from \<open>b0\<close>
  to \<open>b1\<close>, and once the reduce phase was entered, with the master \<open>mm\<close>, reduce tasks that took them to \<open>b2\<close>;
  successful answers come from these tasks, other calls fail or are lost.\<close>

definition answered_run ::
    "'b Storage \<Rightarrow> (string \<Rightarrow> size_t) \<Rightarrow> string \<Rightarrow> map_state \<Rightarrow> 'b \<Rightarrow> 'b \<Rightarrow> bool" where
  "answered_run st hash container s0 b0 b2 \<longleftrightarrow>
     (\<exists>b1 log rlog q mm t1 q' m'. map_history st hash py_mapfunc container (ms_master s0) b0 b1 log \<and>
        (request_step (logged_answers log) (reduce_logged rlog))\<^sup>*\<^sup>* (start_request s0) q \<and>
        rq_phase q = InReduce (runReducer mm) t1 \<and>
        reduce_history st hash py_reducefunc container mm b1 b2 rlog \<and>
        (request_step (logged_answers log) (reduce_logged rlog))\<^sup>*\<^sup>* q q' \<and> rq_phase q' = Answered m')"

section \<open>The masters of the two views\<close>

lemma map_history_cong:
  assumes "map_history st hash pymap container m b0 b log"
    and "m_shards m' = m_shards m" "m_nreducers m' = m_nreducers m" "m_rid m' = m_rid m"
  shows "map_history st hash pymap container m' b0 b log"
  using assms(1)
proof (induction rule: map_history.induct)
  case (task b log i a w w' b' reply)
  then show ?case using assms(2-4) map_history.task [of st hash pymap container m' b0 b log i a w w' b' reply]
    by (simp add: map_query_def)
qed (rule map_history.start)

lemma reduce_history_cong:
  assumes "reduce_history st hash pyreduce container m b0 b log" "reduce_query m' = reduce_query m" "m_nreducers m' = m_nreducers m"
  shows "reduce_history st hash pyreduce container m' b0 b log"
  using assms(1)
proof (induction rule: reduce_history.induct)
  case (task b log j w w' b' reply)
  then show ?case using assms(2,3) reduce_history.task [of st hash pyreduce container m' b0 b log j w w' b' reply] by simp
qed (rule reduce_history.start)

lemma reduce_run_query:
  assumes "(reduce_step answers)\<^sup>*\<^sup>* (runReducer m) r"
  shows "reduce_query (rs_master r) = reduce_query m" "m_nreducers (rs_master r) = m_nreducers m"
proof -
  from assms have "same_reduce_job m r \<and> m_nreducers (rs_master r) = m_nreducers m"
  proof (induction rule: rtranclp_induct)
    case base
    show ?case by (simp add: same_reduce_job_def runReducer_def start_reduce_dispatch_def)
  next
    case (step r r')
    have "m_nreducers (rs_master r') = m_nreducers (rs_master r)"
      using step(2) by (induction rule: reduce_step.induct) (auto simp: reduce_action_defs Let_def split: prod.splits)
    with step show ?case by (simp add: same_reduce_job_step)
  qed
  then show "reduce_query (rs_master r) = reduce_query m" "m_nreducers (rs_master r) = m_nreducers m"
    by (auto simp: same_reduce_job_def reduce_query_def)
qed

section \<open>An answered request has run the job\<close>

lemma answered_is_run:
  assumes "answered_run st hash container (runMapper m) b0 b2"
  shows "word_count_run st hash container (m\<lparr>m_hbcheck := False\<rparr>) b0 b2"
proof -
  obtain b1 log rlog q mm t1 q' m' where h: "map_history st hash py_mapfunc container (ms_master (runMapper m)) b0 b1 log"
    and q: "(request_step (logged_answers log) (reduce_logged rlog))\<^sup>*\<^sup>* (start_request (runMapper m)) q"
      "rq_phase q = InReduce (runReducer mm) t1"
    and rh: "reduce_history st hash py_reducefunc container mm b1 b2 rlog"
    and q': "(request_step (logged_answers log) (reduce_logged rlog))\<^sup>*\<^sup>* q q'" "rq_phase q' = Answered m'"
    using assms unfolding answered_run_def by blast
  obtain s where s: "(map_step (logged_answers log))\<^sup>*\<^sup>* (runMapper (m\<lparr>m_hbcheck := False\<rparr>)) s" "ms_pc s = Returned"
    "after_map (reduce_logged rlog) s (rq_phase q)"
    using request_projection [OF q(1)] q(2) by (auto simp: request_job_def idle_master)
  obtain d l where "(reduce_step (reduce_logged rlog))\<^sup>*\<^sup>* (runReducer (ms_master s)) (flag_reduce False d l (runReducer mm))"
    using s(3) q(2) by (auto simp: after_map_def) (metis surj_pair)
  note same = reduce_run_query [OF this]
  have "reduce_query (ms_master s) = reduce_query mm" "m_nreducers (ms_master s) = m_nreducers mm"
    using same by (simp_all add: fun_eq_iff reduce_query_def flag_reduce_def runReducer_def start_reduce_dispatch_def)
  then have "reduce_history st hash py_reducefunc container (ms_master s) b1 b2 rlog"
    by (rule reduce_history_cong [OF rh])
  moreover have "map_history st hash py_mapfunc container (m\<lparr>m_hbcheck := False\<rparr>) b0 b1 log"
    by (rule map_history_cong [OF h]) (simp_all add: runMapper_def start_map_dispatch_def)
  moreover obtain t where "(reduce_step (reduce_logged rlog))\<^sup>*\<^sup>* (runReducer (ms_master s)) t" "rs_pc t = RReturned"
    using after_map_steps [OF q'(1) s(3)] q'(2) by (auto simp: after_map_def)
  ultimately show ?thesis using s(1,2) unfolding word_count_run_def by blast
qed

section \<open>Every request has an answered run\<close>

lemma enters_reduce:
  assumes "(map_step manswers)\<^sup>*\<^sup>* (runMapper (m\<lparr>m_hbcheck := False\<rparr>)) s" "ms_pc s = Returned"
    and "\<not> m_will_fail m" "\<not> m_has_failed m"
  shows "\<exists>q. (request_step manswers ranswers)\<^sup>*\<^sup>* (start_request (runMapper m)) q \<and>
    rq_phase q = InReduce (runReducer ((ms_master s)\<lparr>m_hbcheck := True\<rparr>)) (ms_tpc s)"
proof -
  let ?steps = "(request_step manswers ranswers)\<^sup>*\<^sup>*" and ?q = "start_request (runMapper m)" and ?s = "flag_map True s"
  have m: "\<not> m_will_fail (ms_master (runMapper m))" "\<not> m_has_failed (ms_master (runMapper m))"
    using assms(3,4) by (simp_all add: runMapper_def start_map_dispatch_def)
  then obtain x where x: "?steps ?q x" "rq_ping x = Pinging" "rq_phase x = InMap (flag_map True (runMapper m))"
    using park [of ?q manswers ranswers] by (auto simp: start_request_def beating_def flag_map_def)
  have "flag_map True (runMapper (m\<lparr>m_hbcheck := False\<rparr>)) = flag_map True (runMapper m)" by (simp add: idle_master)
  then have "(map_step manswers)\<^sup>*\<^sup>* (flag_map True (runMapper m)) ?s"
    using flag_map_run [OF assms(1), of True] assms(3) by (simp add: runMapper_def start_map_dispatch_def)
  from rtranclp_trans [OF x(1) lift_map [OF this x(3,2)]] have "?steps ?q (x\<lparr>rq_phase := InMap ?s\<rparr>)" .
  moreover have "request_step manswers ranswers (x\<lparr>rq_phase := InMap ?s\<rparr>)
      (x\<lparr>rq_phase := InMap ?s\<rparr>\<lparr>rq_phase := InReduce (runReducer (ms_master ?s)) (ms_tpc ?s)\<rparr>)"
    using assms(2) by (intro request_step.mapped) (auto simp: flag_map_simps)
  ultimately have "?steps ?q (x\<lparr>rq_phase := InMap ?s\<rparr>\<lparr>rq_phase := InReduce (runReducer (ms_master ?s)) (ms_tpc ?s)\<rparr>)"
    by (rule rtranclp.rtrancl_into_rtrancl)
  then show ?thesis by (intro exI conjI) (assumption, simp add: flag_map_simps)
qed

lemma logged_ready:
  assumes "m_nreducers m < 2 ^ 31" "\<forall>item \<in> set (m_IntblobList m). names_reducer (m_nreducers m) item"
    and "\<And>j. 0 \<le> j \<Longrightarrow> j < m_nreducers m \<Longrightarrow> j \<in> set rlog" "m_Clients m \<noteq> []" "\<not> m_will_fail m" "\<not> m_has_failed m"
  shows "ready_to_reduce (reduce_logged rlog) m"
  using assms by (auto simp: ready_to_reduce_def reduce_answerable_def reduce_logged_def good_reduce_answers_def)

lemma answered_runs:
  assumes st: "storage_works st"
    and inp: "countable_input (st_range st container b0) content items" "0 < shard_sz" "fits_size_t shard_sz items"
      "shards_of shard_sz items = Some (m_shards m)"
    and m: "indexed_shards m" "unsigned_of_int (m_nmappers m) = length (m_shards m)" "0 < length (m_shards m)"
      "0 < m_nreducers m" "m_nreducers m < 2 ^ 31" "\<not> m_will_fail m" "\<not> m_has_failed m" "m_Clients m \<noteq> []"
    and w: "worker_ready (new_WorkerDBConnection container) a w" "CHR ''_'' \<notin> set a" "\<not> wk_will_fail w" "\<not> wk_has_failed w"
  shows "\<exists>b2. answered_run st hash container (runMapper m) b0 b2"
proof -
  let ?m = "m\<lparr>m_hbcheck := False\<rparr>"
  have m': "indexed_shards ?m" "unsigned_of_int (m_nmappers ?m) = length (m_shards ?m)" "0 < length (m_shards ?m)"
      "0 < m_nreducers ?m" "m_nreducers ?m < 2 ^ 31" "\<not> m_will_fail ?m" "\<not> m_has_failed ?m" "m_Clients ?m \<noteq> []"
      "shards_of shard_sz items = Some (m_shards ?m)"
    using m inp(4) by (simp_all add: idle_master)
  obtain b1 log s rlog t b2 where h: "map_history st hash py_mapfunc container ?m b0 b1 log"
    and s: "(map_step (logged_answers log))\<^sup>*\<^sup>* (runMapper ?m) s" "ms_pc s = Returned"
    and rh: "reduce_history st hash py_reducefunc container (ms_master s) b1 b2 rlog"
    and t: "(reduce_step (reduce_logged rlog))\<^sup>*\<^sup>* (runReducer (ms_master s)) t" "rs_pc t = RReturned"
    using word_count_runs [OF st inp(1-3) m'(9,1-8) w, of hash] unfolding word_count_run_def by blast
  have names: "\<forall>item \<in> set (m_IntblobList (ms_master s')). names_reducer (m_nreducers m) item"
    if s': "(map_step (logged_answers log))\<^sup>*\<^sup>* (runMapper ?m) s'" "ms_pc s' = Returned" for s'
  proof -
    obtain a' where "map_phase_stored st hash py_mapfunc container ?m (st_range st container b0) b1 a' (m_IntblobList (ms_master s'))"
      using finished_map_stored(1) [OF h st m'(4,5,1-3) shards_of_nonempty [OF inp(2,3) m'(9)] s'] by blast
    from stored_names [OF this m'(5)] show ?thesis by simp
  qed
  note keep = map_run_keeps [OF m'(1) _ m'(6,7,2,3)]
  have all: "j \<in> set rlog" if "0 \<le> j" "j < m_nreducers m" for j
    using reduce_all_logged [OF _ _ t that(1)] names [OF s] keep [OF s(1)] that m(5) by simp
  have ready: "ready_to_reduce (reduce_logged rlog) (ms_master s') \<and> m_nreducers (ms_master s') = m_nreducers m"
    if "(map_step (logged_answers log))\<^sup>*\<^sup>* (runMapper ?m) s'" "ms_pc s' = Returned" for s'
    using logged_ready [of "ms_master s'" rlog] names [OF that] keep [OF that(1)] all m(5,8) by simp
  obtain q where q: "(request_step (logged_answers log) (reduce_logged rlog))\<^sup>*\<^sup>* (start_request (runMapper m)) q"
    "rq_phase q = InReduce (runReducer ((ms_master s)\<lparr>m_hbcheck := True\<rparr>)) (ms_tpc s)"
    using enters_reduce [OF s m(6,7)] by blast
  have "map_history st hash py_mapfunc container (ms_master (runMapper m)) b0 b1 log"
    by (rule map_history_cong [OF h]) (simp_all add: runMapper_def start_map_dispatch_def)
  moreover have "reduce_history st hash py_reducefunc container ((ms_master s)\<lparr>m_hbcheck := True\<rparr>) b1 b2 rlog"
    by (rule reduce_history_cong [OF rh]) (simp_all add: fun_eq_iff reduce_query_def)
  ultimately show ?thesis
    using q reduce_part_completes [OF m(1-3,6,7) ready q] unfolding answered_run_def by blast
qed

section \<open>Its output\<close>

text \<open>The output blobs of an answered request are right.\<close>

lemma answered_output:
  assumes "storage_works st" "countable_input (st_range st container b0) content items"
    and "0 < shard_sz" "fits_size_t shard_sz items" "shards_of shard_sz items = Some (m_shards m)"
    and "unsigned_of_int (m_nmappers m) = length (m_shards m)" "0 < length (m_shards m)"
    and "0 < m_nreducers m" "m_nreducers m < 2 ^ 31"
    and "answered_run st hash container (runMapper m) b0 b2" "0 \<le> j" "j < m_nreducers m"
  shows "\<exists>d. st_download st (container @ ''out'') (''out_'' @ to_string j) b2 = Inr (kv_lines (with_repr d)) \<and>
    distinct (map fst d) \<and> map_of d = counts_of hash (m_nreducers m) j (input_tokens content items)"
proof -
  let ?m = "m\<lparr>m_hbcheck := False\<rparr>"
  have m: "shards_of shard_sz items = Some (m_shards ?m)" "unsigned_of_int (m_nmappers ?m) = length (m_shards ?m)"
    "0 < length (m_shards ?m)" "0 < m_nreducers ?m" "m_nreducers ?m < 2 ^ 31" "j < m_nreducers ?m"
    using assms(5-9,12) by simp_all
  show ?thesis
    using answered_is_run [OF assms(10)] word_count_output [OF assms(1-4) m(1) shards_of_indexed [OF m(1)] m(2-5) _ _ _ _ _ _ assms(11) m(6), of hash]
    unfolding word_count_run_def by auto
qed

end
