(* ===== verification/DrainRace.thy ===== *)
theory DrainRace
  imports MapDispatch
begin

text \<open>
  The map dispatch of \<^verbatim>\<open>w7/src/master/masterimpl.cc\<close> at a finer grain. In \<open>MapDispatch\<close> the dispatcher
  takes a response in one step; in the source it erases the response and decrements \<^verbatim>\<open>nrpcs\<close> afterwards, outside the
  lock, and the completion thread may compare the two in between. The results of a job do not depend on it, but
  the completion thread can then wait for a call that nobody made.
\<close>

section \<open>The code\<close>

text \<open>The body of the loop over the responses up to the decrement, and the decrement.\<close>

definition erase_response :: "map_state \<Rightarrow> map_state" where
  "erase_response s =
     (let m = ms_master s; res = hd (ms_responseList s) in
      if mr_status res \<noteq> SUCCESS
      then s\<lparr>ms_job_q := ms_job_q s @ [mr_shardId res], ms_responseList := tl (ms_responseList s)\<rparr>
      else
        (let m' = (if map_find (m_IntermediateResultMap m) (mr_shardId res) = None
                   then m\<lparr>m_IntermediateResultMap :=
                            map_emplace (mr_shardId res) res (m_IntermediateResultMap m),
                          m_IntblobList := m_IntblobList m @ mr_blobList res,
                          m_intcontainer := mr_cname res\<rparr>
                   else m)
         in s\<lparr>ms_master := m', ms_responseList := tl (ms_responseList s)\<rparr>))"

definition count_response :: "map_state \<Rightarrow> map_state" where
  "count_response s = s\<lparr>ms_nrpcs := ms_nrpcs s - 1\<rparr>"

text \<open>A state is a state of the dispatch and whether the dispatcher is between the two. The steps of the other
  threads are those that change neither the position of the dispatcher nor \<open>nrpcs\<close>.\<close>

definition other_thread :: "map_state \<Rightarrow> map_state \<Rightarrow> bool" where
  "other_thread s t \<longleftrightarrow> ms_pc t = ms_pc s \<and> ms_nrpcs t = ms_nrpcs s"

inductive fine_step ::
    "(AsyncClientMapCall \<Rightarrow> int \<Rightarrow> IntermediateResult \<Rightarrow> bool) \<Rightarrow> map_state \<times> bool \<Rightarrow> map_state \<times> bool \<Rightarrow> bool"
  for answers where
  whole: "\<lbrakk>map_step answers s t; \<not> (ms_pc s = Draining \<and> ms_nrpcs t \<noteq> ms_nrpcs s)\<rbrakk> \<Longrightarrow>
    fine_step answers (s, False) (t, False)"
| erase: "\<lbrakk>ms_pc s = Draining; ms_responseList s \<noteq> []\<rbrakk> \<Longrightarrow>
    fine_step answers (s, False) (erase_response s, True)"
| count: "fine_step answers (s, True) (count_response s, False)"
| between: "\<lbrakk>map_step answers s t; other_thread s t\<rbrakk> \<Longrightarrow> fine_step answers (s, True) (t, True)"

inductive_cases fine_stepE: "fine_step answers F G"

lemma drain_split: "process_map_response s = count_response (erase_response s)"
  by (simp add: process_map_response_def erase_response_def count_response_def Let_def)

section \<open>Steps of the other threads\<close>

lemma other_thread_cases:
  assumes "map_step answers s t" "other_thread s t"
  obtains (exit_thread) "ms_tpc s = TestDone" "m_map_done (ms_master s)" "t = s\<lparr>ms_tpc := Exited\<rparr>"
  | (enter_next) "ms_tpc s = TestDone" "\<not> m_map_done (ms_master s)"
      "unsigned_of_int (ms_nrpcs s) > length (ms_responseList s)" "t = s\<lparr>ms_tpc := InNext\<rparr>"
  | (next_call) cs call cs' code reply where "ms_tpc s = InNext" "ms_cq s = cs @ call # cs'" "answers call code reply"
      "t = s\<lparr>ms_cq := cs @ cs', ms_tpc := GotTag (call, code, reply)\<rparr>"
  | (push) r where "ms_tpc s = GotTag r" "t = push_map_response r s"
  | (finish_call) r where "ms_tpc s = Pushed r" "t = record_map_success r s"
  | (ping) p cst pst where
      "t = s\<lparr>ms_master := (ms_master s)\<lparr>heap := setStatus p cst (setPingStatus p pst (heap (ms_master s)))\<rparr>\<rparr>"
  using assms(1)
proof cases
  case (send i q c)
  with assms(2) show ?thesis by (simp add: other_thread_def send_map_task_def Let_def split: prod.splits)
next
  case drain
  with assms(2) show ?thesis by (simp add: other_thread_def drain_split count_response_def erase_response_def Let_def split: if_splits)
next
  case test
  with assms(2) show ?thesis by (simp add: other_thread_def test_map_done_def Let_def split: if_splits)
next
  case exit_thread
  then show ?thesis using that(1) by blast
next
  case enter_next
  then show ?thesis using that(2) by blast
next
  case (next_call cs call cs' code reply)
  then show ?thesis using that(3) by blast
next
  case (push r)
  then show ?thesis using that(4) by blast
next
  case (finish_call r)
  then show ?thesis using that(5) by blast
next
  case (ping p cst pst)
  then show ?thesis using that(6) by blast
next
  case stop_sending
  with assms(2) show ?thesis by (simp add: other_thread_def)
next
  case response_seen
  with assms(2) show ?thesis by (simp add: other_thread_def)
next
  case drained
  with assms(2) show ?thesis by (simp add: other_thread_def)
next
  case clear
  with assms(2) show ?thesis by (simp add: other_thread_def)
qed

text \<open>The dispatcher does not look at the completion thread.\<close>

lemma tpc_stepI:
  "t\<lparr>ms_tpc := x\<rparr> = u \<Longrightarrow> map_step answers (s\<lparr>ms_tpc := x\<rparr>) u \<Longrightarrow> ms_tpc t = ms_tpc s \<Longrightarrow>
   map_step answers (s\<lparr>ms_tpc := x\<rparr>) (t\<lparr>ms_tpc := x\<rparr>) \<and> ms_tpc t = ms_tpc s"
  by simp

lemma dispatcher_step_tpc:
  assumes "map_step answers s t" "\<not> other_thread s t"
  shows "map_step answers (s\<lparr>ms_tpc := x\<rparr>) (t\<lparr>ms_tpc := x\<rparr>) \<and> ms_tpc t = ms_tpc s"
  using assms(1)
proof cases
  case (send i q c)
  then show ?thesis
    by (intro tpc_stepI [where u = "send_map_task c (s\<lparr>ms_tpc := x\<rparr>)"] map_step.send)
       (auto simp: send_map_task_def Let_def split: prod.splits)
next
  case drain
  then show ?thesis
    by (intro tpc_stepI [where u = "process_map_response (s\<lparr>ms_tpc := x\<rparr>)"] map_step.drain)
       (auto simp: process_map_response_def Let_def)
next
  case test
  then show ?thesis
    by (intro tpc_stepI [where u = "test_map_done (s\<lparr>ms_tpc := x\<rparr>)"] map_step.test)
       (auto simp: test_map_done_def Let_def)
next
  case stop_sending
  then show ?thesis
    by (intro tpc_stepI [where u = "s\<lparr>ms_tpc := x, ms_pc := Waiting\<rparr>"] map_step.stop_sending) auto
next
  case response_seen
  then show ?thesis
    by (intro tpc_stepI [where u = "s\<lparr>ms_tpc := x, ms_pc := Draining\<rparr>"] map_step.response_seen) auto
next
  case drained
  then show ?thesis
    by (intro tpc_stepI [where u = "s\<lparr>ms_tpc := x, ms_pc := Testing\<rparr>"] map_step.drained) auto
next
  case clear
  then show ?thesis
    by (intro tpc_stepI [where u = "s\<lparr>ms_tpc := x, ms_responseList := [], ms_pc := Returned\<rparr>"] map_step.clear) auto
qed (use assms(2) in \<open>auto simp: other_thread_def push_map_response_def record_map_success_def Let_def
      split: prod.splits\<close>)

section \<open>The grain does not matter for the results\<close>

text \<open>The state of the coarse dispatch that belongs to a fine one: the decrement has been made, and the completion
  thread may still be at the test of its loop where the fine one has already entered \<^verbatim>\<open>cq.Next\<close>.\<close>

definition simulates :: "map_state \<times> bool \<Rightarrow> map_state \<Rightarrow> bool" where
  "simulates F c \<longleftrightarrow>
     (let s = fst F in
      c = s\<lparr>ms_nrpcs := ms_nrpcs s - (if snd F then 1 else 0), ms_tpc := ms_tpc c\<rparr> \<and>
      (ms_tpc c = ms_tpc s \<or> ms_tpc s = InNext \<and> ms_tpc c = TestDone))"

lemma simulatesE:
  assumes "simulates (s, h) c"
  obtains x where "c = s\<lparr>ms_nrpcs := ms_nrpcs s - (if h then 1 else 0), ms_tpc := x\<rparr>"
    "x = ms_tpc s \<or> ms_tpc s = InNext \<and> x = TestDone"
  using assms by (auto simp: simulates_def Let_def)

lemma simulates_wholeE:
  assumes "simulates (s, False) c"
  obtains x where "c = s\<lparr>ms_tpc := x\<rparr>" "x = ms_tpc s \<or> ms_tpc s = InNext \<and> x = TestDone"
  using simulatesE [OF assms] by auto

text \<open>A coarse completion thread can enter \<^verbatim>\<open>cq.Next\<close> whenever a call is outstanding.\<close>

lemma call_awaited:
  assumes "map_inv m0 ids answers good c" "live_inv c" "ms_cq c \<noteq> []" "ms_tpc c = TestDone"
  shows "map_step answers c (c\<lparr>ms_tpc := InNext\<rparr>)"
proof -
  have ci: "counting_inv ids c" and ids: "finite ids" "card ids \<le> unsigned_of_int (m_nmappers (ms_master c))"
    using assms(1) by (simp_all add: map_inv_def same_job_def)
  have "ms_pc c \<notin> {Clearing, Returned}"
    using done_outstanding(2) [OF ci ids(1)] ids(2) ci assms(3) by (auto simp: counting_inv_def)
  then have "\<not> m_map_done (ms_master c)" using assms(2) by (simp add: live_inv_def)
  moreover have "unsigned_of_int (ms_nrpcs c) > length (ms_responseList c)"
    using nrpcs_unsigned [OF ci] assms(3) by (simp add: outstanding_def map_pool_def)
  ultimately show ?thesis using assms(4) by (intro map_step.enter_next)
qed

lemma other_thread_simulated:
  assumes step: "map_step answers s t" "other_thread s t" and sim: "simulates (s, h) c"
    and inv: "map_inv m0 ids answers good c" "live_inv c"
  shows "\<exists>d. (map_step answers)\<^sup>*\<^sup>* c d \<and> simulates (t, h) d"
proof -
  obtain x where c: "c = s\<lparr>ms_nrpcs := ms_nrpcs s - (if h then 1 else 0), ms_tpc := x\<rparr>"
    and x: "x = ms_tpc s \<or> ms_tpc s = InNext \<and> x = TestDone" using sim by (rule simulatesE)
  have one: ?thesis if "map_step answers c d" "simulates (t, h) d" for d using that by blast
  from step show ?thesis
  proof (cases rule: other_thread_cases)
    case exit_thread
    have "map_step answers c (c\<lparr>ms_tpc := Exited\<rparr>)" using exit_thread x by (intro map_step.exit_thread) (auto simp: c)
    then show ?thesis by (rule one) (simp add: simulates_def c exit_thread(3))
  next
    case enter_next
    then have "simulates (t, h) c" using x by (simp add: simulates_def c)
    then show ?thesis by blast
  next
    case (next_call cs call cs' code reply)
    let ?c = "c\<lparr>ms_tpc := InNext\<rparr>"
    have "(map_step answers)\<^sup>*\<^sup>* c ?c"
    proof (cases "x = InNext")
      case False
      then have "map_step answers c ?c" using call_awaited [OF inv] next_call(1,2) x by (auto simp: c)
      then show ?thesis by blast
    qed (simp add: c)
    moreover have "map_step answers ?c (?c\<lparr>ms_cq := cs @ cs', ms_tpc := GotTag (call, code, reply)\<rparr>)"
      using next_call by (intro map_step.next_call) (auto simp: c)
    moreover have "simulates (t, h) (?c\<lparr>ms_cq := cs @ cs', ms_tpc := GotTag (call, code, reply)\<rparr>)"
      by (simp add: simulates_def c next_call(4))
    ultimately show ?thesis by (meson rtranclp.rtrancl_into_rtrancl)
  next
    case (push r)
    have "map_step answers c (push_map_response r c)" using push x by (intro map_step.push) (auto simp: c)
    then show ?thesis
      by (rule one) (simp add: simulates_def c push(2) push_map_response_def split: prod.splits)
  next
    case (finish_call r)
    have "map_step answers c (record_map_success r c)" using finish_call x by (intro map_step.finish_call) (auto simp: c)
    then show ?thesis
      by (rule one) (simp add: simulates_def c finish_call(2) record_map_success_def Let_def split: prod.splits)
  next
    case (ping p cst pst)
    have "map_step answers c (c\<lparr>ms_master := (ms_master c)\<lparr>heap := setStatus p cst (setPingStatus p pst (heap (ms_master c)))\<rparr>\<rparr>)"
      by (rule map_step.ping)
    then show ?thesis by (rule one) (use x in \<open>simp add: simulates_def c ping\<close>)
  qed
qed

lemma fine_simulation:
  assumes "fine_step answers F G" "simulates F c" "map_inv m0 ids answers good c" "live_inv c"
  shows "\<exists>d. (map_step answers)\<^sup>*\<^sup>* c d \<and> simulates G d"
  using assms(1)
proof cases
  case (whole s t)
  obtain x where c: "c = s\<lparr>ms_tpc := x\<rparr>" and x: "x = ms_tpc s \<or> ms_tpc s = InNext \<and> x = TestDone"
    using assms(2) unfolding whole(1) by (rule simulates_wholeE)
  show ?thesis
  proof (cases "other_thread s t")
    case True
    with whole(3) assms(2-4) show ?thesis unfolding whole(1,2) by (intro other_thread_simulated)
  next
    case False
    with dispatcher_step_tpc [OF whole(3), of x] have "map_step answers c (t\<lparr>ms_tpc := x\<rparr>)" "ms_tpc t = ms_tpc s"
      by (simp_all add: c)
    moreover have "simulates (t, False) (t\<lparr>ms_tpc := x\<rparr>)" using x calculation(2) by (simp add: simulates_def)
    ultimately show ?thesis unfolding whole(2) by blast
  qed
next
  case (erase s)
  obtain x where c: "c = s\<lparr>ms_tpc := x\<rparr>" and x: "x = ms_tpc s \<or> ms_tpc s = InNext \<and> x = TestDone"
    using assms(2) unfolding erase(1) by (rule simulates_wholeE)
  have "map_step answers c (process_map_response c)" using erase by (intro map_step.drain) (auto simp: c)
  moreover have "simulates (erase_response s, True) (process_map_response c)"
    using x by (simp add: simulates_def c drain_split erase_response_def count_response_def Let_def)
  ultimately show ?thesis unfolding erase(2) by blast
next
  case (count s)
  then have "simulates G c" using assms(2) by (auto simp: simulates_def count_response_def Let_def)
  then show ?thesis by blast
next
  case (between s t)
  with assms(2-4) show ?thesis by (auto intro: other_thread_simulated)
qed

lemma fine_run_simulated:
  assumes "(fine_step answers)\<^sup>*\<^sup>* F G" "simulates F c" "map_inv m0 ids answers good c" "live_inv c"
  shows "\<exists>d. (map_step answers)\<^sup>*\<^sup>* c d \<and> simulates G d \<and> map_inv m0 ids answers good d \<and> live_inv d"
  using assms(1)
proof (induction rule: rtranclp_induct)
  case (step G H)
  then obtain d where d: "(map_step answers)\<^sup>*\<^sup>* c d" "simulates G d" "map_inv m0 ids answers good d" "live_inv d"
    by blast
  obtain e where e: "(map_step answers)\<^sup>*\<^sup>* d e" "simulates H e" using fine_simulation [OF step(2) d(2-4)] by blast
  have "live_inv e" using live_steps [OF e(1) d(4)] .
  with map_refines.steps_inv [OF e(1) d(3)] e d(1) show ?case by (meson rtranclp_trans)
qed (use assms(2-4) in blast)

text \<open>C11: What a map phase produces does not depend on the grain. Whatever the threads do between the erasure of a
  response and the decrement that follows it, every state of the dispatch has a counterpart in a run in which both
  are one step, with the same master, the same queue, the same calls and the same responses; in particular a
  dispatch that has returned has the results of such a run.\<close>

theorem map_grain_irrelevant:
  assumes "indexed_shards m" "\<not> m_will_fail m" "\<not> m_has_failed m"
    and "unsigned_of_int (m_nmappers m) = length (m_shards m)" "0 < length (m_shards m)"
    and "(fine_step answers)\<^sup>*\<^sup>* (runMapper m, False) (s, half)"
  shows "\<exists>c. (map_step answers)\<^sup>*\<^sup>* (runMapper m) c \<and> ms_master c = ms_master s \<and> ms_pc c = ms_pc s \<and>
    ms_job_q c = ms_job_q s \<and> ms_cq c = ms_cq s \<and> ms_responseList c = ms_responseList s"
proof -
  have "map_inv (cleared m) (int ` {0..<length (m_shards m)}) answers (\<lambda>_. True) (runMapper m)"
    using map_run_inv [OF assms(1) _ rtranclp.rtrancl_refl] assms(4) by simp
  moreover have "live_inv (runMapper m)" using runMapper_live assms(2-5) by simp
  moreover have "simulates (runMapper m, False) (runMapper m)" by (simp add: simulates_def)
  ultimately obtain c where c: "(map_step answers)\<^sup>*\<^sup>* (runMapper m) c" "simulates (s, half) c"
    using fine_run_simulated [OF assms(6)] by blast
  from c(2) obtain x where "c = s\<lparr>ms_nrpcs := ms_nrpcs s - (if half then 1 else 0), ms_tpc := x\<rparr>"
    by (rule simulatesE)
  then have "ms_master c = ms_master s \<and> ms_pc c = ms_pc s \<and>
    ms_job_q c = ms_job_q s \<and> ms_cq c = ms_cq s \<and> ms_responseList c = ms_responseList s" by simp
  with c(1) show ?thesis by blast
qed

section \<open>It does matter for the completion thread\<close>

definition lost :: "map_state \<times> bool \<Rightarrow> bool" where
  "lost F \<longleftrightarrow> ms_pc (fst F) = Returned \<and> ms_tpc (fst F) = InNext \<and> ms_cq (fst F) = [] \<and> \<not> snd F"

lemma lost_step:
  assumes "fine_step answers F G" "lost F"
  shows "lost G"
  using assms(1)
proof cases
  case (whole s t)
  have "lost (t, False)" using whole(3) assms(2) unfolding whole(1) by cases (auto simp: lost_def)
  then show ?thesis by (simp add: whole(2))
qed (use assms(2) in \<open>auto simp: lost_def\<close>)

interpretation lost: invariant_system lost "fine_step answers" lost for answers
  by unfold_locales (auto intro: lost_step)

text \<open>The last result has come in and the completion thread is at the test of its loop.\<close>

definition last_response :: "MapperResult \<Rightarrow> map_state \<Rightarrow> bool" where
  "last_response res s \<longleftrightarrow>
     ms_pc s = Draining \<and> ms_responseList s = [res] \<and> mr_status res = SUCCESS \<and> ms_tpc s = TestDone \<and>
     ms_cq s = [] \<and> ms_nrpcs s = 1 \<and> \<not> m_map_done (ms_master s) \<and> map_wf (results s) \<and>
     map_find (results s) (mr_shardId res) = None \<and>
     Suc (length (results s)) = unsigned_of_int (m_nmappers (ms_master s))"

lemma results_change:
  assumes "map_step answers s t" "length (results t) \<noteq> length (results s)"
  shows "ms_pc s = Draining \<and> ms_responseList s \<noteq> [] \<and> mr_status (hd (ms_responseList s)) = SUCCESS \<and>
    map_find (results s) (mr_shardId (hd (ms_responseList s))) = None \<and> t = process_map_response s"
  using assms(1)
proof cases
  case drain
  with assms(2) show ?thesis by (auto simp: process_map_response_def Let_def split: if_splits)
qed (use assms(2) in \<open>auto simp: send_map_task_def test_map_done_def push_map_response_def record_map_success_def
      Let_def split: prod.splits if_splits\<close>)

lemma last_response_before:
  assumes inv: "map_inv m0 ids answers good s" "live_inv s" and card: "card ids = unsigned_of_int (m_nmappers m0)"
    and s: "ms_pc s = Draining" "ms_responseList s = res # rs" "mr_status res = SUCCESS"
      "map_find (results s) (mr_shardId res) = None" "Suc (length (results s)) = card ids"
  shows "\<exists>t. (map_step answers)\<^sup>*\<^sup>* s t \<and> last_response res t"
proof -
  have ci: "counting_inv ids s" and nm: "unsigned_of_int (m_nmappers (ms_master s)) = card ids"
    using inv(1) card by (simp_all add: map_inv_def same_job_def)
  have "size (pool_total (map_pool s)) = card ids" using ci by (simp add: counting_inv_def)
  then have "length (ms_job_q s) + (length (ms_cq s) + length (got_call s)) + length rs = 0"
    using s(2,5) by (simp add: pool_total_def map_pool_def del: length_0_conv)
  then have quiet: "ms_cq s = []" "got_call s = []" "rs = []" by simp_all
  have s': "ms_nrpcs s = 1" "map_wf (results s)" "\<not> m_map_done (ms_master s)"
    using ci quiet s(1,2) inv(2) by (auto simp: counting_inv_def live_inv_def outstanding_def map_pool_def)
  have "ms_tpc s = TestDone \<or> (\<exists>r. ms_tpc s = Pushed r)"
    using ci quiet s(1) inv(2) by (cases "ms_tpc s") (auto simp: counting_inv_def live_inv_def got_call_def)
  then show ?thesis
  proof
    assume "ms_tpc s = TestDone"
    then have "last_response res s" using s s' quiet nm by (simp add: last_response_def)
    then show ?thesis by blast
  next
    assume "\<exists>r. ms_tpc s = Pushed r"
    then obtain r where r: "ms_tpc s = Pushed r" ..
    have "m_map_done (ms_master (record_map_success r s)) = m_map_done (ms_master s)"
      by (simp add: record_map_success_def Let_def split: prod.splits)
    then have "last_response res (record_map_success r s)"
      using s s' quiet nm record_map_success_effect [OF r] by (simp add: last_response_def)
    then show ?thesis using map_step.finish_call [OF r] by blast
  qed
qed

lemma last_response_reached:
  assumes inv: "map_inv m0 ids answers good s0" "live_inv s0" and card: "card ids = unsigned_of_int (m_nmappers m0)"
    and "(map_step answers)\<^sup>*\<^sup>* s0 t" "length (results s0) < card ids" "length (results t) = card ids"
  shows "\<exists>s res. (map_step answers)\<^sup>*\<^sup>* s0 s \<and> last_response res s"
  using assms(4,6)
proof (induction rule: rtranclp_induct)
  case (step t u)
  show ?case
  proof (cases "length (results t) = card ids")
    case False
    with step(2,4) have ch: "ms_pc t = Draining" "ms_responseList t \<noteq> []" "mr_status (hd (ms_responseList t)) = SUCCESS"
      "map_find (results t) (mr_shardId (hd (ms_responseList t))) = None" "u = process_map_response t"
      using results_change by fastforce+
    have i: "map_inv m0 ids answers good t" using map_refines.steps_inv [OF step(1) inv(1)] .
    have l: "live_inv t" using live_steps [OF step(1) inv(2)] .
    obtain res rs where res: "ms_responseList t = res # rs" using ch(2) by (cases "ms_responseList t") auto
    have "map_wf (results t)" using i by (simp add: map_inv_def counting_inv_def)
    from process_map_response_effect(2) [OF res this] ch(3-5) res step(4)
      arg_cong [OF mset_map_emplace [OF this, of "mr_shardId res" res], of size]
    have "Suc (length (results t)) = card ids" by simp
    from last_response_before [OF i l card ch(1) res _ _ this] ch(3,4) res step(1)
    show ?thesis by (auto intro: rtranclp_trans)
  qed (use step.IH in blast)
qed (use assms(5) in simp)

lemma coarse_in_fine: "map_step answers s t \<Longrightarrow> (fine_step answers)\<^sup>*\<^sup>* (s, False) (t, False)"
proof (cases "ms_pc s = Draining \<and> ms_nrpcs t \<noteq> ms_nrpcs s")
  case True
  assume "map_step answers s t"
  then have "ms_responseList s \<noteq> [] \<and> t = process_map_response s" using True
    by cases (auto simp: push_map_response_def record_map_success_def Let_def split: prod.splits)
  then have "fine_step answers (s, False) (erase_response s, True)" "fine_step answers (erase_response s, True) (t, False)"
    using True fine_step.erase fine_step.count by (auto simp: drain_split)
  then show ?thesis by (meson converse_rtranclp_into_rtranclp r_into_rtranclp)
next
  case False
  assume "map_step answers s t"
  with False show ?thesis by (blast intro: fine_step.whole)
qed

lemma coarse_run_in_fine: "(map_step answers)\<^sup>*\<^sup>* s t \<Longrightarrow> (fine_step answers)\<^sup>*\<^sup>* (s, False) (t, False)"
  by (induction rule: rtranclp_induct) (auto dest: coarse_in_fine intro: rtranclp_trans)

lemma last_response_lost:
  assumes "last_response res s"
  shows "\<exists>t. (fine_step answers)\<^sup>*\<^sup>* (s, False) (t, False) \<and> lost (t, False)"
proof -
  let ?e = "erase_response s" and ?n = "(erase_response s)\<lparr>ms_tpc := InNext\<rparr>"
  let ?c = "count_response ?n"
  let ?t = "?c\<lparr>ms_pc := Testing\<rparr>"
  let ?r = "(test_map_done ?t)\<lparr>ms_responseList := [], ms_pc := Returned\<rparr>"
  have e: "ms_pc ?e = Draining" "ms_responseList ?e = []" "ms_tpc ?e = TestDone" "ms_nrpcs ?e = 1" "ms_cq ?e = []"
    "\<not> m_map_done (ms_master ?e)" "length (results ?e) = unsigned_of_int (m_nmappers (ms_master ?e))"
    using assms arg_cong [OF mset_map_emplace [of "results s" "mr_shardId res" res], of size]
    by (simp_all add: last_response_def erase_response_def Let_def)
  have "fine_step answers (s, False) (?e, True)" using assms by (intro fine_step.erase) (auto simp: last_response_def)
  moreover have "fine_step answers (?e, True) (?n, True)"
    using e by (intro fine_step.between map_step.enter_next) (auto simp: other_thread_def unsigned_of_int_def)
  moreover have "fine_step answers (?n, True) (?c, False)" by (rule fine_step.count)
  moreover have "(map_step answers)\<^sup>*\<^sup>* ?c ?r"
  proof -
    have "map_step answers ?c ?t" using e by (intro map_step.drained) (auto simp: count_response_def)
    moreover have "map_step answers ?t (test_map_done ?t)" by (intro map_step.test) simp
    moreover have "map_step answers (test_map_done ?t) ?r"
      using e by (intro map_step.clear) (auto simp: test_map_done_def count_response_def Let_def)
    ultimately show ?thesis by (meson converse_rtranclp_into_rtranclp r_into_rtranclp)
  qed
  moreover have "lost (?r, False)" using e by (simp add: lost_def test_map_done_def count_response_def Let_def)
  ultimately show ?thesis by (meson converse_rtranclp_into_rtranclp coarse_run_in_fine)
qed

text \<open>C35: Every job can lose its completion thread. Between the erasure of the last response and the decrement the
  counter says that one more answer is due, and a completion thread that tests its condition there waits in
  \<^verbatim>\<open>cq.Next\<close> with no call outstanding. The dispatch returns, but whatever happens afterwards the thread does not
  end, so the join that follows in \<^verbatim>\<open>runReducer\<close> does not return.\<close>

theorem completion_thread_lost:
  assumes "indexed_shards m" "answerable m answers" "\<not> m_will_fail m" "\<not> m_has_failed m"
    and "unsigned_of_int (m_nmappers m) = length (m_shards m)" "0 < length (m_shards m)"
  shows "\<exists>t. (fine_step answers)\<^sup>*\<^sup>* (runMapper m, False) (t, False) \<and> ms_pc t = Returned \<and>
    (\<forall>u half. (fine_step answers)\<^sup>*\<^sup>* (t, False) (u, half) \<longrightarrow> ms_tpc u \<noteq> Exited)"
proof -
  let ?ids = "int ` {0..<length (m_shards m)}"
  note reach = map_run_inv [OF assms(1) eq_refl [OF assms(5) [symmetric]]]
  note inv = reach [OF rtranclp.rtrancl_refl]
  have live: "live_inv (runMapper m)" using runMapper_live assms(3-6) by simp
  have card: "card ?ids = unsigned_of_int (m_nmappers (cleared m))" using assms(5) by (simp add: card_image)
  obtain t where t: "(map_step answers)\<^sup>*\<^sup>* (runMapper m) t" "ms_pc t = Returned"
    using map_dispatch_completes [OF assms rtranclp.rtrancl_refl] by blast
  have "length (results t) = card ?ids"
    using reach [OF t(1)] t(2) card by (simp add: map_inv_def counting_inv_def same_job_def)
  moreover have "length (results (runMapper m)) < card ?ids"
    using assms(6) by (simp add: runMapper_def start_map_dispatch_def card_image)
  ultimately obtain s res where s: "(map_step answers)\<^sup>*\<^sup>* (runMapper m) s" "last_response res s"
    using last_response_reached [OF inv live card t(1)] by blast
  obtain u where u: "(fine_step answers)\<^sup>*\<^sup>* (s, False) (u, False)" "lost (u, False)"
    using last_response_lost [OF s(2)] by blast
  have "ms_tpc v \<noteq> Exited" if "(fine_step answers)\<^sup>*\<^sup>* (u, False) (v, half)" for v half
    using lost.steps_inv [OF that u(2)] by (simp add: lost_def)
  moreover have "(fine_step answers)\<^sup>*\<^sup>* (runMapper m, False) (u, False)"
    using coarse_run_in_fine [OF s(1)] u(1) by (rule rtranclp_trans)
  moreover have "ms_pc u = Returned" using u(2) by (simp add: lost_def)
  ultimately show ?thesis by blast
qed

section \<open>Demonstration\<close>

theorem map_grain_irrelevant_witness:
  "\<exists>s c. (fine_step demo_answers)\<^sup>*\<^sup>* (runMapper demo_master, False) (s, False) \<and> ms_pc s = Returned \<and>
     (map_step demo_answers)\<^sup>*\<^sup>* (runMapper demo_master) c \<and> ms_master c = ms_master s"
proof -
  obtain s where s: "(map_step demo_answers)\<^sup>*\<^sup>* (runMapper demo_master) s" "ms_pc s = Returned" using demo_run by blast
  note run = coarse_run_in_fine [OF s(1)]
  have "\<exists>c. (map_step demo_answers)\<^sup>*\<^sup>* (runMapper demo_master) c \<and> ms_master c = ms_master s \<and> ms_pc c = ms_pc s \<and>
    ms_job_q c = ms_job_q s \<and> ms_cq c = ms_cq s \<and> ms_responseList c = ms_responseList s"
    by (rule map_grain_irrelevant [OF demo_master_simps(1) _ _ _ _ run]) (simp_all add: demo_master_simps)
  with run s(2) show ?thesis by blast
qed

theorem completion_thread_lost_witness:
  "\<exists>t. (fine_step demo_answers)\<^sup>*\<^sup>* (runMapper demo_master, False) (t, False) \<and> ms_pc t = Returned \<and>
    (\<forall>u half. (fine_step demo_answers)\<^sup>*\<^sup>* (t, False) (u, half) \<longrightarrow> ms_tpc u \<noteq> Exited)"
  by (rule completion_thread_lost [OF demo_master_simps(1) demo_answerable]) (simp_all add: demo_master_simps)

end
