(* ===== verification/ReplThread.thy ===== *)
theory ReplThread
  imports Replication "HOL-Library.Sublist"
begin

text \<open>
  The replication thread of a leader: the loop of \<^verbatim>\<open>start_repl_client\<close> of
  \<^verbatim>\<open>w7/src/master/masterimpl.cc\<close>, interleaved statement by statement with the completion thread
  of the map dispatch, which reports results under \<^verbatim>\<open>g_repl_mtx_\<close>, and with the main thread, which
  stops and joins it at the end of \<^verbatim>\<open>run_as_leader\<close>. The follower is the master that serves
  \<^verbatim>\<open>pushCheckPointData\<close>.
\<close>

section \<open>The code\<close>

text \<open>Where the thread is: at the loop test, in \<^verbatim>\<open>serialize_data\<close>, with the message on its way, back
  from the call, in the wait for the condition variable, or returned; and where the main thread is.\<close>

datatype repl_pc = ReplTest | Serialising | Transmitting CheckPointData | Acknowledged | ReplWaiting | ReplReturned

datatype leader_pc = Working | JoiningRepl | ReplJoined

record repl_state =
  rt_leader :: Master
  rt_follower :: Master
  rt_pc :: repl_pc
  rt_main :: leader_pc

definition start_repl_client :: "Master \<Rightarrow> Master \<Rightarrow> repl_state" where
  "start_repl_client leader follower =
     \<lparr>rt_leader = leader, rt_follower = follower,
      rt_pc = (if m_has_failed leader then ReplReturned else ReplTest), rt_main = Working\<rparr>"

definition test_repl :: "repl_state \<Rightarrow> repl_state" where
  "test_repl s =
     s\<lparr>rt_pc := (if \<not> m_stop_repl_as_leader (rt_leader s) \<and> g_repl_data (rt_leader s) then Serialising else ReplReturned)\<rparr>"

definition begin_push :: "repl_state \<Rightarrow> repl_state" where
  "begin_push s = s\<lparr>rt_pc := Transmitting (serialize_data (rt_leader s))\<rparr>"

definition finish_push :: "CheckPointData \<Rightarrow> int \<Rightarrow> repl_state \<Rightarrow> repl_state" where
  "finish_push msg code s =
     s\<lparr>rt_follower := (if status_ok code then pushCheckPointData msg (rt_follower s) else rt_follower s),
       rt_pc := Acknowledged\<rparr>"

text \<open>The flag is lowered and the wait entered without releasing the mutex in between.\<close>

definition enter_wait :: "repl_state \<Rightarrow> repl_state" where
  "enter_wait s = s\<lparr>rt_leader := (rt_leader s)\<lparr>g_repl_data := False\<rparr>, rt_pc := ReplWaiting\<rparr>"

definition report_result :: "MapperResult \<Rightarrow> Master \<Rightarrow> Master" where
  "report_result r m = m\<lparr>g_repl_data := True, g_repl_list := g_repl_list m @ [r]\<rparr>"

definition begin_cleanup :: "repl_state \<Rightarrow> repl_state" where
  "begin_cleanup s =
     s\<lparr>rt_leader := (rt_leader s)\<lparr>m_stop_repl_as_leader := True\<rparr>,
       rt_main := (if repl_clt_thd (rt_leader s) then JoiningRepl else ReplJoined)\<rparr>"

definition end_cleanup :: "repl_state \<Rightarrow> repl_state" where
  "end_cleanup s = s\<lparr>rt_leader := (rt_leader s)\<lparr>repl_clt_thd := False\<rparr>, rt_main := ReplJoined\<rparr>"

text \<open>What the rest of the leader leaves alone.\<close>

definition same_repl :: "Master \<Rightarrow> Master \<Rightarrow> bool" where
  "same_repl m m' \<longleftrightarrow> g_repl_data m' = g_repl_data m \<and> g_repl_list m' = g_repl_list m \<and>
     m_stop_repl_as_leader m' = m_stop_repl_as_leader m \<and> repl_clt_thd m' = repl_clt_thd m"

text \<open>\<open>reports\<close>: the results the completion thread may still report.\<close>

inductive repl_step :: "(MapperResult \<Rightarrow> bool) \<Rightarrow> repl_state \<Rightarrow> repl_state \<Rightarrow> bool" for reports where
  test: "rt_pc s = ReplTest \<Longrightarrow> repl_step reports s (test_repl s)"
| serialise: "rt_pc s = Serialising \<Longrightarrow> repl_step reports s (begin_push s)"
| push: "rt_pc s = Transmitting msg \<Longrightarrow> repl_step reports s (finish_push msg code s)"
| wait: "rt_pc s = Acknowledged \<Longrightarrow> repl_step reports s (enter_wait s)"
| wake: "\<lbrakk>rt_pc s = ReplWaiting; g_repl_data (rt_leader s)\<rbrakk> \<Longrightarrow> repl_step reports s (s\<lparr>rt_pc := ReplTest\<rparr>)"
| report: "\<lbrakk>rt_main s = Working; reports r\<rbrakk> \<Longrightarrow> repl_step reports s (s\<lparr>rt_leader := report_result r (rt_leader s)\<rparr>)"
| work: "\<lbrakk>rt_main s = Working; same_repl (rt_leader s) m'\<rbrakk> \<Longrightarrow> repl_step reports s (s\<lparr>rt_leader := m'\<rparr>)"
| fail: "rt_main s = Working \<Longrightarrow> repl_step reports s (s\<lparr>rt_leader := enter_fail_state (rt_leader s)\<rparr>)"
| stop: "rt_main s = Working \<Longrightarrow> repl_step reports s (begin_cleanup s)"
| join: "\<lbrakk>rt_main s = JoiningRepl; rt_pc s = ReplReturned\<rbrakk> \<Longrightarrow> repl_step reports s (end_cleanup s)"

lemmas repl_defs = start_repl_client_def test_repl_def begin_push_def finish_push_def enter_wait_def
  report_result_def begin_cleanup_def end_cleanup_def same_repl_def enter_fail_state_def stop_ping_def

text \<open>The report is what the completion thread of the map dispatch does with a successful answer.\<close>

lemma record_map_success_reports:
  assumes "status_ok code"
  shows "ms_master (record_map_success (call, code, reply) s) =
    report_result (new_MapperResult SUCCESS (mc_shardId call) (ir_containername reply) False (ir_blobs reply))
      ((ms_master s)\<lparr>heap := setStatus (mc_client call) MAP_DONE (heap (ms_master s))\<rparr>)"
  using assms by (simp add: record_map_success_def report_result_def Let_def)

section \<open>What the follower holds\<close>

definition holds_results :: "MapperResult list \<Rightarrow> Master \<Rightarrow> bool" where
  "holds_results rs m \<longleftrightarrow> m_bReplicated m \<and> dom (map_find (m_IntermediateResultMap m)) = mr_shardId ` set rs \<and>
     m_IntblobList m = concat (map mr_blobList rs)"

lemma read_jobs_dom:
  assumes "map_wf (m_IntermediateResultMap m)"
  shows "dom (map_find (m_IntermediateResultMap (fold read_job (map job_status_of rs) m))) =
      dom (map_find (m_IntermediateResultMap m)) \<union> mr_shardId ` set rs \<and>
    m_IntblobList (fold read_job (map job_status_of rs) m) = m_IntblobList m @ concat (map mr_blobList rs)"
  using assms
proof (induction rs arbitrary: m)
  case (Cons r rs)
  let ?m = "read_job (job_status_of r) m"
  have "dom (map_find (m_IntermediateResultMap ?m)) = insert (mr_shardId r) (dom (map_find (m_IntermediateResultMap m)))"
    using Cons.prems by (auto simp: read_job_def Let_def job_status_of_def map_find_emplace dom_def split: option.splits)
  moreover have "map_wf (m_IntermediateResultMap ?m)" "m_IntblobList ?m = m_IntblobList m @ mr_blobList r"
    using Cons.prems by (simp_all add: read_job_def Let_def job_status_of_def map_wf_emplace)
  ultimately show ?case using Cons.IH [of ?m] by simp
qed simp

lemma checkpoint_holds: "holds_results (g_repl_list leader) (pushCheckPointData (serialize_data leader) follower)"
  using read_jobs_dom [where rs = "g_repl_list leader"]
  by (simp add: holds_results_def pushCheckPointData_def deserialize_data_def serialize_data_def Let_def map_wf_def)

text \<open>The follower has nothing of this thread yet, or what the leader had reported at some moment.\<close>

definition repl_inv :: "Master \<Rightarrow> repl_state \<Rightarrow> bool" where
  "repl_inv f s \<longleftrightarrow>
     (rt_follower s = f \<or> (\<exists>rs. prefix rs (g_repl_list (rt_leader s)) \<and> holds_results rs (rt_follower s))) \<and>
     (\<forall>msg. rt_pc s = Transmitting msg \<longrightarrow>
        (\<exists>rs. prefix rs (g_repl_list (rt_leader s)) \<and> (\<forall>m. holds_results rs (pushCheckPointData msg m))))"

lemma repl_inv_step:
  assumes "repl_inv f s" "repl_step reports s t"
  shows "repl_inv f t"
  using assms(2,1)
proof (induction rule: repl_step.induct)
  case (serialise s)
  then show ?case using checkpoint_holds [of "rt_leader s"] by (auto simp: repl_inv_def begin_push_def)
next
  case (report s r)
  then show ?case by (simp add: repl_inv_def report_result_def) blast
qed (auto simp: repl_inv_def repl_defs)

text \<open>The thread returns only when it was told to stop, and finds work whenever it tests for it.\<close>

definition repl_alive :: "repl_state \<Rightarrow> bool" where
  "repl_alive s \<longleftrightarrow> (rt_pc s = ReplReturned \<longrightarrow> m_stop_repl_as_leader (rt_leader s)) \<and>
     (rt_pc s = ReplTest \<longrightarrow> g_repl_data (rt_leader s))"

lemma repl_alive_step:
  assumes "repl_alive s" "repl_step reports s t"
  shows "repl_alive t"
  using assms(2,1) by (induction rule: repl_step.induct) (auto simp: repl_alive_def repl_defs)

lemma repl_init: "repl_inv f (start_repl_client l f)"
  and repl_alive_init: "\<not> m_has_failed l \<Longrightarrow> g_repl_data l \<Longrightarrow> repl_alive (start_repl_client l f)"
  by (simp_all add: repl_inv_def repl_alive_def start_repl_client_def)

interpretation repl: invariant_system "\<lambda>s. \<exists>l. s = start_repl_client l f" "repl_step reports" "repl_inv f" for f reports
  by unfold_locales (auto intro: repl_init repl_inv_step)

interpretation repl_live: invariant_system
    "\<lambda>s. \<exists>l f. s = start_repl_client l f \<and> \<not> m_has_failed l \<and> g_repl_data l" "repl_step reports" repl_alive for reports
  by unfold_locales (auto intro: repl_alive_init repl_alive_step)

section \<open>Properties\<close>

lemma repl_prefix:
  assumes "(repl_step reports)\<^sup>*\<^sup>* (start_repl_client l f) s"
  shows "rt_follower s = f \<or> (\<exists>rs. prefix rs (g_repl_list (rt_leader s)) \<and> holds_results rs (rt_follower s))"
  using repl.steps_inv [OF assms repl_init] by (simp add: repl_inv_def)

text \<open>One undisturbed round: from the loop test to the wait, with everything reported so far pushed.\<close>

definition pushed :: "repl_state \<Rightarrow> repl_state" where
  "pushed s = s\<lparr>rt_leader := (rt_leader s)\<lparr>g_repl_data := False\<rparr>,
     rt_follower := pushCheckPointData (serialize_data (rt_leader s)) (rt_follower s), rt_pc := ReplWaiting\<rparr>"

lemma push_round:
  assumes "rt_pc s = ReplTest" "g_repl_data (rt_leader s)" "\<not> m_stop_repl_as_leader (rt_leader s)"
  shows "(repl_step reports)\<^sup>*\<^sup>* s (pushed s)"
proof -
  let ?s1 = "test_repl s"
  let ?s2 = "begin_push ?s1"
  let ?s3 = "finish_push (serialize_data (rt_leader s)) 0 ?s2"
  have "repl_step reports s ?s1" "repl_step reports ?s1 ?s2" "repl_step reports ?s2 ?s3"
    "repl_step reports ?s3 (enter_wait ?s3)"
    using assms repl_step.test [of s reports] repl_step.serialise [of ?s1 reports] repl_step.push [of ?s2 _ reports 0]
      repl_step.wait [of ?s3 reports]
    by (simp_all add: repl_defs)
  moreover have "enter_wait ?s3 = pushed s" using assms by (simp add: repl_defs pushed_def)
  ultimately show ?thesis by (metis converse_rtranclp_into_rtranclp rtranclp.rtrancl_refl)
qed

text \<open>A thread that has not returned can reach its wait.\<close>

lemma reaches_wait:
  assumes "repl_alive s" "\<not> m_stop_repl_as_leader (rt_leader s)"
  obtains t where "(repl_step reports)\<^sup>*\<^sup>* s t" "rt_pc t = ReplWaiting" "rt_main t = rt_main s"
    "\<not> m_stop_repl_as_leader (rt_leader t)" "g_repl_list (rt_leader t) = g_repl_list (rt_leader s)"
proof -
  have ack: "(repl_step reports)\<^sup>*\<^sup>* u (enter_wait u)" if "rt_pc u = Acknowledged" for u
    using repl_step.wait [OF that] by blast
  have tra: "(repl_step reports)\<^sup>*\<^sup>* u (enter_wait (finish_push msg 0 u))" if "rt_pc u = Transmitting msg" for u msg
    using repl_step.push [OF that, of reports 0] ack [of "finish_push msg 0 u"]
    by (simp add: finish_push_def converse_rtranclp_into_rtranclp)
  show ?thesis
  proof (cases "rt_pc s")
    case ReplTest
    then show ?thesis using assms push_round [of s reports] by (intro that [of "pushed s"]) (auto simp: repl_alive_def pushed_def)
  next
    case Serialising
    then have "(repl_step reports)\<^sup>*\<^sup>* s (enter_wait (finish_push (serialize_data (rt_leader s)) 0 (begin_push s)))"
      using repl_step.serialise [of s reports] tra [of "begin_push s"]
      by (simp add: begin_push_def converse_rtranclp_into_rtranclp)
    then show ?thesis
      by (rule that) (use assms(2) in \<open>simp_all add: repl_defs\<close>)
  next
    case (Transmitting msg)
    then show ?thesis using assms(2) tra by (intro that [of "enter_wait (finish_push msg 0 s)"]) (auto simp: repl_defs)
  next
    case Acknowledged
    then show ?thesis using assms(2) ack by (intro that [of "enter_wait s"]) (auto simp: repl_defs)
  qed (use assms that [of s] in \<open>auto simp: repl_alive_def\<close>)
qed


text \<open>
  C38: A result that is reported while a checkpoint is on its way is not replicated until the next one is
  reported: the flag it raises is lowered when the call returns. The state is reachable from every start
  of the thread, and without a further report the follower never learns of the result.
\<close>

theorem late_result_waits:
  assumes "\<not> m_has_failed l" "g_repl_data l" "\<not> m_stop_repl_as_leader l" "mr_shardId r \<notin> mr_shardId ` set (g_repl_list l)"
  shows "\<exists>s. (repl_step (\<lambda>x. x = r))\<^sup>*\<^sup>* (start_repl_client l f) s \<and> r \<in> set (g_repl_list (rt_leader s)) \<and>
    rt_pc s = ReplWaiting \<and>
    (\<forall>t. (repl_step (\<lambda>_. False))\<^sup>*\<^sup>* s t \<longrightarrow> mr_shardId r \<notin> dom (map_find (m_IntermediateResultMap (rt_follower t))))"
proof -
  let ?s0 = "start_repl_client l f" and ?step = "repl_step (\<lambda>x. x = r)"
  let ?s1 = "test_repl ?s0"
  let ?s2 = "begin_push ?s1"
  let ?s3 = "?s2\<lparr>rt_leader := report_result r (rt_leader ?s2)\<rparr>"
  let ?s4 = "finish_push (serialize_data l) 0 ?s3"
  let ?s5 = "enter_wait ?s4"
  have "?step ?s0 ?s1" "?step ?s1 ?s2" "?step ?s2 ?s3" "?step ?s3 ?s4" "?step ?s4 ?s5"
    using assms(1-3) repl_step.test [of ?s0] repl_step.serialise [of ?s1] repl_step.report [of ?s2 _ r]
      repl_step.push [of ?s3 _ _ 0] repl_step.wait [of ?s4]
    by (simp_all add: repl_defs)
  then have "?step\<^sup>*\<^sup>* ?s0 ?s5" by (meson converse_rtranclp_into_rtranclp rtranclp.rtrancl_refl)
  moreover have "r \<in> set (g_repl_list (rt_leader ?s5))" "rt_pc ?s5 = ReplWaiting" by (simp_all add: repl_defs)
  moreover have "rt_pc t = ReplWaiting \<and> \<not> g_repl_data (rt_leader t) \<and> rt_follower t = pushCheckPointData (serialize_data l) f"
    if "(repl_step (\<lambda>_. False))\<^sup>*\<^sup>* ?s5 t" for t
    using that
  proof (induction rule: rtranclp_induct)
    case (step t u)
    from step(2,3) show ?case by (induction rule: repl_step.induct) (auto simp: repl_defs)
  qed (simp add: repl_defs)
  moreover have "mr_shardId r \<notin> dom (map_find (m_IntermediateResultMap (pushCheckPointData (serialize_data l) f)))"
    using checkpoint_holds [of l f] assms(4) by (simp add: holds_results_def)
  ultimately show ?thesis by metis
qed

text \<open>
  At the end of \<^verbatim>\<open>run_as_leader\<close> the main thread raises the stop flag and joins the replication
  thread; a thread in its wait is not notified and does not look at that flag, so the join never returns.
\<close>

lemma cleanup_hangs:
  assumes "\<not> m_has_failed l" "g_repl_data l" "\<not> m_stop_repl_as_leader l" "repl_clt_thd l"
  shows "\<exists>s. (repl_step reports)\<^sup>*\<^sup>* (start_repl_client l f) s \<and> rt_main s = JoiningRepl \<and>
    (\<forall>t. (repl_step reports)\<^sup>*\<^sup>* s t \<longrightarrow> rt_main t = JoiningRepl)"
proof -
  let ?s = "pushed (start_repl_client l f)"
  have "(repl_step reports)\<^sup>*\<^sup>* (start_repl_client l f) ?s"
    using push_round [of "start_repl_client l f"] assms by (simp add: start_repl_client_def)
  moreover have "repl_step reports ?s (begin_cleanup ?s)"
    using repl_step.stop [of ?s] by (simp add: pushed_def start_repl_client_def)
  moreover have "rt_main t = JoiningRepl \<and> rt_pc t = ReplWaiting \<and> \<not> g_repl_data (rt_leader t)"
    if "(repl_step reports)\<^sup>*\<^sup>* (begin_cleanup ?s) t" for t
    using that
  proof (induction rule: rtranclp_induct)
    case base
    then show ?case using assms(4) by (simp add: pushed_def repl_defs)
  next
    case (step t u)
    from step(2,3) show ?case by (induction rule: repl_step.induct) (auto simp: repl_defs)
  qed
  ultimately show ?thesis by (meson rtranclp.rtrancl_into_rtrancl rtranclp.rtrancl_refl)
qed

section \<open>Demonstration\<close>

text \<open>A leader with one reported result, and a second result.\<close>

definition demo_repl_leader :: Master where
  "demo_repl_leader = demo_leader\<lparr>g_repl_data := True, m_stop_repl_as_leader := False, m_has_failed := False\<rparr>"

definition demo_late :: MapperResult where
  "demo_late = new_MapperResult SUCCESS 1 ''int'' False [''int_w_1_0_0'']"

lemma demo_repl_simps:
  "\<not> m_has_failed demo_repl_leader" "g_repl_data demo_repl_leader" "\<not> m_stop_repl_as_leader demo_repl_leader"
  "mr_shardId demo_late \<notin> mr_shardId ` set (g_repl_list demo_repl_leader)" "mr_blobList demo_late = [''int_w_1_0_0'']"
  "mr_shardId demo_late = 1" "map mr_blobList (g_repl_list demo_repl_leader) = [[''int_w_0_0_0'']]"
  by (simp_all add: demo_repl_leader_def demo_late_def demo_leader_def new_MapperResult_def)


theorem late_result_waits_witness:
  "\<exists>s. (repl_step (\<lambda>x. x = demo_late))\<^sup>*\<^sup>* (start_repl_client demo_repl_leader demo_master) s \<and>
     demo_late \<in> set (g_repl_list (rt_leader s)) \<and>
     (\<forall>t. (repl_step (\<lambda>_. False))\<^sup>*\<^sup>* s t \<longrightarrow> map_find (m_IntermediateResultMap (rt_follower t)) 1 = None)"
  using late_result_waits [OF demo_repl_simps(1-4), of demo_master] by (auto simp: demo_repl_simps(6) domIff)

end
