(* ===== verification/WorkerService.thy ===== *)
theory WorkerService
  imports Worker
begin

text \<open>
  The asynchronous server of the worker (\<^verbatim>\<open>w7/src/worker/mrservice.h\<close>): each remote method
  has call objects that wait for a request, serve it and delete themselves. The event loop is a step
  relation over the set of live call objects; the theorem says that the service never runs out of
  listeners and never leaks finished calls.
\<close>

section \<open>The code\<close>

datatype rpc_method = ExchangeInfo | Ping | MapTask | ReduceTask

datatype CallStatus = CREATE | PROCESS | FINISH

record CallData =
  cd_method :: rpc_method
  cd_status :: CallStatus

text \<open>\<^verbatim>\<open>Proceed\<close>: what becomes of the object (\<open>None\<close>: it deleted itself), and which objects it
  created. A constructor calls \<^verbatim>\<open>Proceed\<close> once, which registers the object for a request.\<close>

definition new_CallData :: "rpc_method \<Rightarrow> CallData" where
  "new_CallData m = \<lparr>cd_method = m, cd_status = PROCESS\<rparr>"

definition AddNextToCompletionQueue :: "CallData \<Rightarrow> CallData list" where
  "AddNextToCompletionQueue c = [new_CallData (cd_method c)]"

definition Proceed :: "CallData \<Rightarrow> CallData option \<times> CallData list" where
  "Proceed c =
     (if cd_status c = CREATE then (Some (c\<lparr>cd_status := PROCESS\<rparr>), [])
      else if cd_status c = PROCESS then (Some (c\<lparr>cd_status := FINISH\<rparr>), AddNextToCompletionQueue c)
      else (None, []))"

text \<open>The start of \<^verbatim>\<open>handleRpcs\<close>, and one event: the tag is any live object.\<close>

definition initial_calls :: "CallData list" where
  "initial_calls = [new_CallData ExchangeInfo, new_CallData Ping, new_CallData MapTask, new_CallData ReduceTask]"

inductive service_step :: "CallData list \<Rightarrow> CallData list \<Rightarrow> bool" where
  event: "Proceed c = (this, created) \<Longrightarrow>
    service_step (xs @ c # ys) (xs @ (case this of None \<Rightarrow> [] | Some c' \<Rightarrow> [c']) @ ys @ created)"

datatype WorkStatus = WS_IDLE | WS_MAP_RUNNING | WS_REDUCE_RUNNING | WS_MAP_DONE | WS_REDUCE_DONE

definition WRKR_AVAILABLE :: int where "WRKR_AVAILABLE = 0"
definition WRKR_BUSY :: int where "WRKR_BUSY = 1"
definition WRKR_DONE :: int where "WRKR_DONE = 2"

fun getWorkerStatus :: "WorkStatus \<Rightarrow> int" where
  "getWorkerStatus WS_IDLE = WRKR_AVAILABLE"
| "getWorkerStatus WS_MAP_RUNNING = WRKR_BUSY"
| "getWorkerStatus WS_REDUCE_RUNNING = WRKR_BUSY"
| "getWorkerStatus WS_MAP_DONE = WRKR_DONE"
| "getWorkerStatus WS_REDUCE_DONE = WRKR_DONE"

section \<open>One listener per method\<close>

definition listeners :: "rpc_method \<Rightarrow> CallData list \<Rightarrow> nat" where
  "listeners m cs = length (filter (\<lambda>c. cd_method c = m \<and> cd_status c = PROCESS) cs)"

definition service_inv :: "CallData list \<Rightarrow> bool" where
  "service_inv cs \<longleftrightarrow> (\<forall>m. listeners m cs = 1) \<and> (\<forall>c \<in> set cs. cd_status c \<noteq> CREATE)"

lemma service_inv_step: "service_step cs ds \<Longrightarrow> service_inv cs \<Longrightarrow> service_inv ds"
proof (induction rule: service_step.induct)
  case (event c this created xs ys)
  have "listeners m (xs @ (case this of None \<Rightarrow> [] | Some c' \<Rightarrow> [c']) @ ys @ created) = 1" for m
    using event(1) event(2) [unfolded service_inv_def, THEN conjunct1, THEN spec, of m]
      event(2) [unfolded service_inv_def, THEN conjunct2]
    by (auto simp: Proceed_def AddNextToCompletionQueue_def listeners_def new_CallData_def split: if_splits)
  moreover have "\<forall>d \<in> set (xs @ (case this of None \<Rightarrow> [] | Some c' \<Rightarrow> [c']) @ ys @ created). cd_status d \<noteq> CREATE"
    using event by (auto simp: Proceed_def AddNextToCompletionQueue_def service_inv_def new_CallData_def split: if_splits)
  ultimately show ?case by (simp add: service_inv_def)
qed

lemma service_inv_initial: "service_inv initial_calls"
proof -
  have "listeners m initial_calls = 1" for m
    by (cases m) (simp_all add: listeners_def initial_calls_def new_CallData_def)
  then show ?thesis by (simp add: service_inv_def initial_calls_def new_CallData_def)
qed

interpretation service: invariant_system "\<lambda>cs. cs = initial_calls" service_step service_inv
  by unfold_locales (auto intro: service_inv_initial service_inv_step)

text \<open>The number of served calls whose reply has not been sent.\<close>

definition unfinished :: "CallData list \<Rightarrow> nat" where
  "unfinished cs = length (filter (\<lambda>c. cd_status c = FINISH) cs)"

lemma length_split: "service_inv cs \<Longrightarrow> length cs = 4 + unfinished cs"
proof -
  assume inv: "service_inv cs"
  have "length cs = listeners ExchangeInfo cs + listeners Ping cs + listeners MapTask cs + listeners ReduceTask cs +
      unfinished cs" if "\<forall>c \<in> set cs. cd_status c \<noteq> CREATE" for cs
    using that
  proof (induction cs)
    case (Cons c cs)
    then show ?case
      by (cases "cd_method c"; cases "cd_status c") (auto simp: listeners_def unfinished_def)
  qed (simp add: listeners_def unfinished_def)
  with inv show ?thesis by (simp add: service_inv_def)
qed

text \<open>
  C24: In every state of the event loop, whatever requests arrive in whatever order, each of the four
  remote methods has exactly one call object registered for the next request, and the only other objects
  are the calls whose reply is being sent: the worker neither stops listening nor leaks call objects.
\<close>

theorem one_listener_per_method:
  assumes "reachable (\<lambda>cs. cs = initial_calls) service_step cs"
  shows "(\<forall>m. listeners m cs = 1) \<and> length cs = 4 + unfinished cs"
  using service.reachable_inv [OF assms] length_split by (simp add: service_inv_def)

theorem one_listener_per_method_witness:
  "\<exists>cs. reachable (\<lambda>cs. cs = initial_calls) service_step cs \<and> listeners MapTask cs = 1 \<and> unfinished cs = 1 \<and> length cs = 5"
proof -
  let ?cs = "[new_CallData ExchangeInfo, new_CallData Ping, \<lparr>cd_method = MapTask, cd_status = FINISH\<rparr>,
    new_CallData ReduceTask, new_CallData MapTask]"
  have "service_step initial_calls ?cs"
    using service_step.event [of "new_CallData MapTask" "Some \<lparr>cd_method = MapTask, cd_status = FINISH\<rparr>"
        "[new_CallData MapTask]" "[new_CallData ExchangeInfo, new_CallData Ping]" "[new_CallData ReduceTask]"]
    by (simp add: initial_calls_def Proceed_def AddNextToCompletionQueue_def new_CallData_def)
  moreover have "reachable (\<lambda>cs. cs = initial_calls) service_step initial_calls"
    by (rule reachable.start) (rule refl)
  ultimately have r: "reachable (\<lambda>cs. cs = initial_calls) service_step ?cs"
    by (rule reachable.next_step [rotated])
  from one_listener_per_method [OF r] show ?thesis
    by (intro exI [of _ ?cs] conjI r) (simp_all add: unfinished_def new_CallData_def)
qed

end
