(* ===== verification/Startup.thy ===== *)
theory Startup
  imports Election WorkerService
begin

text \<open>
  How the processes start and find each other: \<^verbatim>\<open>main\<close> of \<^verbatim>\<open>master.cc\<close> and
  \<^verbatim>\<open>worker.cc\<close>, \<^verbatim>\<open>Worker::run\<close> of \<^verbatim>\<open>workerimpl.cc\<close> with the registration
  of a worker, and \<^verbatim>\<open>Master::run\<close> of \<^verbatim>\<open>masterimpl.cc\<close> with the ZooKeeper helpers it uses.
  The theorems connect a worker's registration with the client the master makes for it.
\<close>

section \<open>Program entry\<close>

text \<open>The arguments without the program name; \<^verbatim>\<open>std::stoi\<close> may throw.\<close>

definition worker_fail_after :: "string list \<Rightarrow> int result" where
  "worker_fail_after args = (case args of [] \<Rightarrow> Inr (- 1) | a # _ \<Rightarrow> stoi a)"

definition master_fail_after :: "string list \<Rightarrow> int result" where
  "master_fail_after args = (case args of [] \<Rightarrow> Inr (- 1) | a # _ \<Rightarrow> stoi a)"

text \<open>The address of ZooKeeper; \<open>local_build\<close> says whether \<^verbatim>\<open>LOCAL\<close> is defined.\<close>

definition worker_zkURL :: "bool \<Rightarrow> string \<Rightarrow> string" where
  "worker_zkURL local_build ns =
     (if local_build then ''localhost:2181'' else ''zookeeper.'' @ ns @ ''.svc.cluster.local:2181'')"

definition master_zkURL :: "bool \<Rightarrow> string \<Rightarrow> string" where
  "master_zkURL local_build ns =
     (if local_build then ''localhost:2181'' else ''zookeeper.'' @ ns @ ''.svc.cluster.local:2181'')"

definition getSrvAddress :: "bool \<Rightarrow> string \<Rightarrow> string" where
  "getSrvAddress local_build pod_ip = (if local_build then ''localhost'' else pod_ip)"

section \<open>Watches\<close>

text \<open>The states of a ZooKeeper session, with the numbers of the client library.\<close>

definition state2String :: "int \<Rightarrow> string" where
  "state2String state =
     (if state = 0 then ''CLOSED_STATE''
      else if state = 1 then ''CONNECTING_STATE''
      else if state = 2 then ''ASSOCIATING_STATE''
      else if state = 3 then ''CONNECTED_STATE''
      else if state = - 112 then ''EXPIRED_SESSION_STATE''
      else if state = - 113 then ''AUTH_FAILED_STATE''
      else ''INVALID_STATE'')"

text \<open>Whether \<^verbatim>\<open>get_watcher_fn\<close> sets its watch again: the return code of
  \<^verbatim>\<open>checkExists\<close> is used as a truth value.\<close>

definition get_watcher_fn :: "'z Conservator \<Rightarrow> string \<Rightarrow> 'z \<Rightarrow> bool" where
  "get_watcher_fn fw path z \<longleftrightarrow> cf_checkExists fw path z \<noteq> 0"

section \<open>A worker starts\<close>

definition connect_to_zk :: "Worker \<Rightarrow> Worker" where
  "connect_to_zk w = w\<lparr>wk_framework_open := True\<rparr>"

definition worker_register_with_zk :: "'z Conservator \<Rightarrow> 'z \<Rightarrow> Worker \<Rightarrow> 'z \<times> Worker" where
  "worker_register_with_zk fw z w =
     (let z1 = snd (cf_create fw False False ''/workers'' [] z);
          (nodepath, z2) = cf_create fw True True ''/workers/worker_'' [] z1
      in (z2, w\<lparr>wk_nodepath := nodepath\<rparr>))"

definition register_address_with_zk :: "'z Conservator \<Rightarrow> 'z \<Rightarrow> Worker \<Rightarrow> 'z" where
  "register_address_with_zk fw z w = cf_setData fw (wk_nodepath w) (wk_full_address w) z"

definition run_server :: "Worker \<Rightarrow> Worker" where
  "run_server w = w\<lparr>wk_server := True\<rparr>"

text \<open>The address \<^verbatim>\<open>MapReduceServiceImpl::RunServer\<close> listens on.\<close>

definition listen_address :: "Worker \<Rightarrow> string" where
  "listen_address w = wk_ip w @ '':'' @ to_string (wk_port w)"

text \<open>\<^verbatim>\<open>Worker::run\<close> up to the event loop of the service.\<close>

definition worker_run :: "'z Conservator \<Rightarrow> bool \<Rightarrow> string \<Rightarrow> 'z \<Rightarrow> Worker \<Rightarrow> ('z \<times> Worker) result" where
  "worker_run fw local_build pod_ip z w =
     (let (z1, w1) = worker_register_with_zk fw z (connect_to_zk w)
      in rbind (set_address_info local_build pod_ip w1) (\<lambda>w2.
           Inr (register_address_with_zk fw z1 w2, run_server w2)))"

section \<open>A master starts\<close>

text \<open>\<^verbatim>\<open>Master::run\<close> up to \<^verbatim>\<open>wait_until_leader\<close>, whose steps are in
  \<^verbatim>\<open>Election\<close>.\<close>

definition init_zk_framework :: "Master \<Rightarrow> Master" where
  "init_zk_framework m = m\<lparr>m_framework_open := True\<rparr>"

definition master_run ::
    "'z Conservator \<Rightarrow> (client_ptr \<Rightarrow> PingStatus) \<Rightarrow> bool \<Rightarrow> string \<Rightarrow> string \<Rightarrow> 'z \<Rightarrow> Master \<Rightarrow> 'z wait_state result" where
  "master_run fw garbage local_build pod_ip conn z m =
     (let m1 = create_connection conn
                 (init_zk_framework (m\<lparr>m_address := getSrvAddress local_build pod_ip @ '':5050''\<rparr>));
          (z1, m2) = register_with_zk fw z m1;
          (z2, r) = update_workers fw garbage z1 m2
      in rbind r (\<lambda>m3. Inr (start_waiting fw z2 m3)))"

text \<open>\<^verbatim>\<open>main\<close> of both programs up to these points, in an environment \<open>env\<close>: a string made of the null
  pointer that \<^verbatim>\<open>std::getenv\<close> returns for an unset variable is undefined behaviour. \<open>connect\<close> is the
  ZooKeeper client of the library for an address.\<close>

definition getenv :: "bool \<Rightarrow> (string \<rightharpoonup> string) \<Rightarrow> string \<Rightarrow> string result" where
  "getenv local_build env x =
     (if local_build then Inr [] else case env x of None \<Rightarrow> Inl UndefinedBehaviour | Some v \<Rightarrow> Inr v)"

definition worker_main ::
    "(string \<Rightarrow> 'z Conservator) \<Rightarrow> bool \<Rightarrow> (string \<rightharpoonup> string) \<Rightarrow> string list \<Rightarrow> local_files \<Rightarrow> 'z \<Rightarrow> ('z \<times> Worker) result" where
  "worker_main connect local_build env args files z =
     rbind (worker_fail_after args) (\<lambda>fail_after.
     rbind (getenv local_build env ''MY_POD_NAMESPACE'') (\<lambda>ns.
     rbind (getenv local_build env ''MY_POD_IP'') (\<lambda>pod_ip.
       worker_run (connect (worker_zkURL local_build ns)) local_build pod_ip z (new_Worker fail_after files))))"

definition master_main ::
    "(string \<Rightarrow> 'z Conservator) \<Rightarrow> (client_ptr \<Rightarrow> PingStatus) \<Rightarrow> bool \<Rightarrow> (string \<rightharpoonup> string) \<Rightarrow> string list \<Rightarrow>
     string \<Rightarrow> client_heap \<Rightarrow> 'z \<Rightarrow> 'z wait_state result" where
  "master_main connect garbage local_build env args conn h z =
     rbind (master_fail_after args) (\<lambda>fail_after.
     rbind (getenv local_build env ''MY_POD_IP'') (\<lambda>pod_ip.
     rbind (getenv local_build env ''MY_POD_NAMESPACE'') (\<lambda>ns.
       master_run (connect (master_zkURL local_build ns)) garbage local_build pod_ip conn z (new_Master fail_after h))))"

text \<open>\<^verbatim>\<open>run_as_leader\<close> after the front end is set up: the job of the previous leader, if it was
  replicated.\<close>

definition leader_work ::
    "'z Conservator \<Rightarrow> (client_ptr \<Rightarrow> PingStatus) \<Rightarrow> (client_ptr \<times> int \<times> string) next_event list \<Rightarrow>
     'z \<Rightarrow> Master \<Rightarrow> ('z \<times> map_state option result) option" where
  "leader_work fw garbage cq z m = (if m_bReplicated m then Some (processReplicatedData fw garbage cq z m) else None)"

section \<open>Properties\<close>

text \<open>
  The failure argument means what it is used for: a worker started with a positive number \<open>k\<close> has
  failed after \<open>n\<close> assigned tasks exactly when \<open>k \<le> n\<close>, and a worker started without an argument
  never fails.
\<close>

theorem failure_argument:
  assumes "0 < k" "k < 2 ^ 31"
  shows "(\<exists>f. worker_fail_after [to_string k] = Inr f \<and>
      (\<forall>n. wk_has_failed ((worker_check_fail ^^ n) (new_Worker f files)) \<longleftrightarrow> k \<le> int n)) \<and>
    (\<exists>f. worker_fail_after [] = Inr f \<and> (\<forall>n. (worker_check_fail ^^ n) (new_Worker f files) = new_Worker f files))"
  using assms worker_fail.fails_on_time [of "new_Worker k files"] stoi_to_string [of k]
    worker_fail.never_fails [of "new_Worker (- 1) files"]
  by (simp add: worker_fail_after_def new_Worker_def)

theorem failure_argument_witness:
  "wk_has_failed ((worker_check_fail ^^ 3) (new_Worker 3 Map.empty)) \<and>
   \<not> wk_has_failed ((worker_check_fail ^^ 2) (new_Worker 3 Map.empty))"
proof -
  obtain f where "worker_fail_after [to_string 3] = Inr f"
    "\<And>n. wk_has_failed ((worker_check_fail ^^ n) (new_Worker f Map.empty)) \<longleftrightarrow> 3 \<le> int n"
    using failure_argument [of 3 Map.empty] by auto
  moreover have "worker_fail_after [to_string 3] = Inr 3" by code_simp
  ultimately show ?thesis by simp
qed

text \<open>What the registry relies on: a read returns what was written, and creating \<^verbatim>\<open>/workers\<close>
  changes no data.\<close>

definition registry_zk :: "'z Conservator \<Rightarrow> bool" where
  "registry_zk fw \<longleftrightarrow>
     (\<forall>p x z. cf_getData fw p (cf_setData fw p x z) = x) \<and>
     (\<forall>p z. cf_getData fw p (snd (cf_create fw False False ''/workers'' [] z)) = cf_getData fw p z)"

lemma worker_run_address:
  assumes "worker_run fw local_build pod_ip z w = Inr (z', w')" "registry_zk fw"
  shows "cf_getData fw (wk_nodepath w') z' = listen_address w'" "wk_full_address w' = listen_address w'"
proof -
  obtain z1 w1 where r: "worker_register_with_zk fw z (connect_to_zk w) = (z1, w1)" by (metis surj_pair)
  obtain w2 where w2: "set_address_info local_build pod_ip w1 = Inr w2" "z' = register_address_with_zk fw z1 w2"
    "w' = run_server w2"
    using assms(1) r by (auto simp: worker_run_def rbind_Inr_iff)
  have a: "wk_full_address w2 = listen_address w2"
    using w2(1) by (auto simp: set_address_info_def rbind_Inr_iff Let_def listen_address_def)
  then show "wk_full_address w' = listen_address w'" by (simp add: w2(3) run_server_def listen_address_def)
  show "cf_getData fw (wk_nodepath w') z' = listen_address w'"
    using assms(2) a w2(2,3) by (simp add: registry_zk_def register_address_with_zk_def run_server_def listen_address_def)
qed

lemma client_of_worker:
  assumes "synchronised wrkrs get m m'" "x \<in> set wrkrs"
  shows "\<exists>p \<in> set (m_Clients m'). nodeid_of m' p = node_path x \<and>
    (p \<notin> set (m_Clients m) \<longrightarrow> client_stub (heap m' p) = get (node_path x))"
proof -
  have "node_path x \<in> nodeid_of m' ` set (m_Clients m')" using assms by (simp add: synchronised_def)
  then obtain p where p: "p \<in> set (m_Clients m')" "nodeid_of m' p = node_path x" by auto
  moreover have "client_stub (heap m' p) = get (node_path x)" if new: "p \<notin> set (m_Clients m)"
  proof -
    obtain g where "heap m' p = new_MapReduceClient (get (node_path x)) g"
      using assms(1) p new unfolding synchronised_def by (metis DiffI)
    then show ?thesis by (simp add: new_MapReduceClient_def)
  qed
  ultimately show ?thesis by blast
qed

text \<open>
  A worker that has started is called where it listens: when the worker has run its start-up and the
  master updates its registry afterwards, the new client of the worker's node has the address the
  worker's server listens on.
\<close>

theorem worker_found:
  assumes "worker_run fw local_build pod_ip z w = Inr (z1, w1)" "registry_zk fw"
    and "clients_wf m" "\<not> m_has_failed m" "z2 = snd (cf_create fw False False ''/workers'' [] z1)"
    and "cf_getChildren fw ''/workers'' z2 = Inr wrkrs" "\<forall>x \<in> set wrkrs. CHR ''/'' \<notin> set x"
    and "wk_nodepath w1 = node_path x" "x \<in> set wrkrs" "m_Clients m = []"
  shows "\<exists>m' p. update_workers fw garbage z1 m = (z2, Inr m') \<and> p \<in> set (m_Clients m') \<and>
    nodeid_of m' p = wk_nodepath w1 \<and> client_stub (heap m' p) = listen_address w1"
proof -
  obtain m' where m': "update_workers fw garbage z1 m = (z2, Inr m')" "synchronised wrkrs (\<lambda>p. cf_getData fw p z2) m m'"
    using update_workers_ok [OF assms(3-7)] by blast
  have "cf_getData fw (node_path x) z2 = listen_address w1"
    using worker_run_address(1) [OF assms(1,2)] assms(2,5,8) by (simp add: registry_zk_def)
  then show ?thesis using client_of_worker [OF m'(2) assms(9)] m'(1) assms(8,10) by auto
qed


text \<open>Both programs start exactly when the argument is a number and the environment names the pod, and they use the
  same ZooKeeper.\<close>

lemma main_needs_environment:
  assumes "env ''MY_POD_NAMESPACE'' = None \<or> env ''MY_POD_IP'' = None"
  shows "worker_main connect False env [] files z = Inl UndefinedBehaviour"
    "master_main connect garbage False env [] conn h z = Inl UndefinedBehaviour"
  using assms by (auto simp: worker_main_def master_main_def worker_fail_after_def master_fail_after_def getenv_def
      split: option.splits)

lemma worker_main_runs:
  assumes "worker_main connect local_build env args files z = Inr (z', w)"
  obtains f ns ip where "worker_fail_after args = Inr f" "getenv local_build env ''MY_POD_NAMESPACE'' = Inr ns"
    "getenv local_build env ''MY_POD_IP'' = Inr ip"
    "worker_run (connect (master_zkURL local_build ns)) local_build ip z (new_Worker f files) = Inr (z', w)"
  using assms by (auto simp: worker_main_def rbind_Inr_iff worker_zkURL_def master_zkURL_def)

text \<open>The get watcher sets its watch again only when the node is gone; it is not registered anywhere.\<close>

lemma get_watcher_inverted: "cf_checkExists fw path z = ZOK \<Longrightarrow> \<not> get_watcher_fn fw path z"
  by (simp add: get_watcher_fn_def ZOK_def)

section \<open>Demonstration\<close>

text \<open>The ZooKeeper of \<open>demo_zk\<close>, with writes that take effect, and one worker that starts.\<close>

definition demo_registry :: "(string \<times> string) list Conservator" where
  "demo_registry = demo_zk\<lparr>cf_setData := (\<lambda>p d z. (p, d) # filter (\<lambda>(q, e). q \<noteq> p) z)\<rparr>"

definition demo_started :: Worker where
  "demo_started = run_server ((connect_to_zk (new_Worker (- 1) Map.empty))\<lparr>wk_nodepath := ''/workers/worker_'',
     wk_ip := ''10.0.0.7'', wk_port := 50051, wk_full_address := ''10.0.0.7:'' @ to_string 50051\<rparr>)"

definition demo_node :: "(string \<times> string) list" where
  "demo_node = [(''/workers'', []), (''/workers/worker_'', [])]"

definition demo_nodes :: "(string \<times> string) list" where
  "demo_nodes = [(''/workers/worker_'', ''10.0.0.7:'' @ to_string 50051), (''/workers'', [])]"

abbreviation demo_new_master :: Master where
  "demo_new_master \<equiv> new_Master 0 (\<lambda>_. new_MapReduceClient [] PING_FAIL)"

lemma demo_registry_zk: "registry_zk demo_registry"
  by (auto simp: registry_zk_def demo_registry_def demo_zk_def map_add_def split: option.splits)

lemma demo_worker_register:
  "worker_register_with_zk demo_registry [] (connect_to_zk (new_Worker (- 1) Map.empty)) =
    (demo_node, (connect_to_zk (new_Worker (- 1) Map.empty))\<lparr>wk_nodepath := ''/workers/worker_''\<rparr>)"
  by (simp add: worker_register_with_zk_def demo_registry_def demo_zk_def demo_node_def)

lemma demo_worker_run:
  "worker_run demo_registry False ''10.0.0.7'' [] (new_Worker (- 1) Map.empty) = Inr (demo_nodes, demo_started)"
  unfolding worker_run_def demo_worker_register
  by (simp add: set_address_info_def register_address_with_zk_def demo_registry_def demo_node_def demo_nodes_def
      demo_started_def run_server_def)

lemma demo_registry_facts:
  "clients_wf demo_new_master" "\<not> m_has_failed demo_new_master" "m_Clients demo_new_master = []"
  "snd (cf_create demo_registry False False ''/workers'' [] demo_nodes) = demo_nodes"
  "snd (cf_create demo_registry False False ''/workers'' [] demo_node) = demo_node"
  "cf_getChildren demo_registry ''/workers'' demo_nodes = Inr [''worker_'']"
  "cf_getChildren demo_registry ''/workers'' demo_node = Inr [''worker_'']"
  "cf_getData demo_registry (node_path ''worker_'') demo_node = []"
  "listen_address demo_started = ''10.0.0.7:'' @ to_string 50051" "wk_nodepath demo_started = node_path ''worker_''"
  by (rule new_Master_wf) (simp_all add: new_Master_def demo_registry_def demo_zk_def demo_nodes_def demo_node_def node_path_def
      listen_address_def demo_started_def run_server_def)

theorem worker_found_witness:
  "\<exists>m' p. update_workers demo_registry (\<lambda>_. PING_FAIL) demo_nodes demo_new_master = (demo_nodes, Inr m') \<and>
     p \<in> set (m_Clients m') \<and> client_stub (heap m' p) = ''10.0.0.7:'' @ to_string 50051"
proof -
  have "\<exists>m' p. update_workers demo_registry (\<lambda>_. PING_FAIL) demo_nodes demo_new_master = (demo_nodes, Inr m') \<and>
     p \<in> set (m_Clients m') \<and> nodeid_of m' p = wk_nodepath demo_started \<and>
     client_stub (heap m' p) = listen_address demo_started"
    by (rule worker_found [OF demo_worker_run demo_registry_zk demo_registry_facts(1,2) demo_registry_facts(4) [symmetric]
          demo_registry_facts(6) _ demo_registry_facts(10)]) (simp_all add: demo_registry_facts(3))
  then show ?thesis using demo_registry_facts(9) by auto
qed


end
