(* ===== verification/Handshake.thy ===== *)
theory Handshake
  imports Startup
begin

text \<open>
  The address exchange that opens every job: \<^verbatim>\<open>get_worker_addresses\<close> of
  \<^verbatim>\<open>w7/src/master/masterimpl.cc\<close> calls \<^verbatim>\<open>ExchangeInfo\<close> of \<^verbatim>\<open>mrclient.h\<close> for every client,
  and the workers behind the clients' channels answer with \<open>exchange_do_work\<close>. The network is a map from
  addresses to the workers that listen there; a call may also fail on its way. The same for the pings.
\<close>

section \<open>The code\<close>

record MasterInfo =
  xi_name :: string
  xi_connectionstring :: string
  xi_containername :: string

record AsyncClientExchangeCall =
  ec_query :: MasterInfo
  ec_client :: client_ptr

record AsyncClientPingCall =
  pg_address :: string
  pg_client :: client_ptr

text \<open>Both methods put a call object into the completion queue.\<close>

definition client_ExchangeInfo ::
    "client_ptr \<Rightarrow> string \<Rightarrow> string \<Rightarrow> string \<Rightarrow> AsyncClientExchangeCall list \<Rightarrow> AsyncClientExchangeCall list" where
  "client_ExchangeInfo p myAddress connString containername cq =
     cq @ [\<lparr>ec_query = \<lparr>xi_name = myAddress, xi_connectionstring = connString, xi_containername = containername\<rparr>,
            ec_client = p\<rparr>]"

definition check_liveness :: "client_heap \<Rightarrow> client_ptr \<Rightarrow> AsyncClientPingCall list \<Rightarrow> AsyncClientPingCall list" where
  "check_liveness h p cq = cq @ [\<lparr>pg_address = client_address (h p), pg_client = p\<rparr>]"

text \<open>The loops over the clients in \<^verbatim>\<open>get_worker_addresses\<close> and \<^verbatim>\<open>ping_workers\<close>.\<close>

definition send_exchanges :: "Master \<Rightarrow> AsyncClientExchangeCall list" where
  "send_exchanges m =
     fold (\<lambda>(p, info). client_ExchangeInfo p (m_address m) (m_connection m) (m_containername m)) (m_ClientMap m) []"

definition send_pings :: "Master \<Rightarrow> client_heap \<times> AsyncClientPingCall list" where
  "send_pings m =
     fold (\<lambda>p (h, cq). let h' = setPingStatus p PING_CHECK h in (h', check_liveness h' p cq)) (m_Clients m) (heap m, [])"

lemma send_exchanges_eq:
  "send_exchanges m =
     map (\<lambda>p. \<lparr>ec_query = \<lparr>xi_name = m_address m, xi_connectionstring = m_connection m,
                            xi_containername = m_containername m\<rparr>, ec_client = p\<rparr>) (map fst (m_ClientMap m))"
proof -
  have "fold (\<lambda>(p, info). client_ExchangeInfo p a b c) ps cq =
      cq @ map (\<lambda>p. \<lparr>ec_query = \<lparr>xi_name = a, xi_connectionstring = b, xi_containername = c\<rparr>, ec_client = p\<rparr>) (map fst ps)"
    for a b c and ps :: "(client_ptr \<times> ClientInfo) list" and cq
    by (induction ps arbitrary: cq) (auto simp: client_ExchangeInfo_def)
  then show ?thesis by (simp add: send_exchanges_def)
qed

lemma send_pings_eq:
  "map pg_client (snd (send_pings m)) = m_Clients m"
  "fst (send_pings m) = fold (\<lambda>p. setPingStatus p PING_CHECK) (m_Clients m) (heap m)"
proof -
  have "map pg_client (snd (fold (\<lambda>p (h, cq). let h' = setPingStatus p PING_CHECK h in (h', check_liveness h' p cq)) ps (h, cq))) =
      map pg_client cq @ ps \<and>
    fst (fold (\<lambda>p (h, cq). let h' = setPingStatus p PING_CHECK h in (h', check_liveness h' p cq)) ps (h, cq)) =
      fold (\<lambda>p. setPingStatus p PING_CHECK) ps h" for ps h cq
    by (induction ps arbitrary: h cq) (simp_all add: check_liveness_def Let_def)
  then show "map pg_client (snd (send_pings m)) = m_Clients m"
    "fst (send_pings m) = fold (\<lambda>p. setPingStatus p PING_CHECK) (m_Clients m) (heap m)"
    by (simp_all add: send_pings_def)
qed

section \<open>The workers\<close>

type_synonym network = "string \<rightharpoonup> Worker"

text \<open>The worker a call reaches: \<open>fails p\<close> is the status of a call that does not get through.\<close>

definition serve_exchange ::
    "(client_ptr \<Rightarrow> int option) \<Rightarrow> client_heap \<Rightarrow> AsyncClientExchangeCall \<Rightarrow> network \<Rightarrow>
     network \<times> client_ptr \<times> int \<times> string" where
  "serve_exchange fails h c net =
     (let p = ec_client c; a = client_stub (h p) in
      case (fails p, net a) of
        (None, Some w) \<Rightarrow>
          (let (w', message) = exchange_do_work (xi_containername (ec_query c)) w in (net(a \<mapsto> w'), p, 0, message))
      | (Some code, _) \<Rightarrow> (net, p, code, [])
      | (None, None) \<Rightarrow> (net, p, 14, []))"

fun serve_exchanges ::
    "(client_ptr \<Rightarrow> int option) \<Rightarrow> client_heap \<Rightarrow> AsyncClientExchangeCall list \<Rightarrow> network \<Rightarrow>
     network \<times> (client_ptr \<times> int \<times> string) list" where
  "serve_exchanges fails h [] net = (net, [])"
| "serve_exchanges fails h (c # cs) net =
     (let (net1, answer) = serve_exchange fails h c net; (net2, answers) = serve_exchanges fails h cs net1
      in (net2, answer # answers))"

definition reached :: "(client_ptr \<Rightarrow> int option) \<Rightarrow> client_heap \<Rightarrow> network \<Rightarrow> client_ptr \<Rightarrow> bool" where
  "reached fails h net p \<longleftrightarrow> fails p = None \<and> net (client_stub (h p)) \<noteq> None"

text \<open>The workers listen at their own addresses and are between tasks; calls that fail have a code.\<close>

definition listening :: "network \<Rightarrow> bool" where
  "listening net \<longleftrightarrow> (\<forall>a w. net a = Some w \<longrightarrow> wk_full_address w = a \<and> wk_inter_files w = [] \<and> wk_files w [] = None)"

definition connected :: "string \<Rightarrow> network \<Rightarrow> string \<Rightarrow> bool" where
  "connected container net a \<longleftrightarrow>
     (\<exists>w. net a = Some w \<and> worker_ready (new_WorkerDBConnection container) a w)"

definition exchange_answer ::
    "(client_ptr \<Rightarrow> int option) \<Rightarrow> client_heap \<Rightarrow> network \<Rightarrow> client_ptr \<Rightarrow> client_ptr \<times> int \<times> string" where
  "exchange_answer fails h net p =
     (if reached fails h net p then (p, 0, client_stub (h p))
      else (p, case fails p of Some code \<Rightarrow> code | None \<Rightarrow> 14, []))"

lemma serve_exchange_cases:
  assumes "listening net" "xi_containername (ec_query c) = container" "serve_exchange fails h c net = (net', answer)"
  shows "answer = exchange_answer fails h net (ec_client c)" "listening net'" "dom net' = dom net"
    "connected container net a \<Longrightarrow> connected container net' a"
    "reached fails h net (ec_client c) \<Longrightarrow> connected container net' (client_stub (h (ec_client c)))"
  using assms
  by (auto simp: serve_exchange_def exchange_answer_def reached_def listening_def connected_def exchange_do_work_def
      worker_create_connection_def worker_ready_def new_WorkerDBConnection_def Let_def split: option.splits if_splits)

lemma serve_exchanges_all:
  assumes "listening net" "\<forall>c \<in> set cs. xi_containername (ec_query c) = container"
    and "serve_exchanges fails h cs net = (net', answers)"
  shows "answers = map (\<lambda>c. exchange_answer fails h net (ec_client c)) cs \<and> dom net' = dom net \<and>
    (\<forall>a. connected container net a \<longrightarrow> connected container net' a) \<and>
    (\<forall>c \<in> set cs. reached fails h net (ec_client c) \<longrightarrow> connected container net' (client_stub (h (ec_client c))))"
  using assms
proof (induction cs arbitrary: net net' answers)
  case (Cons c cs)
  obtain net1 answer where one: "serve_exchange fails h c net = (net1, answer)" by (metis surj_pair)
  obtain net2 rest where more: "serve_exchanges fails h cs net1 = (net2, rest)" by (metis surj_pair)
  have k: "xi_containername (ec_query c) = container" using Cons.prems(2) by simp
  note s = serve_exchange_cases [OF Cons.prems(1) k one]
  note IH = Cons.IH [OF s(2) _ more]
  have "reached fails h net1 p = reached fails h net p" for p using s(3) by (auto simp: reached_def dom_def set_eq_iff)
  moreover from this have "exchange_answer fails h net1 p = exchange_answer fails h net p" for p
    by (simp add: exchange_answer_def)
  ultimately show ?case using IH s Cons.prems one more by auto
qed simp

section \<open>After the exchange\<close>

text \<open>What the master holds of a client after the exchange.\<close>

definition answered :: "(client_ptr \<Rightarrow> int option) \<Rightarrow> Master \<Rightarrow> network \<Rightarrow> Master \<Rightarrow> network \<Rightarrow> client_ptr \<Rightarrow> bool" where
  "answered fails m net m' net' p \<longleftrightarrow>
     (let a = client_stub (heap m p) in
      if reached fails (heap m) net p
      then healthy (heap m') p \<and> client_address (heap m' p) = a \<and> connected (m_containername m) net' a
      else \<not> healthy (heap m') p \<and> client_address (heap m' p) = client_address (heap m p) \<and>
           clientStatus (heap m' p) = (if fails p = Some 4 then DEADLINE_EXCEED else BROKEN))"

lemma exchange_answered:
  assumes "clients_wf m" "listening net" "\<forall>p. fails p \<noteq> Some 0"
    and "mset calls = mset (send_exchanges m)"
    and "serve_exchanges fails (heap m) calls net = (net', answers)"
  shows "\<exists>m'. get_worker_addresses (map NextCall answers) m = Some m' \<and> registry_only m m' \<and>
    m_Clients m' = m_Clients m \<and> m_ClientMap m' = m_ClientMap m \<and>
    (\<forall>p \<in> set (m_Clients m). answered fails m net m' net' p)"
proof -
  have cs: "mset (map ec_client calls) = mset (map fst (m_ClientMap m))"
    using arg_cong [OF assms(4), of "image_mset ec_client"] by (simp add: send_exchanges_eq multiset.map_comp comp_def)
  have len: "length calls = length (m_ClientMap m)" using mset_eq_length [OF cs] by simp
  have keys: "distinct (map fst (m_ClientMap m))"
    using assms(1) by (auto simp: clients_wf_def map_wf_def strict_sorted_iff)
  have clients: "ec_client ` set calls = set (m_Clients m)"
    using mset_eq_setD [OF cs] assms(1) by (simp add: clients_wf_def)
  have "\<forall>c \<in> set calls. xi_containername (ec_query c) = m_containername m"
    using mset_eq_setD [OF assms(4)] by (auto simp: send_exchanges_eq)
  note all = serve_exchanges_all [OF assms(2) this assms(5)]
  have ans: "answers = map (exchange_answer fails (heap m) net) (map ec_client calls)"
    using all by (simp add: comp_def)
  have fst_ans: "map fst answers = map ec_client calls" unfolding ans by (auto simp: exchange_answer_def)
  have d: "distinct (map fst answers)" unfolding fst_ans using keys mset_eq_imp_distinct_iff [OF cs] by simp
  obtain h where loop: "completion_loop complete_exchange (length answers) (map NextCall answers) (heap m) = Some h"
    using exchange.loop_returns [of "length answers" answers "heap m"] by auto
  have "answered fails m net (m\<lparr>heap := h\<rparr>) net' p" if p: "p \<in> set (m_Clients m)" for p
  proof -
    from p clients obtain c where c: "c \<in> set calls" "ec_client c = p" by (metis imageE)
    let ?a = "exchange_answer fails (heap m) net p"
    have "?a \<in> set answers" using c by (auto simp: ans)
    then have "h (fst ?a) = complete_exchange ?a (heap m) (fst ?a)" using exchange.loop_each [OF loop d] by blast
    moreover have "connected (m_containername m) net' (client_stub (heap m p))" if "reached fails (heap m) net p"
      using all c that by auto
    ultimately show ?thesis
      using assms(3) [rule_format, of p]
      by (auto simp: answered_def exchange_answer_def complete_exchange_def healthy_def cpp_defs split: option.splits)
  qed
  moreover have "get_worker_addresses (map NextCall answers) m = Some (m\<lparr>heap := h\<rparr>)"
    using loop len all by (simp add: get_worker_addresses_def AsyncCompleteExchangeRpc_def)
  ultimately show ?thesis by (auto simp: registry_only_def other_fields_def)
qed



text \<open>A ping round against the same workers: whoever answers is the health the dispatchers read.\<close>

definition serve_ping :: "(client_ptr \<Rightarrow> int option) \<Rightarrow> client_heap \<Rightarrow> network \<Rightarrow> AsyncClientPingCall \<Rightarrow> client_ptr \<times> int" where
  "serve_ping fails h net c =
     (let p = pg_client c in
      (p, if reached fails h net p then 0 else case fails p of Some code \<Rightarrow> code | None \<Rightarrow> 14))"

theorem pings_find_live:
  assumes "distinct (m_Clients m)" "\<forall>p. fails p \<noteq> Some 0" "mset calls = mset (snd (send_pings m))"
  shows "\<exists>m'. ping_workers (map NextCall (map (serve_ping fails (heap m) net) calls)) m = Some m' \<and> g_ready m' \<and>
    (\<forall>p \<in> set (m_Clients m). healthy (heap m') p \<longleftrightarrow> reached fails (heap m) net p)"
proof -
  let ?answers = "map (serve_ping fails (heap m) net) calls"
  have cs: "mset (map fst ?answers) = mset (m_Clients m)"
    using arg_cong [OF assms(3), of "image_mset pg_client"] send_pings_eq(1) [of m]
    by (simp add: serve_ping_def Let_def multiset.map_comp comp_def flip: mset_map)
  from ping_round [OF assms(1) _ mset_eq_setD [OF cs]] mset_eq_imp_distinct_iff [OF cs] assms(1)
  obtain m' where m': "ping_workers (map NextCall ?answers) m = Some m'" "g_ready m'"
    "\<forall>(p, code) \<in> set ?answers. healthy (heap m') p \<longleftrightarrow> code = 0"
    by fastforce
  have "healthy (heap m') p \<longleftrightarrow> reached fails (heap m) net p" if "p \<in> set (m_Clients m)" for p
  proof -
    have "p \<in> fst ` set ?answers" using that mset_eq_setD [OF cs] by (simp add: image_image)
    then obtain c where "c \<in> set calls" "p = pg_client c" by (auto simp: serve_ping_def Let_def)
    then have "healthy (heap m') p \<longleftrightarrow> snd (serve_ping fails (heap m) net c) = 0"
      using bspec [OF m'(3), of "serve_ping fails (heap m) net c"] by (simp add: serve_ping_def Let_def)
    with \<open>p = pg_client c\<close> show ?thesis
      using assms(2) [rule_format, of p] by (auto simp: serve_ping_def Let_def split: option.splits)
  qed
  with m' show ?thesis by blast
qed

text \<open>Two clients, one worker: the call to the other one times out, and the answers come in the other order.\<close>

definition demo_clients :: Master where
  "demo_clients = (new_Master 0 (\<lambda>p. new_MapReduceClient (if p = ClientPtr 0 then ''w:1'' else ''w:2'') PING_FAIL))
     \<lparr>m_containername := ''books'', m_Clients := [ClientPtr 0, ClientPtr 1], heap_next := 2,
      m_ClientMap := [(ClientPtr 0, new_ClientInfo ''w:1'' (node_path ''a'')), (ClientPtr 1, new_ClientInfo ''w:2'' (node_path ''b''))]\<rparr>"

definition demo_network :: network where
  "demo_network = [''w:1'' \<mapsto> (new_Worker 0 Map.empty)\<lparr>wk_full_address := ''w:1''\<rparr>]"

lemma demo_clients_ready: "clients_wf demo_clients" "listening demo_network"
  by (auto simp: clients_wf_def demo_clients_def new_Master_def map_wf_def nodeid_of_def new_ClientInfo_def node_path_def
      less_client_ptr_def less_eq_client_ptr_def listening_def demo_network_def new_Worker_def split: if_splits)


text \<open>The worker of \<open>demo_started\<close>, started by its program, alone in the network.\<close>

definition demo_env :: "string \<rightharpoonup> string" where
  "demo_env = [''MY_POD_NAMESPACE'' \<mapsto> ''mr'', ''MY_POD_IP'' \<mapsto> ''10.0.0.7'']"

definition demo_pods :: network where
  "demo_pods = [listen_address demo_started \<mapsto> demo_started]"

lemma demo_main:
  "worker_main (\<lambda>_. demo_registry) False demo_env [] Map.empty [] = Inr (demo_nodes, demo_started)"
  "getenv False demo_env ''MY_POD_NAMESPACE'' = Inr ''mr''" "listening demo_pods"
  "demo_pods (listen_address demo_started) = Some demo_started"
  using demo_worker_run
  by (simp_all add: worker_main_def worker_fail_after_def getenv_def demo_env_def listening_def demo_pods_def
      demo_started_def run_server_def listen_address_def connect_to_zk_def new_Worker_def)


end
