(* ===== verification/Connections.thy ===== *)
theory Connections
  imports RequestHandler Handshake
begin

text \<open>
  The storage connections: \<^verbatim>\<open>DBConnection\<close> of the master (\<^verbatim>\<open>w7/src/master/dbconn.h\<close>) and
  \<^verbatim>\<open>WorkerDBConnection\<close> of a worker (\<^verbatim>\<open>w7/src/worker/worker.h\<close>), with the exceptions their
  constructors swallow. The Azure client is a parameter. The theories of the master and of the worker keep of a
  connection only the names it works with; the lemmas say when that is all there is to it.
\<close>

section \<open>The code\<close>

text \<open>What is used of the client: parsing a connection string, the blob client of an account (which may be one
  that was never parsed), \<^verbatim>\<open>create_if_not_exists\<close> on a container, an upload to a container (which may be one
  that was never assigned), and whether a container exists. The operations may throw.\<close>

record 'b Azure =
  az_parse :: "string \<Rightarrow> unit result"
  az_client :: "bool \<Rightarrow> unit result"
  az_create :: "string \<Rightarrow> 'b \<Rightarrow> 'b result"
  az_upload :: "string option \<Rightarrow> string \<Rightarrow> string \<Rightarrow> 'b \<Rightarrow> 'b result"
  az_exists :: "string \<Rightarrow> 'b \<Rightarrow> bool"

text \<open>The master: \<open>dc_account\<close> says whether \<^verbatim>\<open>m_account\<close> was assigned.\<close>

record DBConnection =
  dc_connection :: string
  dc_account :: bool
  dc_container :: "string option"

definition db_init :: "'b Azure \<Rightarrow> DBConnection \<Rightarrow> DBConnection" where
  "db_init az d =
     (case az_parse az (dc_connection d) of Inl e \<Rightarrow> d | Inr _ \<Rightarrow> d\<lparr>dc_account := True\<rparr>)"

definition new_DBConnection :: "'b Azure \<Rightarrow> string \<Rightarrow> DBConnection" where
  "new_DBConnection az conn = db_init az \<lparr>dc_connection = conn, dc_account = False, dc_container = None\<rparr>"

definition db_create_container :: "'b Azure \<Rightarrow> string \<Rightarrow> DBConnection \<times> 'b \<Rightarrow> (DBConnection \<times> 'b) result" where
  "db_create_container az container db =
     rbind (az_client az (dc_account (fst db))) (\<lambda>_.
       let d = (fst db)\<lparr>dc_container := Some container\<rparr>
       in rbind (az_create az container (snd db)) (\<lambda>b. Inr (d, b)))"

text \<open>\<^verbatim>\<open>add_blob\<close>, which is not called: a missing local file makes opening the stream throw.\<close>

definition add_blob :: "'b Azure \<Rightarrow> string \<Rightarrow> local_files \<Rightarrow> DBConnection \<times> 'b \<Rightarrow> (DBConnection \<times> 'b) result" where
  "add_blob az input_file files db =
     (case files input_file of
        None \<Rightarrow> Inl StorageException
      | Some content \<Rightarrow>
          rbind (az_upload az (dc_container (fst db)) input_file content (snd db)) (\<lambda>b. Inr (fst db, b)))"

text \<open>\<^verbatim>\<open>Master::create_container\<close> with the connection object it calls.\<close>

definition master_create_container ::
    "'b Azure \<Rightarrow> string \<Rightarrow> DBConnection option \<times> 'b \<Rightarrow> Master \<Rightarrow> (Master \<times> DBConnection \<times> 'b) result" where
  "master_create_container az container db m =
     (let m' = m\<lparr>m_containername := container\<rparr> in
      case fst db of
        None \<Rightarrow> Inl UndefinedBehaviour
      | Some d \<Rightarrow> rbind (db_create_container az container (d, snd db)) (\<lambda>(d', b). Inr (m', d', b)))"

text \<open>The worker. A container is a name once it was referenced.\<close>

record worker_connection =
  wc_connection :: string
  wc_mstrcontainername :: string
  wc_wrkrcontainername :: string
  wc_blob_client :: bool
  wc_mstrcontainer :: "string option"
  wc_wrkrcontainer :: "string option"

definition worker_db_init :: "'b Azure \<Rightarrow> worker_connection \<times> 'b \<Rightarrow> worker_connection \<times> 'b" where
  "worker_db_init az cb =
     (let c = fst cb; b = snd cb; name = wc_mstrcontainername c in
      case az_parse az (wc_connection c) of Inl e \<Rightarrow> cb
      | Inr _ \<Rightarrow>
          (let c1 = c\<lparr>wc_blob_client := True, wc_mstrcontainer := Some name\<rparr> in
           case az_create az name b of Inl e \<Rightarrow> (c1, b)
           | Inr b1 \<Rightarrow>
               (let c2 = c1\<lparr>wc_wrkrcontainername := name @ ''int'', wc_wrkrcontainer := Some (name @ ''int'')\<rparr> in
                case az_create az (name @ ''int'') b1 of Inl e \<Rightarrow> (c2, b1) | Inr b2 \<Rightarrow> (c2, b2))))"

definition open_worker_connection :: "'b Azure \<Rightarrow> string \<Rightarrow> string \<Rightarrow> 'b \<Rightarrow> worker_connection \<times> 'b" where
  "open_worker_connection az conn name b =
     worker_db_init az
       (\<lparr>wc_connection = conn, wc_mstrcontainername = name, wc_wrkrcontainername = [], wc_blob_client = False,
         wc_mstrcontainer = None, wc_wrkrcontainer = None\<rparr>, b)"

text \<open>\<^verbatim>\<open>append_to_blob\<close>, the former way of storing intermediate files, and its loop: the worker's
  connection, uploads of local files under their names.\<close>

definition append_to_blob :: "'b Storage \<Rightarrow> WorkerDBConnection \<Rightarrow> int \<Rightarrow> local_files \<Rightarrow> 'b \<Rightarrow> 'b result" where
  "append_to_blob st db blob_id files b =
     (let outfile_name = ''int_'' @ to_string blob_id in
      case files outfile_name of
        None \<Rightarrow> Inl StorageException
      | Some content \<Rightarrow> st_upload st (db_wrkrcontainername db) outfile_name content b)"

definition append_intermediate_file_to_blob :: "'b Storage \<Rightarrow> Worker \<Rightarrow> 'b \<Rightarrow> 'b result" where
  "append_intermediate_file_to_blob st w b =
     (case wk_dbConnection w of
        None \<Rightarrow> if 0 < wk_nreducers w then Inl UndefinedBehaviour else Inr b
      | Some db \<Rightarrow>
          fold (\<lambda>i r. rbind r (append_to_blob st db i (wk_files w))) (reducer_indices (wk_nreducers w)) (Inr b))"

text \<open>\<^verbatim>\<open>ExchangeInfoCallData::do_work\<close> with the connection it opens.\<close>

definition names_of :: "worker_connection \<Rightarrow> WorkerDBConnection" where
  "names_of c = \<lparr>db_mstrcontainername = wc_mstrcontainername c, db_wrkrcontainername = wc_wrkrcontainername c\<rparr>"

definition exchange_opening :: "'b Azure \<Rightarrow> MasterInfo \<Rightarrow> Worker \<times> 'b \<Rightarrow> (Worker \<times> worker_connection \<times> 'b) \<times> string" where
  "exchange_opening az request wb =
     (let (c, b) = open_worker_connection az (xi_connectionstring request) (xi_containername request) (snd wb);
          w = (fst wb)\<lparr>wk_dbConnection := Some (names_of c)\<rparr>
      in ((w, c, b), wk_full_address w))"

section \<open>When the storage works\<close>

definition azure_works :: "'b Azure \<Rightarrow> string \<Rightarrow> bool" where
  "azure_works az conn \<longleftrightarrow>
     az_parse az conn = Inr () \<and> az_client az True = Inr () \<and>
     (\<forall>c b. \<exists>b'. az_create az c b = Inr b' \<and> az_exists az c b' \<and> (\<forall>c'. az_exists az c' b \<longrightarrow> az_exists az c' b'))"

lemma azure_worksE:
  assumes "azure_works az conn"
  obtains b' where "az_create az c b = Inr b'" "az_exists az c b'" "\<And>c'. az_exists az c' b \<Longrightarrow> az_exists az c' b'"
  using assms unfolding azure_works_def by blast

lemmas connection_defs = worker_db_init_def open_worker_connection_def names_of_def new_WorkerDBConnection_def Let_def

lemma exchange_opens:
  assumes "azure_works az (xi_connectionstring request)"
  shows "\<exists>c b'. exchange_opening az request (w, b) =
      ((fst (exchange_do_work (xi_containername request) w), c, b'), snd (exchange_do_work (xi_containername request) w)) \<and>
    wc_wrkrcontainer c = Some (wc_wrkrcontainername c) \<and>
    az_exists az (xi_containername request) b' \<and> az_exists az (xi_containername request @ ''int'') b'"
proof -
  let ?c = "xi_containername request"
  obtain b1 where b1: "az_create az ?c b = Inr b1" "az_exists az ?c b1" using azure_worksE [OF assms] by metis
  obtain b2 where b2: "az_create az (?c @ ''int'') b1 = Inr b2" "az_exists az (?c @ ''int'') b2"
    "az_exists az ?c b2"
    using azure_worksE [OF assms, of "?c @ ''int''" b1] b1(2) by metis
  show ?thesis using assms b1 b2
    by (simp add: exchange_opening_def exchange_do_work_def worker_create_connection_def connection_defs azure_works_def)
qed

text \<open>C31: The storage connections do what the rest of the development takes them for. When the connection string
  parses and the service creates containers, the constructor of the master's connection and \<^verbatim>\<open>create_container\<close> leave
  the container of the job in existence and the master in the state of \<open>create_container\<close>, and the exchange leaves
  the worker in the state of \<open>exchange_do_work\<close>, with its answer, and the containers it will read from and
  write to exist.\<close>

theorem connections_refine:
  assumes "azure_works az conn" "m_dbConnection m = Some conn" "xi_connectionstring request = conn"
  shows "(\<exists>m' d b'. create_container container m = Inr m' \<and>
      master_create_container az container (Some (new_DBConnection az conn), b) m = Inr (m', d, b') \<and>
      dc_container d = Some container \<and> az_exists az container b') \<and>
    (\<exists>w' c b'. exchange_do_work (xi_containername request) w = (w', wk_full_address w) \<and>
      exchange_opening az request (w, b) = ((w', c, b'), wk_full_address w) \<and>
      az_exists az (xi_containername request) b' \<and> az_exists az (xi_containername request @ ''int'') b')"
proof
  obtain b1 where b1: "az_create az container b = Inr b1" "az_exists az container b1"
    using azure_worksE [OF assms(1)] by metis
  then show "\<exists>m' d b'. create_container container m = Inr m' \<and>
      master_create_container az container (Some (new_DBConnection az conn), b) m = Inr (m', d, b') \<and>
      dc_container d = Some container \<and> az_exists az container b'"
    using assms(1,2) by (simp add: create_container_def master_create_container_def db_create_container_def
        new_DBConnection_def db_init_def azure_works_def Let_def)
  have "exchange_do_work k w = (fst (exchange_do_work k w), wk_full_address w)" for k
    by (simp add: exchange_do_work_def worker_create_connection_def)
  with exchange_opens [of az request w b] assms(1,3)
  show "\<exists>w' c b'. exchange_do_work (xi_containername request) w = (w', wk_full_address w) \<and>
      exchange_opening az request (w, b) = ((w', c, b'), wk_full_address w) \<and>
      az_exists az (xi_containername request) b' \<and> az_exists az (xi_containername request @ ''int'') b'"
    by (metis snd_conv)
qed

section \<open>When it does not\<close>

text \<open>C32: The exceptions of a connection do not reach the caller. Whatever the storage service does, a worker
  answers the exchange with its address, as if it were ready; but its connection has a container for intermediate
  results exactly when the connection string parsed and the container of the job could be created, and the name it would report
  for its results is empty otherwise. The constructor of the master's connection returns as well, with an account
  exactly when the string parsed.\<close>

theorem connection_errors_hidden:
  assumes "exchange_opening az request (w, b) = ((w', c, b'), answer)"
  shows "answer = wk_full_address w \<and> wk_dbConnection w' = Some (names_of c) \<and>
     wc_mstrcontainername c = xi_containername request \<and>
     (if (\<exists>u. az_parse az (xi_connectionstring request) = Inr u) \<and> (\<exists>b1. az_create az (xi_containername request) b = Inr b1)
      then wc_wrkrcontainer c = Some (xi_containername request @ ''int'') \<and> names_of c = new_WorkerDBConnection (xi_containername request)
      else wc_wrkrcontainer c = None \<and> db_wrkrcontainername (names_of c) = [] \<and> b' = b) \<and>
   dc_connection (new_DBConnection az conn) = conn \<and>
   (dc_account (new_DBConnection az conn) \<longleftrightarrow> (\<exists>u. az_parse az conn = Inr u))"
  using assms by (auto simp: exchange_opening_def connection_defs new_DBConnection_def db_init_def split: sum.splits)

text \<open>The former way of storing intermediate files looks for names that the worker no longer creates.\<close>

lemma int_name_new: "int_name a sid spid i \<noteq> ''int_'' @ to_string k"
proof
  assume "int_name a sid spid i = ''int_'' @ to_string k"
  then have "to_string k = a @ ''_'' @ to_string sid @ ''_'' @ to_string spid @ ''_'' @ to_string i"
    by (simp add: int_name_def)
  then have "CHR ''_'' \<in> set (to_string k)" by simp
  then show False by simp
qed

lemma append_fails:
  assumes "0 < wk_nreducers w" "\<forall>i. wk_files w (''int_'' @ to_string i) = None" "wk_dbConnection w = Some db"
  shows "append_intermediate_file_to_blob st (create_r_intermediate_files sid spid w) b = Inl StorageException"
proof -
  let ?w = "create_r_intermediate_files sid spid w"
  have files: "wk_files ?w (''int_'' @ to_string i) = None" for i
    using assms(2) int_name_new [symmetric] by (simp add: create_r_intermediate_files_eq set_piece_names)
  have keep: "fold (\<lambda>i r. rbind r (append_to_blob st db i fs)) is (Inl e) = Inl e" for fs e "is"
    by (induction "is") simp_all
  have "reducer_indices (wk_nreducers w) = 0 # map int [1..<nat (wk_nreducers w)]"
    unfolding reducer_indices_def using assms(1) by (simp add: upt_conv_Cons)
  then show ?thesis using assms(3) files keep
    by (simp add: append_intermediate_file_to_blob_def append_to_blob_def create_r_intermediate_files_eq Let_def)
qed

section \<open>Demonstration\<close>

text \<open>A service that knows one connection string and creates every container.\<close>

definition demo_azure :: "string list Azure" where
  "demo_azure = \<lparr>az_parse = (\<lambda>s. if s = ''key'' then Inr () else Inl StorageException), az_client = (\<lambda>_. Inr ()),
     az_create = (\<lambda>c b. Inr (c # b)), az_upload = (\<lambda>_ _ _ b. Inr b), az_exists = (\<lambda>c b. c \<in> set b)\<rparr>"

abbreviation demo_info :: "string \<Rightarrow> MasterInfo" where
  "demo_info conn \<equiv> \<lparr>xi_name = ''m:1'', xi_connectionstring = conn, xi_containername = ''books''\<rparr>"

lemma demo_azure_works: "azure_works demo_azure ''key''"
  by (auto simp: azure_works_def demo_azure_def)

theorem connections_refine_witness:
  "(\<exists>m' d b'. master_create_container demo_azure ''books'' (Some (new_DBConnection demo_azure ''key''), [])
       (demo_live_leader\<lparr>m_dbConnection := Some ''key''\<rparr>) = Inr (m', d, b') \<and> ''books'' \<in> set b') \<and>
   (\<exists>w' c b'. exchange_opening demo_azure (demo_info ''key'') (demo_worker, []) = ((w', c, b'), ''w:1'') \<and>
      ''booksint'' \<in> set b')"
  using connections_refine [OF demo_azure_works, of "demo_live_leader\<lparr>m_dbConnection := Some ''key''\<rparr>"
      "demo_info ''key''" "''books''" "[]" demo_worker]
  by (auto simp: demo_azure_def demo_worker_def worker_create_connection_def)

theorem connection_errors_hidden_witness:
  "\<exists>w' c b'. exchange_opening demo_azure (demo_info ''wrong'') (demo_worker, []) = ((w', c, b'), ''w:1'') \<and>
     wc_wrkrcontainer c = None \<and> b' = []"
proof -
  obtain w' c b' answer where e: "exchange_opening demo_azure (demo_info ''wrong'') (demo_worker, []) = ((w', c, b'), answer)"
    by (metis surj_pair)
  from connection_errors_hidden [OF e] e
  show ?thesis by (auto simp: demo_azure_def demo_worker_def worker_create_connection_def split: if_splits)
qed

end
