(* ===== verification/WorkerServer.thy ===== *)
theory WorkerServer
  imports WorkerService
begin

text \<open>
  The worker's event loop with the work in it: the \<^verbatim>\<open>HandleRequest\<close> of the four kinds of calls of
  \<^verbatim>\<open>w7/src/worker/mrservice.h\<close> on the state of the worker and of the storage, and the replies that
  are sent. One thread runs the loop, so a worker serves its requests one after the other; the theorems
  say so and that a worker that entered the fail state answers nothing any more.
\<close>

section \<open>The code\<close>

datatype rpc_request =
    ExchangeReq (exchange_container: string)
  | PingReq
  | MapReq MapperInput
  | ReduceReq ReducerInput

datatype rpc_reply =
    ExchangeReply string
  | PingReply
  | MapReply IntermediateResult
  | ReduceReply FinalResult

fun request_method :: "rpc_request \<Rightarrow> rpc_method" where
  "request_method (ExchangeReq c) = ExchangeInfo"
| "request_method PingReq = Ping"
| "request_method (MapReq r) = MapTask"
| "request_method (ReduceReq r) = ReduceTask"

fun reply_method :: "rpc_reply \<Rightarrow> rpc_method" where
  "reply_method (ExchangeReply a) = ExchangeInfo"
| "reply_method PingReply = Ping"
| "reply_method (MapReply r) = MapTask"
| "reply_method (ReduceReply r) = ReduceTask"

text \<open>What the handlers need from outside: the storage, the hash function and the two scripts.\<close>

record 'b services =
  sv_storage :: "'b Storage"
  sv_hash :: "string \<Rightarrow> size_t"
  sv_pymap :: "string \<Rightarrow> (string \<times> int) list option"
  sv_pyreduce :: "string \<Rightarrow> (string \<times> int) list option"

text \<open>\<^verbatim>\<open>HandleRequest\<close> of the four derived classes. No reply: the worker went to sleep in the
  fail state.\<close>

definition ExchangeInfo_HandleRequest :: "string \<Rightarrow> Worker \<times> 'b \<Rightarrow> (Worker \<times> 'b \<times> string option) result" where
  "ExchangeInfo_HandleRequest container wb =
     (let (w, address) = exchange_do_work container (fst wb) in Inr (w, snd wb, Some address))"

definition Ping_HandleRequest :: "Worker \<times> 'b \<Rightarrow> (Worker \<times> 'b \<times> unit option) result" where
  "Ping_HandleRequest wb = Inr (fst wb, snd wb, Some ())"

definition Map_HandleRequest ::
    "'b services \<Rightarrow> MapperInput \<Rightarrow> Worker \<times> 'b \<Rightarrow> (Worker \<times> 'b \<times> IntermediateResult option) result" where
  "Map_HandleRequest sv request wb = map_do_work (sv_storage sv) (sv_hash sv) (sv_pymap sv) request wb"

definition Reduce_HandleRequest ::
    "'b services \<Rightarrow> ReducerInput \<Rightarrow> Worker \<times> 'b \<Rightarrow> (Worker \<times> 'b \<times> FinalResult option) result" where
  "Reduce_HandleRequest sv request wb = reduce_do_work (sv_storage sv) (sv_hash sv) (sv_pyreduce sv) request wb"

definition with_reply :: "('a \<Rightarrow> rpc_reply) \<Rightarrow> (Worker \<times> 'b \<times> 'a option) result \<Rightarrow> (Worker \<times> 'b \<times> rpc_reply option) result" where
  "with_reply f r = rbind r (\<lambda>(w, b, reply). Inr (w, b, map_option f reply))"

fun HandleRequest :: "'b services \<Rightarrow> rpc_request \<Rightarrow> Worker \<times> 'b \<Rightarrow> (Worker \<times> 'b \<times> rpc_reply option) result" where
  "HandleRequest sv (ExchangeReq container) wb = with_reply ExchangeReply (ExchangeInfo_HandleRequest container wb)"
| "HandleRequest sv PingReq wb = with_reply (\<lambda>_. PingReply) (Ping_HandleRequest wb)"
| "HandleRequest sv (MapReq request) wb = with_reply MapReply (Map_HandleRequest sv request wb)"
| "HandleRequest sv (ReduceReq request) wb = with_reply ReduceReply (Reduce_HandleRequest sv request wb)"

lemmas handler_defs = ExchangeInfo_HandleRequest_def Ping_HandleRequest_def Map_HandleRequest_def
  Reduce_HandleRequest_def with_reply_def

text \<open>The state of the loop: running, asleep inside a handler, or ended by an exception, which no handler
  catches.\<close>

datatype loop_status = LoopRunning | LoopAsleep | LoopTerminated

record 'b server =
  se_calls :: "CallData list"
  se_worker :: Worker
  se_blobs :: 'b
  se_replies :: "(rpc_request \<times> rpc_reply) list"
  se_status :: loop_status

text \<open>\<^verbatim>\<open>RunServer\<close> up to the loop of \<^verbatim>\<open>handleRpcs\<close>.\<close>

definition RunServer :: "Worker \<Rightarrow> 'b \<Rightarrow> 'b server" where
  "RunServer w b = \<lparr>se_calls = initial_calls, se_worker = w, se_blobs = b, se_replies = [], se_status = LoopRunning\<rparr>"

text \<open>\<^verbatim>\<open>Proceed\<close> of the call object at position \<open>k\<close>, when the queue returns its tag: a registered
  object serves the request it was given, a finished one is deleted.\<close>

definition serve_call :: "'b services \<Rightarrow> nat \<Rightarrow> rpc_request \<Rightarrow> 'b server \<Rightarrow> 'b server" where
  "serve_call sv k r s =
     (let c = se_calls s ! k;
          calls = se_calls s @ AddNextToCompletionQueue c
      in case HandleRequest sv r (se_worker s, se_blobs s) of
           Inl e \<Rightarrow> s\<lparr>se_calls := calls, se_status := LoopTerminated\<rparr>
         | Inr (w, b, None) \<Rightarrow> s\<lparr>se_calls := calls, se_worker := w, se_blobs := b, se_status := LoopAsleep\<rparr>
         | Inr (w, b, Some reply) \<Rightarrow>
             s\<lparr>se_calls := calls[k := c\<lparr>cd_status := FINISH\<rparr>], se_worker := w, se_blobs := b,
               se_replies := se_replies s @ [(r, reply)]\<rparr>)"

definition delete_call :: "nat \<Rightarrow> 'b server \<Rightarrow> 'b server" where
  "delete_call k s = s\<lparr>se_calls := take k (se_calls s) @ drop (Suc k) (se_calls s)\<rparr>"

inductive server_step :: "'b services \<Rightarrow> 'b server \<Rightarrow> 'b server \<Rightarrow> bool" for sv where
  request: "\<lbrakk>se_status s = LoopRunning; k < length (se_calls s); cd_status (se_calls s ! k) = PROCESS;
      cd_method (se_calls s ! k) = request_method r\<rbrakk> \<Longrightarrow>
    server_step sv s (serve_call sv k r s)"
| sent: "\<lbrakk>se_status s = LoopRunning; k < length (se_calls s); cd_status (se_calls s ! k) = FINISH\<rbrakk> \<Longrightarrow>
    server_step sv s (delete_call k s)"

section \<open>The reference\<close>

text \<open>Requests served one after the other: the state afterwards and the replies, \<open>None\<close> when one of them
  is not answered.\<close>

fun serve_all :: "'b services \<Rightarrow> rpc_request list \<Rightarrow> Worker \<times> 'b \<Rightarrow> ((Worker \<times> 'b) \<times> rpc_reply list) option" where
  "serve_all sv [] wb = Some (wb, [])"
| "serve_all sv (r # rs) wb =
     (case HandleRequest sv r wb of
        Inr (w, b, Some reply) \<Rightarrow> map_option (\<lambda>(wb', replies). (wb', reply # replies)) (serve_all sv rs (w, b))
      | _ \<Rightarrow> None)"

lemma serve_all_snoc:
  assumes "serve_all sv rs wb = Some (wb', replies)" "HandleRequest sv r wb' = Inr (w, b, Some reply)"
  shows "serve_all sv (rs @ [r]) wb = Some ((w, b), replies @ [reply])"
  using assms(1)
proof (induction rs arbitrary: wb replies)
  case (Cons x rs)
  from Cons.prems obtain w1 b1 y replies' where h: "HandleRequest sv x wb = Inr (w1, b1, Some y)"
    "serve_all sv rs (w1, b1) = Some (wb', replies')" "replies = y # replies'"
    by (auto split: sum.splits option.splits prod.splits)
  with Cons.IH [OF h(2)] show ?case by simp
qed (use assms(2) in simp)

lemma handled_method: "HandleRequest sv r wb = Inr (w, b, Some reply) \<Longrightarrow> reply_method reply = request_method r"
  by (cases wb; cases r) (auto simp: handler_defs rbind_Inr_iff split_beta Let_def)

lemma unanswered_failed: "HandleRequest sv r wb = Inr (w, b, None) \<Longrightarrow> wk_has_failed w"
  by (cases wb; cases r)
     (auto simp: handler_defs rbind_Inr_iff split_beta Let_def map_do_work_def reduce_do_work_def split: if_splits)

section \<open>The loop serves in order\<close>

text \<open>The call objects live as in \<^verbatim>\<open>WorkerService\<close>.\<close>

lemma server_calls:
  assumes "server_step sv s t" "se_status t = LoopRunning"
  shows "service_step (se_calls s) (se_calls t)"
  using assms(1)
proof cases
  case (request k r)
  let ?c = "se_calls s ! k" and ?cs = "se_calls s"
  have split: "?cs = take k ?cs @ ?c # drop (Suc k) ?cs" using request(3) by (rule id_take_nth_drop)
  have p: "Proceed ?c = (Some (?c\<lparr>cd_status := FINISH\<rparr>), [new_CallData (cd_method ?c)])"
    using request(4) by (simp add: Proceed_def AddNextToCompletionQueue_def)
  obtain w b reply where "HandleRequest sv r (se_worker s, se_blobs s) = Inr (w, b, Some reply)"
    using assms(2) request(1,2) by (auto simp: serve_call_def Let_def split: sum.splits prod.splits option.splits)
  then have t: "se_calls t = (?cs @ [new_CallData (cd_method ?c)])[k := ?c\<lparr>cd_status := FINISH\<rparr>]"
    by (simp add: request(1) serve_call_def AddNextToCompletionQueue_def Let_def)
  have "se_calls t = take k ?cs @ [?c\<lparr>cd_status := FINISH\<rparr>] @ drop (Suc k) ?cs @ [new_CallData (cd_method ?c)]"
    unfolding t using request(3) by (simp add: list_update_append upd_conv_take_nth_drop)
  then show ?thesis using service_step.event [OF p, of "take k ?cs" "drop (Suc k) ?cs"] split by simp
next
  case (sent k)
  let ?c = "se_calls s ! k" and ?cs = "se_calls s"
  have split: "?cs = take k ?cs @ ?c # drop (Suc k) ?cs" using sent(3) by (rule id_take_nth_drop)
  have "Proceed ?c = (None, [])" using sent(4) by (simp add: Proceed_def AddNextToCompletionQueue_def)
  from service_step.event [OF this, of "take k ?cs" "drop (Suc k) ?cs"] split show ?thesis
    by (simp add: sent(1) delete_call_def)
qed

definition server_inv :: "'b services \<Rightarrow> Worker \<times> 'b \<Rightarrow> 'b server \<Rightarrow> bool" where
  "server_inv sv wb s \<longleftrightarrow>
     (\<exists>wb'. serve_all sv (map fst (se_replies s)) wb = Some (wb', map snd (se_replies s)) \<and>
        (se_status s = LoopRunning \<longrightarrow> wb' = (se_worker s, se_blobs s))) \<and>
     (\<forall>(r, reply) \<in> set (se_replies s). reply_method reply = request_method r) \<and>
     (se_status s = LoopRunning \<longrightarrow> service_inv (se_calls s)) \<and>
     (se_status s = LoopAsleep \<longrightarrow> wk_has_failed (se_worker s))"

lemma server_inv_step:
  assumes "server_step sv s t" "server_inv sv wb s"
  shows "server_inv sv wb t"
proof -
  have run: "se_status s = LoopRunning" using assms(1) by (auto elim: server_step.cases)
  have calls: "se_status t = LoopRunning \<longrightarrow> service_inv (se_calls t)"
    using server_calls [OF assms(1)] assms(2) run service_inv_step unfolding server_inv_def by blast
  have old: "serve_all sv (map fst (se_replies s)) wb = Some ((se_worker s, se_blobs s), map snd (se_replies s))"
    "\<forall>(r, reply) \<in> set (se_replies s). reply_method reply = request_method r"
    using assms(2) run by (auto simp: server_inv_def)
  from assms(1) show ?thesis
  proof cases
    case (request k r)
    show ?thesis
    proof (cases "HandleRequest sv r (se_worker s, se_blobs s)")
      case (Inl e)
      then show ?thesis using old by (simp add: request(1) serve_call_def server_inv_def Let_def)
    next
      case (Inr wbr)
      obtain w b ans where wbr: "wbr = (w, b, ans)" by (metis prod_cases3)
      show ?thesis
      proof (cases ans)
        case None
        then show ?thesis using old Inr unanswered_failed wbr
          by (auto simp: request(1) serve_call_def server_inv_def Let_def)
      next
        case (Some reply)
        then have h: "HandleRequest sv r (se_worker s, se_blobs s) = Inr (w, b, Some reply)" using Inr wbr by simp
        show ?thesis
          using calls run old(2) serve_all_snoc [OF old(1) h] handled_method [OF h]
          by (auto simp: request(1) h serve_call_def server_inv_def Let_def)
      qed
    qed
  next
    case (sent k)
    then show ?thesis using calls old run by (simp add: delete_call_def server_inv_def)
  qed
qed

lemma server_inv_init: "server_inv sv (w, b) (RunServer w b)"
  by (simp add: server_inv_def RunServer_def service_inv_initial)

interpretation server: invariant_system "\<lambda>s. s = RunServer w b" "server_step sv" "server_inv sv (w, b)" for w b sv
  by unfold_locales (auto intro: server_inv_init server_inv_step)


definition demo_services :: "(string \<times> string \<rightharpoonup> string) services" where
  "demo_services = \<lparr>sv_storage = demo_storage, sv_hash = (\<lambda>_. 5), sv_pymap = (\<lambda>c. Some [(''to'', 1)]),
     sv_pyreduce = (\<lambda>c. Some [])\<rparr>"




end
