(* ===== verification/Spec2Isabelle.thy ===== *)
theory Spec2Isabelle
  imports Failover Cluster PrototypeDocker Answer DrainRace ReplThread Connections WorkerServer
begin

text \<open>
  A verification library for the MapReduce framework of this repository.

  \<^bold>\<open>The program.\<close> A client posts a job to the HTTP front end of the leading master
  (\<^verbatim>\<open>w7/src/master/requesthandler.h\<close>). The master (\<^verbatim>\<open>masterimpl.cc\<close>) cuts the blobs of a
  container into shards (\<^verbatim>\<open>dbconn.h\<close>), finds the workers through ZooKeeper, sends map tasks to them
  through asynchronous calls (\<^verbatim>\<open>mrclient.h\<close>), retries what failed, and then sends each reducer the
  intermediate blobs that carry its number. While it works, a thread pings the workers and another one
  pushes a checkpoint to a second master (\<^verbatim>\<open>replclient.cc\<close>, \<^verbatim>\<open>replserver.cc\<close>), which takes the
  job over when the election through ZooKeeper makes it the leader. A worker (\<^verbatim>\<open>w7/src/worker\<close>) serves
  calls in an event loop (\<^verbatim>\<open>mrservice.h\<close>), downloads its pieces and moves their borders to word
  boundaries (\<^verbatim>\<open>worker.h\<close>), runs the user's Python function on them (\<^verbatim>\<open>workerimpl.cc\<close>,
  \<^verbatim>\<open>w7/src/python\<close>) and stores the result. \<^verbatim>\<open>w6\<close> holds two versions of an earlier prototype.

  \<^bold>\<open>Theories.\<close>
  \<^item> \<open>Prelude\<close>: result type, \<^verbatim>\<open>std::map\<close> as an ordered association list, and the interfaces as
    locales: \<open>ordered_map\<close>, \<open>codec\<close>, \<open>invariant_system\<close>, \<open>fail_counter\<close>. \<open>CppString\<close>: the part of
    \<^verbatim>\<open>std::string\<close>, \<^verbatim>\<open>strtol\<close>, \<^verbatim>\<open>stoi\<close> and \<^verbatim>\<open>to_string\<close> the sources use.
  \<^item> \<open>Helpers\<close> (\<^verbatim>\<open>helpers.h\<close>), \<open>Client\<close> (\<^verbatim>\<open>mrclient.h\<close> and the completion loops of pings and
    exchanges), \<open>MasterState\<close> (\<^verbatim>\<open>master.h\<close>, the worker registry, choice of a client, simulated
    failure): the registry has one client per registered worker after every update. \<open>PingThread\<close>
    (\<^verbatim>\<open>start_ping\<close>, \<^verbatim>\<open>stop_ping\<close> and the join in \<^verbatim>\<open>process\<close>): the thread ends when it is
    stopped after it has raised its flag, and never when it is stopped before.
  \<^item> \<open>Sharding\<close> (\<^verbatim>\<open>make_shards\<close>, \<^verbatim>\<open>create_sharding_data\<close>) and \<open>ShardSize\<close> (\<^verbatim>\<open>calc_shard_sz\<close>
    with its float arithmetic): the pieces cover the input, all shards but the last are equal, and how
    many there are. \<open>WordBoundary\<close> (\<^verbatim>\<open>fix_word_boundary\<close>): no word is lost or counted twice.
  \<^item> \<open>TaskPool\<close>: the abstract specification of a dispatcher, with the locale \<open>pool_refinement\<close>.
    \<open>MapDispatch\<close> and \<open>ReduceDispatch\<close>: \<^verbatim>\<open>dispatchMapTasks\<close>, \<^verbatim>\<open>dispatchReduceTasks\<close> and
    their completion threads as step relations over statements of the threads; both refine the pool, finish only with
    one result per task, and can always finish. \<open>DrainRace\<close>: the map dispatch with the erasure of a response and the
    decrement of the counter as two steps; the results are the same, but the completion thread can be lost.
  \<^item> \<open>Replication\<close> (\<^verbatim>\<open>serialize_data\<close>, \<^verbatim>\<open>deserialize_data\<close>, \<^verbatim>\<open>processReplicatedData\<close>):
    checkpoints are exact and a takeover completes the job. \<open>ReplThread\<close> (\<^verbatim>\<open>start_repl_client\<close>): what
    the follower holds is a prefix of what was reported, and the thread catches up with every new report.
    \<open>Failover\<close> composes the leader's map phase, a checkpoint at any moment of it, the takeover and both phases
    at the follower: the words are still counted exactly. Its demonstration is also that of the theorems below.
  \<^item> \<open>ElectionSpec\<close>: an abstract ballot. \<open>Election\<close> (\<^verbatim>\<open>elect_leader\<close>, \<^verbatim>\<open>wait_until_leader\<close>).
    \<open>Sessions\<close>: any number of processes over one ZooKeeper service, with the locale \<open>contenders\<close> for
    their code and the proof that such a system refines the ballot. \<open>Cluster\<close> instantiates it with the
    masters of \<^verbatim>\<open>w7\<close>, \<open>Prototype\<close> with those of \<^verbatim>\<open>w6/src\<close>; \<open>PrototypeDocker\<close> shows that the
    election of \<^verbatim>\<open>w6/DockerFolder\<close> decides like that of \<^verbatim>\<open>w7\<close>. \<open>Startup\<close>: \<^verbatim>\<open>main\<close>,
    registration and discovery of workers, start of the masters. \<open>Handshake\<close>: the address exchange and
    the pings of the master against a network of workers, up to a worker that is ready for tasks.
    \<open>Connections\<close> (\<^verbatim>\<open>dbconn.h\<close>, \<^verbatim>\<open>WorkerDBConnection\<close>): opening the storage connections, with the
    exceptions that are swallowed on the way.
  \<^item> \<open>Worker\<close> (\<^verbatim>\<open>workerimpl.cc\<close>, \<^verbatim>\<open>worker.h\<close> and the handlers of \<^verbatim>\<open>mrservice.h\<close>): what a
    task stores and answers. \<open>WorkerService\<close>: the life cycle of the call objects. \<open>WorkerServer\<close>: the
    event loop with the handlers, equivalent to serving the requests one after the other.
  \<^item> \<open>RequestHandler\<close>: query parsing, \<^verbatim>\<open>process\<close> up to the map dispatch, the responses. \<open>Request\<close>: the rest
    of \<^verbatim>\<open>process\<close>, with both dispatches, their completion threads and the heartbeat thread over one master, up to
    the joins and the answer; a request projects to a run of the two dispatches, and an exception in it takes the
    master down. \<open>Answer\<close> adds the tasks of the workers: what an answered request has computed.
  \<^item> \<open>Job\<close>: what the map phase hands to the reduce phase. \<open>WordCount\<close>: \<^verbatim>\<open>map.py\<close> and
    \<^verbatim>\<open>reduce.py\<close>. \<open>WordCountJob\<close> composes sharding, word boundaries, both kinds of tasks and both
    dispatchers. This theory states the properties of a whole job, from the HTTP request to the output blobs.

  \<^bold>\<open>State and effects.\<close> Objects are records with the sources' field names; \<^verbatim>\<open>Master\<close> also holds the
  globals of its file (\<^verbatim>\<open>g_repl_list\<close>, \<^verbatim>\<open>g_repl_data\<close>, \<^verbatim>\<open>g_ready\<close>) and the heap of the
  client objects, which are shared through pointers. Exceptions are \<open>Inl\<close> values. Threads interleave at
  the granularity of the statements that touch shared data, under sequential consistency, except that a response of
  the map phase is taken from its list and discounted in one step, which \<open>DrainRace\<close> takes apart; a lost or
  failed call is an answer with an error status. \<^verbatim>\<open>size_t\<close> is a 64-bit word, the message fields are
  32-bit words, and \<^verbatim>\<open>float\<close> sums are rounded to 24 bits.

  \<^bold>\<open>Parameters.\<close> Code outside the repository is an argument: ZooKeeper through Conservator (record
  \<open>Conservator\<close>, laws \<open>numbered_zk\<close>, \<open>registry_zk\<close>, \<open>leader_data_zk\<close>), the blob storage (record
  \<open>Storage\<close>, law \<open>storage_works\<close>) and its client (record \<open>Azure\<close>, law \<open>azure_works\<close>), \<^verbatim>\<open>std::hash\<close>, and the Python functions in the worker. Each
  law has an instance in the demonstrations.

  \<^bold>\<open>Loops and bounds.\<close> Loops that may not end are \<open>partial_function (option)\<close> (\<open>shard_loop\<close>,
  \<open>find_loop\<close>, \<open>wait_address\<close>) or step relations, and returning is proved where it holds; the completion
  loops count the calls they wait for, as the code does. No fuel is used. Bounds in the hypotheses are
  those of the code: offsets below \<open>2 ^ 31\<close> (message fields), words of at most sixteen bytes
  (\<^verbatim>\<open>EXTRA_LEN\<close>), totals below \<open>2 ^ 24\<close> where float sums must be exact, and ten digits for
  ZooKeeper's sequence numbers.

  \<^bold>\<open>Not modelled.\<close> Logging; the internals of gRPC, ZooKeeper, Azure storage, Python and the HTTP
  server, deadlines included; text that is not ASCII in the Python functions; data races and weak memory;
  destructors; code that is never called (\<^verbatim>\<open>GetIPAddress\<close>, \<^verbatim>\<open>add_suffix\<close>) or commented out (the
  asynchronous replication server, the first \<^verbatim>\<open>dispatchReduceTasks\<close>); build and deployment files.
\<close>

section \<open>A whole job\<close>

text \<open>
  C5: The map phase hands over exactly what the reduce phase needs. When the workers run
  \<open>map_do_work\<close> and the dispatch returns, every intermediate blob carries the number of a reducer, no
  blob is listed twice, there is one blob per piece and reducer of every shard, and so selecting the
  blobs of a reducer never throws and the reducers together are sent every blob exactly once,
  whatever calls failed or timed out on the way.
\<close>

theorem map_outputs_routed:
  assumes "storage_works st" "worker_map_answers st hash pymap answers" "0 < m_nreducers m" "m_nreducers m < 2 ^ 31"
    and "indexed_shards m" "unsigned_of_int (m_nmappers m) = length (m_shards m)"
    and "(map_step answers)\<^sup>*\<^sup>* (runMapper m) s" "ms_pc s = Returned"
    and "blobs = m_IntblobList (ms_master s)"
  shows "distinct blobs \<and>
    length blobs = (\<Sum>f \<leftarrow> m_shards m. length (fs_sets f)) * nat (m_nreducers m) \<and>
    (\<forall>k < length (m_shards m). \<exists>a. \<forall>j < length (fs_sets (m_shards m ! k)). \<forall>i \<in> {0..<m_nreducers m}.
       int_name a (int k) (int j) i \<in> set blobs) \<and>
    (\<exists>vecs. map (\<lambda>j. reduce_blob_vec (int j) blobs) [0..<nat (m_nreducers m)] = map Inr vecs \<and>
       (\<Sum>v \<leftarrow> vecs. mset v) = mset blobs)"
proof -
  have fin: "map_finished m (results s) blobs" using map_phase_finished [OF assms(1-8)] assms(9) by simp
  then have "\<forall>item \<in> set blobs. names_reducer (int (nat (m_nreducers m))) item"
    using map_finished_names assms(3,4) by simp
  from reduce_vecs_partition [OF this] show ?thesis
    using map_finished_distinct [OF fin] map_finished_length [OF fin] map_finished_complete [OF fin] by blast
qed

text \<open>Demonstration: a worker at \<^verbatim>\<open>w:1\<close> serves the two shards of \<open>demo_master\<close>.\<close>

definition demo_map_answers :: "AsyncClientMapCall \<Rightarrow> int \<Rightarrow> IntermediateResult \<Rightarrow> bool" where
  "demo_map_answers c code reply \<longleftrightarrow>
     code = 14 \<or> code = 0 \<and>
       (\<exists>w b w' b'. worker_ready (new_WorkerDBConnection ''books'') ''w:1'' w \<and>
          map_do_work demo_storage (\<lambda>_. 5) (\<lambda>c. Some [(''to'', 1)]) (mc_query c) (w, b) = Inr (w', b', Some reply))"

lemma demo_map_answers_workers:
  "worker_map_answers demo_storage (\<lambda>_. 5) (\<lambda>c. Some [(''to'', 1)]) demo_map_answers"
  unfolding worker_map_answers_def
proof (intro allI impI)
  fix c reply assume "demo_map_answers c 0 reply"
  moreover have "CHR ''_'' \<notin> set ''w:1''" by simp
  ultimately show "\<exists>db a w b w' b'. worker_ready db a w \<and> CHR ''_'' \<notin> set a \<and>
      map_do_work demo_storage (\<lambda>_. 5) (\<lambda>c. Some [(''to'', 1)]) (mc_query c) (w, b) = Inr (w', b', Some reply)"
    unfolding demo_map_answers_def by fastforce
qed

lemma demo_nreducers: "m_nreducers demo_master = 1" by (simp add: demo_master_def)

lemma demo_map_answerable: "answerable demo_master demo_map_answers"
proof -
  have "\<exists>reply. demo_map_answers c 0 reply" if "map_call demo_master c" for c
  proof -
    have "mi_npartition (mc_query c) = 1" using that by (simp add: map_call_def map_query_def demo_nreducers)
    moreover have "\<not> wk_will_fail demo_worker" "\<not> wk_has_failed demo_worker"
      by (simp_all add: demo_worker_def worker_create_connection_def new_Worker_def)
    ultimately obtain w' b' reply where "map_do_work demo_storage (\<lambda>_. 5) (\<lambda>c. Some [(''to'', 1)]) (mc_query c)
        (demo_worker, Map.empty) = Inr (w', b', Some reply)"
      using map_do_work_answers [OF demo_storage_works demo_worker_ready, of "mc_query c" "\<lambda>_. 5"
          "\<lambda>c. Some [(''to'', 1)]" Map.empty] by auto
    then show ?thesis using demo_worker_ready unfolding demo_map_answers_def by blast
  qed
  then show ?thesis by (simp add: answerable_def demo_master_simps)
qed

lemma demo_job_run: "\<exists>t. (map_step demo_map_answers)\<^sup>*\<^sup>* (runMapper demo_master) t \<and> ms_pc t = Returned"
  by (rule map_dispatch_completes [OF demo_master_simps(1) demo_map_answerable])
     (simp_all add: demo_master_simps)

theorem map_outputs_routed_witness:
  "\<exists>s. (map_step demo_map_answers)\<^sup>*\<^sup>* (runMapper demo_master) s \<and> ms_pc s = Returned \<and>
    length (m_IntblobList (ms_master s)) = 2"
proof -
  obtain s where s: "(map_step demo_map_answers)\<^sup>*\<^sup>* (runMapper demo_master) s" "ms_pc s = Returned"
    using demo_job_run by blast
  have "length (m_IntblobList (ms_master s)) =
      (\<Sum>f \<leftarrow> m_shards demo_master. length (fs_sets f)) * nat (m_nreducers demo_master)"
    using map_outputs_routed [OF demo_storage_works demo_map_answers_workers _ _ demo_master_simps(1,4) s refl]
    by (simp add: demo_nreducers)
  also have "\<dots> = 2" by (simp add: demo_master_def new_FileShard_def)
  finally show ?thesis using s by blast
qed



section \<open>Word count\<close>

text \<open>
  C2: The framework counts words. Take a container of printable text whose runs have at most sixteen
  bytes, cut by the master into as many shards as there are mappers, and let the workers run the map
  and reduce scripts on it. However the calls were scheduled, failed, were lost and retried, once the
  reduce dispatch has returned, the output blob \<^verbatim>\<open>out_j\<close> of every reducer \<open>j\<close> lists exactly the words of
  the input that hash to \<open>j\<close>, each once and with the number of its occurrences in the whole input.
\<close>

theorem word_count_correct:
  assumes "storage_works st" "countable_input (st_range st container b0) content items"
    and "0 < shard_sz" "fits_size_t shard_sz items" "shards_of shard_sz items = Some (m_shards m)"
    and "unsigned_of_int (m_nmappers m) = length (m_shards m)" "0 < length (m_shards m)"
    and "0 < m_nreducers m" "m_nreducers m < 2 ^ 31"
    and "word_count_run st hash container m b0 b2"
  shows "\<forall>j \<in> {0..<m_nreducers m}. \<exists>d.
    st_download st (container @ ''out'') (''out_'' @ to_string j) b2 = Inr (kv_lines (with_repr d)) \<and>
    distinct (map fst d) \<and> map_of d = counts_of hash (m_nreducers m) j (input_tokens content items)"
  using assms(10) word_count_output [OF assms(1-5) shards_of_indexed [OF assms(5)] assms(6-9)]
  unfolding word_count_run_def by (metis atLeastLessThan_iff)

theorem word_count_correct_witness:
  "\<exists>b2 d. word_count_run demo_storage (\<lambda>_. 5) ''books'' demo_count_master demo_blobs b2 \<and>
     st_download demo_storage ''booksout'' ''out_0'' b2 = Inr (kv_lines (with_repr d)) \<and>
     map_of d ''be'' = Some 2 \<and> map_of d ''not'' = Some 1 \<and> map_of d ''no'' = None"
proof -
  obtain b2 where run: "word_count_run demo_storage (\<lambda>_. 5) ''books'' demo_count_master demo_blobs b2"
    using word_count_runs [OF demo_storage_works demo_countable demo_count_hyps(1,2) demo_count_shards
        shards_of_indexed [OF demo_count_shards] demo_count_hyps(3-6) demo_count_simps(5,6,4) demo_worker_ready
        demo_count_hyps(7) demo_worker_live]
    by blast
  from demo_output [OF word_count_correct [OF demo_storage_works demo_countable demo_count_hyps(1,2) demo_count_shards
        demo_count_hyps(3-6) run]] run
  show ?thesis by blast
qed

section \<open>From the request to the output\<close>

text \<open>
  C1: The framework as its user sees it. Post \<^verbatim>\<open>/upload?container=c&m=n&r=k\<close> to a live leader with a
  storage connection and a registered worker, over an input of less than 16 MiB of printable text without
  empty blobs, whose runs have at most sixteen bytes and which splits into as many shards as mappers. The
  request reaches the map phase; from there it can be answered; and whenever it is, with whatever interleaving of the
  dispatchers, the completion threads and the heartbeat thread, the output blob of every reducer lists exactly the
  words that hash to it, each once and with the number of its occurrences in the whole input.
\<close>

theorem upload_counts_words:
  assumes "storage_works st" "\<forall>x \<in> set c. plain x" "0 < n" "n < 2 ^ 24" "0 < k" "k < 2 ^ 31"
    and "clients_wf m" "\<not> m_has_failed m" "\<not> m_will_fail m" "m_dbConnection m \<noteq> None"
    and "z' = snd (cf_create fw False False ''/workers'' [] z)"
    and "cf_getChildren fw ''/workers'' z' = Inr wrkrs" "\<forall>w \<in> set wrkrs. CHR ''/'' \<notin> set w" "wrkrs \<noteq> []"
    and "cf_getChildren fw ''/masters'' z' = Inr masters" "length masters \<le> 1 \<or> \<not> repl_clt_thd m"
    and "items = listing c" "total_bytes items < 2 ^ 24" "\<forall>(nm, l) \<in> set (blobs_of items). 0 < l" "blobs_of items \<noteq> []"
    and "ceil_div (total_bytes items) (ceil_div (total_bytes items) (nat n)) = nat n"
    and "countable_input (st_range st c b0) content items" "card (set wrkrs) \<le> length answers"
    and "worker_ready (new_WorkerDBConnection c) a w" "CHR ''_'' \<notin> set a" "\<not> wk_will_fail w" "\<not> wk_has_failed w"
  shows "\<exists>s. process fw garbage listing (map NextCall answers) counter (new_req_handler (upload_dest c n k)) z m =
      (z', Inr (Some s)) \<and>
    (\<exists>b2. answered_run st hash c s b0 b2) \<and>
    (\<forall>b2. answered_run st hash c s b0 b2 \<longrightarrow> (\<forall>j \<in> {0..<k}. \<exists>d.
       st_download st (c @ ''out'') (''out_'' @ to_string j) b2 = Inr (kv_lines (with_repr d)) \<and>
       distinct (map fst d) \<and> map_of d = counts_of hash k j (input_tokens content items)))"
proof -
  let ?rh = "new_req_handler (upload_dest c n k)"
  have rh: "rh_container ?rh = c" "strtol (rh_mappers ?rh) = n" "strtol (rh_reducers ?rh) = k"
    using assms(2-6) by (simp_all add: new_req_handler_upload strtol_to_string)
  have n: "n = strtol (rh_mappers ?rh)" "items = listing (rh_container ?rh)" using rh assms(17) by simp_all
  obtain m4 sz where p: "process fw garbage listing (map NextCall answers) counter ?rh z m = (z', Inr (Some (runMapper m4)))"
    and sh: "shards_of sz items = Some (m_shards m4)" "0 < sz" "fits_size_t sz items"
      "length (m_shards m4) = ceil_div (total_bytes items) (ceil_div (total_bytes items) (nat n))"
    and m4: "m_nmappers m4 = n" "m_nreducers m4 = to_int32 (strtol (rh_reducers ?rh))"
      "nodeid_of m4 ` set (m_Clients m4) = node_path ` set wrkrs" "m_will_fail m4 = m_will_fail m" "\<not> m_has_failed m4"
    by (rule process_job [where listing = listing and rh = ?rh and answers = answers,
          OF assms(7,8,10-13) n(1) assms(3,4) n(2) assms(18-20,23,15,16)])
  have m: "m_nreducers m4 = k" "\<not> m_will_fail m4" "\<not> m_has_failed m4" "m_Clients m4 \<noteq> []"
    using m4 assms(5,6,9,14) rh(3) by (auto simp: to_int32_id)
  have hyps: "unsigned_of_int (m_nmappers m4) = length (m_shards m4)" "0 < length (m_shards m4)"
    "0 < m_nreducers m4" "m_nreducers m4 < 2 ^ 31"
    using m m4(1) sh(4) assms(3-6,21) by (simp_all add: unsigned_of_int_def)
  have "\<exists>b2. answered_run st hash c (runMapper m4) b0 b2"
    by (rule answered_runs [OF assms(1,22) sh(2,3,1) shards_of_indexed [OF sh(1)] hyps m(2-4) assms(24-27)])
  moreover have "\<exists>d. st_download st (c @ ''out'') (''out_'' @ to_string j) b2 = Inr (kv_lines (with_repr d)) \<and>
      distinct (map fst d) \<and> map_of d = counts_of hash k j (input_tokens content items)"
    if "answered_run st hash c (runMapper m4) b0 b2" "j \<in> {0..<k}" for b2 j
    using answered_output [OF assms(1,22) sh(2,3,1) hyps that(1), of j] that(2) m(1) by simp
  ultimately show ?thesis using p by blast
qed

lemma demo_upload_hyps:
  "\<forall>x \<in> set ''books''. plain x" "clients_wf demo_live_leader" "\<not> m_has_failed demo_live_leader"
  "\<not> m_will_fail demo_live_leader" "m_dbConnection demo_live_leader \<noteq> None"
  "demo_workers = snd (cf_create demo_zk False False ''/workers'' [] demo_workers)"
  "cf_getChildren demo_zk ''/workers'' demo_workers = Inr [''worker_1'']"
  "cf_getChildren demo_zk ''/masters'' demo_workers = Inr [''master_1'', ''master_2'']" "\<not> repl_clt_thd demo_live_leader"
  by (simp_all add: demo_request_simps plain_def)

theorem upload_counts_words_witness:
  "\<exists>s b2 d. process demo_zk (\<lambda>_. PING_FAIL) (\<lambda>_. [BlobItem ''a'' 19]) (map NextCall [(ClientPtr 0, 0, ''w:1'')]) 0
       (new_req_handler (upload_dest ''books'' 2 1)) demo_workers demo_live_leader = (demo_workers, Inr (Some s)) \<and>
     answered_run demo_storage (\<lambda>_. 5) ''books'' s demo_blobs b2 \<and>
     st_download demo_storage ''booksout'' ''out_0'' b2 = Inr (kv_lines (with_repr d)) \<and> map_of d ''be'' = Some 2"
proof -
  have inp: "total_bytes [BlobItem ''a'' 19] = 19" "ceil_div 19 (ceil_div 19 2) = 2"
    by code_simp+
  obtain s where s: "process demo_zk (\<lambda>_. PING_FAIL) (\<lambda>_. [BlobItem ''a'' 19]) (map NextCall [(ClientPtr 0, 0, ''w:1'')]) 0
       (new_req_handler (upload_dest ''books'' 2 1)) demo_workers demo_live_leader = (demo_workers, Inr (Some s))"
    and run: "\<exists>b2. answered_run demo_storage (\<lambda>_. 5) ''books'' s demo_blobs b2"
    and out: "\<And>b2. answered_run demo_storage (\<lambda>_. 5) ''books'' s demo_blobs b2 \<Longrightarrow>
      \<forall>j \<in> {0..<1}. \<exists>d. st_download demo_storage (''books'' @ ''out'') (''out_'' @ to_string j) b2 = Inr (kv_lines (with_repr d)) \<and>
        distinct (map fst d) \<and> map_of d = counts_of (\<lambda>_. 5) 1 j (input_tokens demo_content [BlobItem ''a'' 19])"
    using upload_counts_words [OF demo_storage_works demo_upload_hyps(1), of 2 1 demo_live_leader demo_workers demo_zk demo_workers
        "[''worker_1'']" "[''master_1'', ''master_2'']" "[BlobItem ''a'' 19]" "\<lambda>_. [BlobItem ''a'' 19]" demo_blobs demo_content
        "[(ClientPtr 0, 0, ''w:1'')]" "''w:1''" demo_worker "\<lambda>_. PING_FAIL" 0 "\<lambda>_. 5"]
      demo_upload_hyps demo_countable demo_worker_ready demo_worker_live inp(1,2)
    by auto
  from run obtain b2 where b2: "answered_run demo_storage (\<lambda>_. 5) ''books'' s demo_blobs b2" by blast
  from demo_output [of b2, unfolded demo_count_simps, OF out [OF b2]] s b2 show ?thesis by blast
qed

end
